(* ===== verification/Pool_Prelude.thy ===== *)
theory Pool_Prelude
  imports "HOL-Library.Word" "HOL-Library.AList" "HOL-Library.Multiset" "HOL-Library.Signed_Division"
begin

text \<open>
  Shared vocabulary of the development: the machine integers the Go code uses, the result of a
  Go call (a value, an error, a panic, or no return at all), the collections of rewrite rules the
  component theories fill, and the facts about association lists that model Go maps.

  \<^item> Go's \<^verbatim>\<open>int64\<close> and \<^verbatim>\<open>uint64\<close> counters are \<^typ>\<open>64 word\<close>: addition wraps as
    \<^verbatim>\<open>atomic.AddInt64\<close> does.
  \<^item> Go's \<^verbatim>\<open>int\<close> configuration fields are only compared, never added up, so they are \<^typ>\<open>int\<close>.
  \<^item> Nothing in this theory is specific to the pool.
\<close>

named_theorems frame "what an operation leaves unchanged"
named_theorems stats_defs "definitions of the statistics operations"
named_theorems world_defs "definitions of the elementary state updates of the pool"

type_synonym int64 = "64 word"
type_synonym uint64 = "64 word"

subsection \<open>Results of Go calls\<close>

text \<open>
  A Go function either returns a value, returns a non-nil error, panics, or never returns
  (a loop whose every iteration stays ready).
\<close>

datatype ('e, 'a) go_result = Ok 'a | Err 'e | Panic | Hang

fun is_Ok :: "('e, 'a) go_result \<Rightarrow> bool" where
  "is_Ok (Ok _) = True"
| "is_Ok _ = False"

lemma is_Ok_iff: "is_Ok r \<longleftrightarrow> (\<exists>x. r = Ok x)"
  by (cases r) auto

subsection \<open>Two's complement of width 64\<close>

text \<open>The value an arithmetic result \<open>x\<close> has when it is stored in a Go \<^verbatim>\<open>int64\<close>.\<close>

definition wrap64 :: "int \<Rightarrow> int" where
  "wrap64 x = (x + 2 ^ 63) mod 2 ^ 64 - 2 ^ 63"

definition max_int64 :: int where "max_int64 = 2 ^ 63 - 1"
definition min_int64 :: int where "min_int64 = - (2 ^ 63)"

lemma wrap64_range: "min_int64 \<le> wrap64 x \<and> wrap64 x \<le> max_int64"
  using pos_mod_bound [of "2 ^ 64" "x + 2 ^ 63"] pos_mod_sign [of "2 ^ 64" "x + 2 ^ 63"]
  by (auto simp: wrap64_def min_int64_def max_int64_def)

lemma wrap64_id: "min_int64 \<le> x \<Longrightarrow> x \<le> max_int64 \<Longrightarrow> wrap64 x = x"
  by (simp add: wrap64_def min_int64_def max_int64_def)

subsection \<open>Distinct machine identifiers\<close>

lemma of_nat_64_inject:
  assumes "(of_nat a :: uint64) = of_nat b" and "a < 2 ^ 64" and "b < 2 ^ 64"
  shows "a = b"
proof -
  have "unat (of_nat a :: uint64) = unat (of_nat b :: uint64)"
    using assms(1) by simp
  then show ?thesis
    using assms(2,3) by (simp add: unat_of_nat)
qed

subsection \<open>Association lists as Go maps\<close>

lemma map_of_Some_mem_snd: "map_of m k = Some v \<Longrightarrow> v \<in> snd ` set m"
  by (force dest: map_of_SomeD)

lemma snd_delete_subset: "snd ` set (AList.delete k m) \<subseteq> snd ` set m"
  by (auto simp: AList.delete_eq)

lemma set_update_new:
  "k \<notin> fst ` set m \<Longrightarrow> AList.update k v m = m @ [(k, v)]"
  by (induction m) auto

lemma delete_absent: "k \<notin> fst ` set m \<Longrightarrow> AList.delete k m = m"
  by (force simp: AList.delete_eq filter_id_conv)

lemma length_delete_present:
  assumes "distinct (map fst m)" and "k \<in> fst ` set m"
  shows "Suc (length (AList.delete k m)) = length m"
  using assms
proof (induction m)
  case Nil
  then show ?case by simp
next
  case (Cons a m)
  show ?case
  proof (cases "fst a = k")
    case True
    with Cons.prems(1) have "k \<notin> fst ` set m" by auto
    then have "AList.delete k m = m" by (rule delete_absent)
    with True show ?thesis by (cases a) (simp add: AList.delete_eq)
  next
    case False
    with Cons.prems have "k \<in> fst ` set m" by auto
    with False Cons show ?thesis by (cases a) (auto simp: AList.delete_eq)
  qed
qed

lemma length_filter_delete:
  "distinct (map fst xs) \<Longrightarrow> (k, v) \<in> set xs \<Longrightarrow>
     length (filter P xs) = length (filter P (AList.delete k xs)) + (if P (k, v) then 1 else 0)"
proof (induction xs)
  case (Cons x xs)
  obtain k' v' where x: "x = (k', v')" by (cases x)
  show ?case
  proof (cases "k' = k")
    case True
    with Cons.prems x have "v' = v" "k \<notin> fst ` set xs" by (auto simp: image_iff)
    with True x show ?thesis by (simp add: delete_absent)
  next
    case False
    with Cons x show ?thesis by auto
  qed
qed simp

end
