(* ===== verification/Pool_Errors.thy ===== *)
theory Pool_Errors
  imports Pool_Prelude
begin

text \<open>
  \<^verbatim>\<open>errors.go\<close>: the thirteen sentinel errors of the package, and the errors of the
  standard library the pool compares against or passes on. Go compares sentinel errors by
  identity, which distinct constructors give. \<open>NetError b n\<close> is any error that implements
  \<^verbatim>\<open>net.Error\<close>, with the answer \<open>b\<close> of its \<^verbatim>\<open>Timeout()\<close>; \<open>OtherError n\<close> is any
  further error of a dialer, a hook or a connection.
\<close>

datatype error =
    ErrPoolClosed
  | ErrConnectionClosed
  | ErrGetConnectionTimeout
  | ErrMaxConnectionsReached
  | ErrInvalidConnection
  | ErrConnectionUnhealthy
  | ErrInvalidConfig
  | ErrConnectionLeaked
  | ErrPoolExhausted
  | ErrUnsupportedIPVersion
  | ErrNoConnectionForIPVersion
  | ErrUnsupportedProtocol
  | ErrNoConnectionForProtocol
  | ContextCanceled
  | ContextDeadlineExceeded
  | IoEOF
  | NetError bool nat
  | OtherError nat

type_synonym 'a result = "(error, 'a) go_result"

text \<open>The texts given to \<^verbatim>\<open>errors.New\<close>; \<open>None\<close> for errors the package does not define.\<close>

fun error_text :: "error \<Rightarrow> string option" where
  "error_text ErrPoolClosed = Some ''pool is closed''"
| "error_text ErrConnectionClosed = Some ''connection is closed''"
| "error_text ErrGetConnectionTimeout = Some ''get connection timeout''"
| "error_text ErrMaxConnectionsReached = Some ''max connections limit reached''"
| "error_text ErrInvalidConnection = Some ''invalid connection''"
| "error_text ErrConnectionUnhealthy = Some ''connection unhealthy''"
| "error_text ErrInvalidConfig = Some ''invalid config parameters''"
| "error_text ErrConnectionLeaked =
     Some ''connection leak detected: connection not returned within timeout''"
| "error_text ErrPoolExhausted = Some ''pool exhausted, cannot create new connection''"
| "error_text ErrUnsupportedIPVersion = Some ''unsupported IP version''"
| "error_text ErrNoConnectionForIPVersion =
     Some ''no available connection for specified IP version''"
| "error_text ErrUnsupportedProtocol = Some ''unsupported protocol type''"
| "error_text ErrNoConnectionForProtocol =
     Some ''no available connection for specified protocol''"
| "error_text _ = None"

text \<open>
  The test \<^verbatim>\<open>netErr, ok := err.(net.Error); ok && netErr.Timeout()\<close>.
  \<^verbatim>\<open>context.DeadlineExceeded\<close> implements \<^verbatim>\<open>net.Error\<close> and reports a timeout.
\<close>

fun is_net_timeout :: "error \<Rightarrow> bool" where
  "is_net_timeout (NetError b _) = b"
| "is_net_timeout ContextDeadlineExceeded = True"
| "is_net_timeout _ = False"

lemma error_text_inject:
  "error_text e = Some s \<Longrightarrow> error_text f = Some s \<Longrightarrow> e = f"
  by (cases e; cases f) auto

end
