(* ===== verification/Go_Time.thy ===== *)
theory Go_Time
  imports Pool_Errors
begin

text \<open>
  Durations, instants and contexts of the Go standard library, as far as the pool uses them. A
  \<^verbatim>\<open>time.Duration\<close> and an instant are numbers of nanoseconds (\<^typ>\<open>int\<close>); the difference
  of two instants saturates at the \<^verbatim>\<open>int64\<close> range as \<^verbatim>\<open>Time.Sub\<close> does, and the
  product of a duration with a count wraps as the \<^verbatim>\<open>int64\<close> product does.

  A context is the instant its owner cancels it at, if ever, and its deadline, if any; it is
  done from the earlier of the two on.
\<close>

type_synonym duration = int
type_synonym instant = int

definition Millisecond :: duration where "Millisecond = 1000000"
definition Second :: duration where "Second = 1000 * Millisecond"
definition Minute :: duration where "Minute = 60 * Second"

lemmas duration_defs = Millisecond_def Second_def Minute_def

definition time_sub :: "instant \<Rightarrow> instant \<Rightarrow> duration" where
  "time_sub t u = max min_int64 (min max_int64 (t - u))"

definition dur_times :: "duration \<Rightarrow> int \<Rightarrow> duration" where
  "dur_times d n = wrap64 (d * n)"

lemma time_sub_self [simp]: "time_sub t t = 0"
  by (simp add: time_sub_def min_int64_def max_int64_def)

lemma time_sub_mono: "t \<le> t' \<Longrightarrow> time_sub t u \<le> time_sub t' u"
  by (auto simp: time_sub_def)

lemma time_sub_nonneg: "u \<le> t \<Longrightarrow> 0 \<le> time_sub t u"
  by (auto simp: time_sub_def max_int64_def min_int64_def)

lemma time_sub_gt_iff:
  "0 \<le> d \<Longrightarrow> d < max_int64 \<Longrightarrow> d < time_sub t u \<longleftrightarrow> u + d < t"
  by (auto simp: time_sub_def max_int64_def min_int64_def)

record ctx =
  cancel_at :: "instant option"
  deadline :: "instant option"

definition Background :: ctx where
  "Background = \<lparr>cancel_at = None, deadline = None\<rparr>"

fun opt_min :: "instant option \<Rightarrow> instant option \<Rightarrow> instant option" where
  "opt_min None b = b"
| "opt_min a None = a"
| "opt_min (Some a) (Some b) = Some (min a b)"

definition WithTimeout :: "ctx \<Rightarrow> instant \<Rightarrow> duration \<Rightarrow> ctx" where
  "WithTimeout c now d = c\<lparr>deadline := opt_min (deadline c) (Some (now + d))\<rparr>"

definition done_at :: "ctx \<Rightarrow> instant option" where
  "done_at c = opt_min (cancel_at c) (deadline c)"

definition ctx_done :: "ctx \<Rightarrow> instant \<Rightarrow> bool" where
  "ctx_done c now = (case done_at c of None \<Rightarrow> False | Some t \<Rightarrow> t \<le> now)"

text \<open>\<^verbatim>\<open>ctx.Err()\<close> of a context that is done: what happened first.\<close>

definition ctx_err :: "ctx \<Rightarrow> error" where
  "ctx_err c =
     (case cancel_at c of
        None \<Rightarrow> ContextDeadlineExceeded
      | Some t \<Rightarrow> (case deadline c of
            None \<Rightarrow> ContextCanceled
          | Some u \<Rightarrow> if t \<le> u then ContextCanceled else ContextDeadlineExceeded))"

lemma ctx_done_mono: "ctx_done c t \<Longrightarrow> t \<le> t' \<Longrightarrow> ctx_done c t'"
  by (auto simp: ctx_done_def split: option.splits)

lemma ctx_done_iff:
  "ctx_done c t \<longleftrightarrow>
     (\<exists>u. cancel_at c = Some u \<and> u \<le> t) \<or> (\<exists>u. deadline c = Some u \<and> u \<le> t)"
  by (cases "cancel_at c"; cases "deadline c") (auto simp: ctx_done_def done_at_def)

lemma WithTimeout_done_iff:
  "ctx_done (WithTimeout c now d) t \<longleftrightarrow> ctx_done c t \<or> now + d \<le> t"
  by (cases "deadline c") (auto simp: ctx_done_iff WithTimeout_def)

lemma Background_never_done [simp]: "\<not> ctx_done Background t"
  by (simp add: ctx_done_iff Background_def)

end
