(* ===== verification/Net_Model.thy ===== *)
theory Net_Model
  imports Go_Time "HOL-Library.Char_ord"
begin

text \<open>
  The part of package \<^verbatim>\<open>net\<close> the pool inspects. An address is a TCP address or a UDP address
  with its IP bytes (\<open>None\<close> for a nil IP), or any other \<^verbatim>\<open>net.Addr\<close> with the answers of its
  methods. A connection is a record of what its methods answer: it is code outside the
  repository, so every answer is a parameter of the model.
\<close>

type_synonym byte = "8 word"
type_synonym ip = "byte list"

datatype net_addr =
    TCPAddr "ip option"
  | UDPAddr "ip option"
  | OtherAddr string string  \<comment> \<open>\<^verbatim>\<open>Network()\<close> and \<^verbatim>\<open>String()\<close>\<close>

text \<open>The outcome of one \<^verbatim>\<open>Read\<close>, with the nanoseconds it took.\<close>

datatype read_outcome = ReadData nat nat | ReadErr error nat

record net_conn =
  nc_id :: nat
  RemoteAddr :: "net_addr option"
  LocalAddr :: "net_addr option"
  is_UDPConn :: bool              \<comment> \<open>the dynamic type is \<^verbatim>\<open>*net.UDPConn\<close>\<close>
  close_answer :: "error option"  \<comment> \<open>what \<^verbatim>\<open>Close()\<close> returns\<close>
  read_answer :: "nat \<Rightarrow> duration \<Rightarrow> read_outcome"
    \<comment> \<open>the \<open>n\<close>th \<^verbatim>\<open>Read\<close> of the program, with the time left to the read deadline\<close>

text \<open>What a dialer, an acceptor or \<^verbatim>\<open>Accept\<close> returns, with the nanoseconds the call took.\<close>

record dial_outcome =
  dial_conn :: "net_conn option"
  dial_err :: "error option"
  dial_time :: nat

subsection \<open>\<^verbatim>\<open>IP.To4\<close>\<close>

definition To4 :: "ip \<Rightarrow> ip option" where
  "To4 a =
     (if length a = 4 then Some a
      else if length a = 16 \<and> take 10 a = replicate 10 0 \<and> a ! 10 = 255 \<and> a ! 11 = 255
        then Some (drop 12 a)
      else None)"

lemma To4_length: "To4 a = Some b \<Longrightarrow> length b = 4"
  by (auto simp: To4_def split: if_splits)

subsection \<open>Strings\<close>

definition char_code :: "char \<Rightarrow> nat" where "char_code c = of_char c"

text \<open>\<^verbatim>\<open>strings.ToLower\<close> and \<^verbatim>\<open>strings.ToUpper\<close> on ASCII bytes.\<close>

definition to_lower :: "char \<Rightarrow> char" where
  "to_lower c = (if 65 \<le> char_code c \<and> char_code c \<le> 90 then char_of (char_code c + 32) else c)"

definition to_upper :: "char \<Rightarrow> char" where
  "to_upper c = (if 97 \<le> char_code c \<and> char_code c \<le> 122 then char_of (char_code c - 32) else c)"

abbreviation ToLower :: "string \<Rightarrow> string" where "ToLower \<equiv> map to_lower"
abbreviation ToUpper :: "string \<Rightarrow> string" where "ToUpper \<equiv> map to_upper"

fun starts_with :: "string \<Rightarrow> string \<Rightarrow> bool" where
  "starts_with [] _ = True"
| "starts_with (_ # _) [] = False"
| "starts_with (p # ps) (c # cs) = (p = c \<and> starts_with ps cs)"

text \<open>\<^verbatim>\<open>strings.Contains(s, sub)\<close>.\<close>

fun str_contains :: "string \<Rightarrow> string \<Rightarrow> bool" where
  "str_contains [] sub = (sub = [])"
| "str_contains (c # cs) sub = (starts_with sub (c # cs) \<or> str_contains cs sub)"

lemma starts_with_iff: "starts_with p s \<longleftrightarrow> (\<exists>t. s = p @ t)"
  by (induction p s rule: starts_with.induct) auto

lemma str_contains_iff: "str_contains s sub \<longleftrightarrow> (\<exists>a b. s = a @ sub @ b)"
proof (induction s sub rule: str_contains.induct)
  case (1 sub)
  then show ?case by auto
next
  case (2 c cs sub)
  show ?case
  proof
    assume "str_contains (c # cs) sub"
    then consider b where "c # cs = sub @ b" | a b where "cs = a @ sub @ b"
      using "2.IH" by (auto simp: starts_with_iff)
    then show "\<exists>a b. c # cs = a @ sub @ b"
      by cases (metis append_Nil, metis append_Cons)
  next
    assume "\<exists>a b. c # cs = a @ sub @ b"
    then obtain a b where ab: "c # cs = a @ sub @ b" by blast
    show "str_contains (c # cs) sub"
    proof (cases a)
      case Nil
      with ab have "starts_with sub (c # cs)" by (simp add: starts_with_iff)
      then show ?thesis by simp
    next
      case (Cons x xs)
      with ab "2.IH" show ?thesis by auto
    qed
  qed
qed

end
