(* ===== verification/Net_Parse.thy ===== *)
theory Net_Parse
  imports Net_Model
begin

text \<open>
  The two parsers of package \<^verbatim>\<open>net\<close> that \<^verbatim>\<open>DetectIPVersion\<close> calls on an address of unknown type:
  \<^verbatim>\<open>SplitHostPort\<close> (only its host and whether it failed) and \<^verbatim>\<open>ParseIP\<close>, in their documented
  syntax: dotted decimal without leading zeros; eight groups of one to four hexadecimal digits,
  with at most one \<^verbatim>\<open>::\<close> that stands for one or more zero groups, and optionally a trailing
  dotted decimal part; no zone. An IPv4 address is returned in its 16-byte form.
\<close>

subsection \<open>\<^verbatim>\<open>SplitHostPort\<close>\<close>

fun index_of :: "char \<Rightarrow> string \<Rightarrow> nat option" where
  "index_of c [] = None"
| "index_of c (x # xs) = (if x = c then Some 0 else map_option Suc (index_of c xs))"

fun last_index_of :: "char \<Rightarrow> string \<Rightarrow> nat option" where
  "last_index_of c [] = None"
| "last_index_of c (x # xs) =
     (case last_index_of c xs of
        Some i \<Rightarrow> Some (Suc i)
      | None \<Rightarrow> if x = c then Some 0 else None)"

definition SplitHost :: "string \<Rightarrow> string option" where
  "SplitHost s =
     (case last_index_of CHR '':'' s of
        None \<Rightarrow> None
      | Some i \<Rightarrow>
          if s ! 0 = CHR ''['' then
            (case index_of CHR '']'' s of
               None \<Rightarrow> None
             | Some e \<Rightarrow>
                 if Suc e \<noteq> i then None
                 else if CHR ''['' \<in> set (drop 1 s) then None
                 else if CHR '']'' \<in> set (drop (Suc e) s) then None
                 else Some (take (e - 1) (drop 1 s)))
          else
            (let host = take i s in
             if CHR '':'' \<in> set host then None
             else if CHR ''['' \<in> set s then None
             else if CHR '']'' \<in> set s then None
             else Some host))"

subsection \<open>\<^verbatim>\<open>ParseIP\<close>\<close>

fun split_on :: "char \<Rightarrow> string \<Rightarrow> string list" where
  "split_on c [] = [[]]"
| "split_on c (x # xs) =
     (if x = c then [] # split_on c xs
      else (case split_on c xs of w # ws \<Rightarrow> (x # w) # ws | [] \<Rightarrow> [[x]]))"

definition dec_digit :: "char \<Rightarrow> nat option" where
  "dec_digit c = (if 48 \<le> char_code c \<and> char_code c \<le> 57 then Some (char_code c - 48) else None)"

definition hex_digit :: "char \<Rightarrow> nat option" where
  "hex_digit c =
     (if 48 \<le> char_code c \<and> char_code c \<le> 57 then Some (char_code c - 48)
      else if 97 \<le> char_code c \<and> char_code c \<le> 102 then Some (char_code c - 87)
      else if 65 \<le> char_code c \<and> char_code c \<le> 70 then Some (char_code c - 55)
      else None)"

fun digits_val :: "(char \<Rightarrow> nat option) \<Rightarrow> nat \<Rightarrow> nat \<Rightarrow> string \<Rightarrow> nat option" where
  "digits_val dg base acc [] = Some acc"
| "digits_val dg base acc (c # cs) =
     (case dg c of None \<Rightarrow> None | Some d \<Rightarrow> digits_val dg base (acc * base + d) cs)"

definition parse_octet :: "string \<Rightarrow> byte option" where
  "parse_octet s =
     (if s = [] \<or> length s > 3 \<or> (length s > 1 \<and> s ! 0 = CHR ''0'') then None
      else case digits_val dec_digit 10 0 s of
             None \<Rightarrow> None
           | Some v \<Rightarrow> if v \<le> 255 then Some (of_nat v) else None)"

fun all_Some :: "'a option list \<Rightarrow> 'a list option" where
  "all_Some [] = Some []"
| "all_Some (None # _) = None"
| "all_Some (Some x # xs) = map_option ((#) x) (all_Some xs)"

definition parse_v4 :: "string \<Rightarrow> byte list option" where
  "parse_v4 s =
     (let fs = split_on CHR ''.'' s in
      if length fs = 4 then all_Some (map parse_octet fs) else None)"

definition parse_group :: "string \<Rightarrow> byte list option" where
  "parse_group s =
     (if s = [] \<or> length s > 4 then None
      else case digits_val hex_digit 16 0 s of
             None \<Rightarrow> None
           | Some v \<Rightarrow> Some [of_nat (v div 256), of_nat (v mod 256)])"

text \<open>
  A run of groups separated by single colons, as bytes; the last piece of a run that ends the
  address may be dotted decimal.
\<close>

definition parse_run :: "bool \<Rightarrow> string \<Rightarrow> byte list option" where
  "parse_run at_end s =
     (if s = [] then Some []
      else
        (let ws = split_on CHR '':'' s;
             v4 = at_end \<and> CHR ''.'' \<in> set (last ws);
             front = (if v4 then butlast ws else ws);
             tail = (if v4 then [parse_v4 (last ws)] else [])
         in map_option concat (all_Some (map parse_group front @ tail))))"

fun split_ellipsis :: "string \<Rightarrow> (string \<times> string) option" where
  "split_ellipsis (a # b # cs) =
     (if a = CHR '':'' \<and> b = CHR '':'' then Some ([], cs)
      else map_option (\<lambda>(u, v). (a # u, v)) (split_ellipsis (b # cs)))"
| "split_ellipsis _ = None"

definition parse_v6 :: "string \<Rightarrow> byte list option" where
  "parse_v6 s =
     (case split_ellipsis s of
        None \<Rightarrow> (case parse_run True s of
            Some bs \<Rightarrow> if length bs = 16 then Some bs else None
          | None \<Rightarrow> None)
      | Some (u, v) \<Rightarrow>
          (case (parse_run False u, parse_run True v) of
             (Some bs, Some cs) \<Rightarrow>
               if length bs + length cs < 16
               then Some (bs @ replicate (16 - length bs - length cs) 0 @ cs) else None
           | _ \<Rightarrow> None))"

definition v4_in_6 :: "byte list \<Rightarrow> ip" where
  "v4_in_6 b = replicate 10 0 @ [255, 255] @ b"

fun first_mark :: "string \<Rightarrow> char option" where
  "first_mark [] = None"
| "first_mark (c # cs) = (if c \<in> {CHR ''.'', CHR '':'', CHR ''%''} then Some c else first_mark cs)"

definition ParseIP :: "string \<Rightarrow> ip option" where
  "ParseIP s =
     (if first_mark s = Some CHR ''.'' then map_option v4_in_6 (parse_v4 s)
      else if first_mark s = Some CHR '':'' then parse_v6 s
      else None)"

subsection \<open>What the callers rely on\<close>

lemma all_Some_length: "all_Some xs = Some ys \<Longrightarrow> length ys = length xs"
  by (induction xs arbitrary: ys rule: all_Some.induct) auto

lemma parse_v4_length: "parse_v4 s = Some b \<Longrightarrow> length b = 4"
  by (auto simp: parse_v4_def Let_def dest: all_Some_length split: if_splits)

lemma parse_v6_length: "parse_v6 s = Some b \<Longrightarrow> length b = 16"
  by (auto simp: parse_v6_def split: option.splits prod.splits if_splits)

lemma ParseIP_length: "ParseIP s = Some a \<Longrightarrow> length a = 16"
  by (auto simp: ParseIP_def v4_in_6_def dest: parse_v4_length parse_v6_length split: if_splits)

lemma To4_v4_in_6: "length b = 4 \<Longrightarrow> To4 (v4_in_6 b) = Some b"
  by (simp add: To4_def v4_in_6_def nth_append numeral_eq_Suc)

end
