(* ===== verification/Enums.thy ===== *)
theory Enums
  imports Net_Parse
begin

text \<open>
  \<^verbatim>\<open>protocol.go\<close>, \<^verbatim>\<open>ipversion.go\<close> and \<^verbatim>\<open>mode.go\<close>: three integer types with named
  constants, their \<^verbatim>\<open>String\<close> and \<^verbatim>\<open>Parse\<close> functions, and the detection of the protocol and
  of the IP version from the addresses of a connection. A Go value of such a type can be any
  integer, so each datatype has a constructor for the values without a name; those take the
  \<^verbatim>\<open>default\<close> branches. A nil \<^verbatim>\<open>net.Conn\<close> is \<^term>\<open>None\<close>.
\<close>

subsection \<open>\<^verbatim>\<open>Protocol\<close>\<close>

datatype protocol = ProtocolUnknown | ProtocolTCP | ProtocolUDP | ProtocolOther int

fun Protocol_String :: "protocol \<Rightarrow> string" where
  "Protocol_String ProtocolTCP = ''TCP''"
| "Protocol_String ProtocolUDP = ''UDP''"
| "Protocol_String _ = ''Unknown''"

definition ParseProtocol :: "string \<Rightarrow> protocol" where
  "ParseProtocol s =
     (if ToUpper s = ''TCP'' then ProtocolTCP
      else if ToUpper s = ''UDP'' then ProtocolUDP
      else ProtocolUnknown)"

definition IsTCP :: "protocol \<Rightarrow> bool" where "IsTCP p \<longleftrightarrow> p = ProtocolTCP"
definition IsUDP :: "protocol \<Rightarrow> bool" where "IsUDP p \<longleftrightarrow> p = ProtocolUDP"

fun detectProtocolFromAddr :: "net_addr \<Rightarrow> protocol" where
  "detectProtocolFromAddr (TCPAddr _) = ProtocolTCP"
| "detectProtocolFromAddr (UDPAddr _) = ProtocolUDP"
| "detectProtocolFromAddr (OtherAddr network addrStr) =
     (if ToLower network \<in> {''tcp'', ''tcp4'', ''tcp6''} then ProtocolTCP
      else if ToLower network \<in> {''udp'', ''udp4'', ''udp6''} then ProtocolUDP
      else if str_contains addrStr ''tcp'' then ProtocolTCP
      else if str_contains addrStr ''udp'' then ProtocolUDP
      else ProtocolUnknown)"

definition DetectProtocol :: "net_conn option \<Rightarrow> protocol" where
  "DetectProtocol conn =
     (case conn of
        None \<Rightarrow> ProtocolUnknown
      | Some nc \<Rightarrow>
          (case RemoteAddr nc of
             None \<Rightarrow> (case LocalAddr nc of
                 Some a \<Rightarrow> detectProtocolFromAddr a
               | None \<Rightarrow> ProtocolUnknown)
           | Some a \<Rightarrow> detectProtocolFromAddr a))"

subsection \<open>\<^verbatim>\<open>IPVersion\<close>\<close>

datatype ip_version = IPVersionUnknown | IPVersionIPv4 | IPVersionIPv6 | IPVersionOther int

fun IPVersion_String :: "ip_version \<Rightarrow> string" where
  "IPVersion_String IPVersionIPv4 = ''IPv4''"
| "IPVersion_String IPVersionIPv6 = ''IPv6''"
| "IPVersion_String _ = ''Unknown''"

definition ParseIPVersion :: "string \<Rightarrow> ip_version" where
  "ParseIPVersion s =
     (if s \<in> {''IPv4'', ''ipv4'', ''4''} then IPVersionIPv4
      else if s \<in> {''IPv6'', ''ipv6'', ''6''} then IPVersionIPv6
      else IPVersionUnknown)"

definition version_of_ip :: "ip \<Rightarrow> ip_version" where
  "version_of_ip a = (if To4 a \<noteq> None then IPVersionIPv4 else IPVersionIPv6)"

fun ip_version_of_addr :: "net_addr \<Rightarrow> ip_version" where
  "ip_version_of_addr (TCPAddr a) =
     (case a of Some a \<Rightarrow> version_of_ip a | None \<Rightarrow> IPVersionUnknown)"
| "ip_version_of_addr (UDPAddr a) =
     (case a of Some a \<Rightarrow> version_of_ip a | None \<Rightarrow> IPVersionUnknown)"
| "ip_version_of_addr (OtherAddr _ s) =
     (case SplitHost s of
        None \<Rightarrow> IPVersionUnknown
      | Some host \<Rightarrow>
          if host = [] then IPVersionUnknown
          else (case ParseIP host of Some a \<Rightarrow> version_of_ip a | None \<Rightarrow> IPVersionUnknown))"

definition DetectIPVersion :: "net_conn option \<Rightarrow> ip_version" where
  "DetectIPVersion conn =
     (case conn of
        None \<Rightarrow> IPVersionUnknown
      | Some nc \<Rightarrow>
          (case RemoteAddr nc of
             None \<Rightarrow> IPVersionUnknown
           | Some a \<Rightarrow> ip_version_of_addr a))"

subsection \<open>\<^verbatim>\<open>PoolMode\<close>\<close>

datatype pool_mode = PoolModeClient | PoolModeServer | PoolModeOther int

fun PoolMode_String :: "pool_mode \<Rightarrow> string" where
  "PoolMode_String PoolModeClient = ''client''"
| "PoolMode_String PoolModeServer = ''server''"
| "PoolMode_String (PoolModeOther _) = ''unknown''"

definition ParsePoolMode :: "string \<Rightarrow> pool_mode" where
  "ParsePoolMode s =
     (if s = ''client'' then PoolModeClient
      else if s = ''server'' then PoolModeServer
      else PoolModeClient)"

subsection \<open>Printing and parsing: one interface for the three types\<close>

text \<open>
  Each type has named values, a printer and a parser with a value for unreadable strings; a
  named value is read back from its own print.
\<close>

locale named_enum =
  fixes show_enum :: "'e \<Rightarrow> string"
    and parse_enum :: "string \<Rightarrow> 'e"
    and named :: "'e set"
    and unread :: 'e
  assumes parse_show: "e \<in> named \<Longrightarrow> parse_enum (show_enum e) = e"
    and parse_range: "parse_enum s \<in> insert unread named"
begin

lemma show_inj: "e \<in> named \<Longrightarrow> f \<in> named \<Longrightarrow> show_enum e = show_enum f \<Longrightarrow> e = f"
  using parse_show by metis

lemma parse_idem: "unread \<in> named \<or> parse_enum (show_enum unread) = unread \<Longrightarrow>
   parse_enum (show_enum (parse_enum s)) = parse_enum s"
  using parse_range [of s] parse_show by auto

lemma named_reachable: "e \<in> named \<Longrightarrow> \<exists>s. parse_enum s = e"
  using parse_show by blast

end

lemmas ascii_case_defs = to_upper_def to_lower_def char_code_def

interpretation pe: named_enum Protocol_String ParseProtocol "{ProtocolTCP, ProtocolUDP}"
    ProtocolUnknown
  by unfold_locales (auto simp: ParseProtocol_def ascii_case_defs)

interpretation ve: named_enum IPVersion_String ParseIPVersion "{IPVersionIPv4, IPVersionIPv6}"
    IPVersionUnknown
  by unfold_locales (auto simp: ParseIPVersion_def)

interpretation me: named_enum PoolMode_String ParsePoolMode "{PoolModeClient, PoolModeServer}"
    PoolModeClient
  by unfold_locales (auto simp: ParsePoolMode_def)

subsection \<open>Detection\<close>

lemma detect_nil [simp]:
  "DetectProtocol None = ProtocolUnknown" "DetectIPVersion None = IPVersionUnknown"
  by (simp_all add: DetectProtocol_def DetectIPVersion_def)

lemma detectProtocolFromAddr_range:
  "detectProtocolFromAddr a \<in> {ProtocolUnknown, ProtocolTCP, ProtocolUDP}"
  by (cases a) auto

lemma DetectProtocol_range: "DetectProtocol c \<in> {ProtocolUnknown, ProtocolTCP, ProtocolUDP}"
  using detectProtocolFromAddr_range by (auto simp: DetectProtocol_def split: option.splits)

lemma ip_version_of_addr_range:
  "ip_version_of_addr a \<in> {IPVersionUnknown, IPVersionIPv4, IPVersionIPv6}"
  by (cases a) (auto simp: version_of_ip_def split: option.splits)

lemma DetectIPVersion_range:
  "DetectIPVersion c \<in> {IPVersionUnknown, IPVersionIPv4, IPVersionIPv6}"
  using ip_version_of_addr_range by (auto simp: DetectIPVersion_def split: option.splits)

text \<open>
  C39. A protocol, IP version or mode is read back from its name; and reading any string, printing
  the result and reading that again gives the same value.
\<close>

theorem names_round_trip:
  "ParseProtocol (Protocol_String ProtocolTCP) = ProtocolTCP \<and>
   ParseProtocol (Protocol_String ProtocolUDP) = ProtocolUDP \<and>
   ParseIPVersion (IPVersion_String IPVersionIPv4) = IPVersionIPv4 \<and>
   ParseIPVersion (IPVersion_String IPVersionIPv6) = IPVersionIPv6 \<and>
   ParsePoolMode (PoolMode_String PoolModeClient) = PoolModeClient \<and>
   ParsePoolMode (PoolMode_String PoolModeServer) = PoolModeServer \<and>
   ParseProtocol (Protocol_String (ParseProtocol s)) = ParseProtocol s \<and>
   ParseIPVersion (IPVersion_String (ParseIPVersion s)) = ParseIPVersion s \<and>
   ParsePoolMode (PoolMode_String (ParsePoolMode s)) = ParsePoolMode s"
proof -
  have "ParseProtocol (Protocol_String ProtocolUnknown) = ProtocolUnknown"
    "ParseIPVersion (IPVersion_String IPVersionUnknown) = IPVersionUnknown"
    by (simp_all add: ParseProtocol_def ParseIPVersion_def ascii_case_defs)
  then show ?thesis
    using pe.parse_show [of ProtocolTCP] pe.parse_show [of ProtocolUDP] ve.parse_show [of IPVersionIPv4]
      ve.parse_show [of IPVersionIPv6] me.parse_show [of PoolModeClient] me.parse_show [of PoolModeServer]
    by (simp add: pe.parse_idem ve.parse_idem me.parse_idem)
qed

end
