(* ===== verification/Pool_Config.thy ===== *)
theory Pool_Config
  imports Enums
begin

text \<open>
  \<^verbatim>\<open>config.go\<close>: the configuration, its defaults, \<^verbatim>\<open>Validate\<close> (which also corrects
  fields in place), and \<^verbatim>\<open>defaultAcceptor\<close>. The function-valued fields are code of the
  application: a dialer, an acceptor and a listener answer the \<open>n\<close>th external call of the
  program; a hook is a function of the network connection (\<^term>\<open>None\<close> for nil).
\<close>

type_synonym dialer = "nat \<Rightarrow> dial_outcome"
type_synonym listener = "nat \<Rightarrow> dial_outcome"

text \<open>A health check reports after some nanoseconds, or panics.\<close>

datatype check_outcome = Reports bool nat | Panics nat

datatype acceptor = DefaultAcceptor | UserAcceptor "nat \<Rightarrow> dial_outcome"

record config =
  Mode :: pool_mode
  MaxConnections :: int
  MinConnections :: int
  MaxIdleConnections :: int
  ConnectionTimeout :: duration
  IdleTimeout :: duration
  MaxLifetime :: duration
  GetConnectionTimeout :: duration
  HealthCheckInterval :: duration
  HealthCheckTimeout :: duration
  ConnectionLeakTimeout :: duration
  LeakDetectionInterval :: duration
  Dialer :: "dialer option"
  Listener :: "listener option"
  Acceptor :: "acceptor option"
  HealthChecker :: "(net_conn option \<Rightarrow> check_outcome) option"
  CloseConn :: "(net_conn \<Rightarrow> error option) option"
  OnCreated :: "(net_conn option \<Rightarrow> error option) option"
  OnBorrow :: "(net_conn option \<Rightarrow> unit) option"
  OnReturn :: "(net_conn option \<Rightarrow> unit) option"
  EnableStats :: bool
  EnableHealthCheck :: bool
  ClearUDPBufferOnReturn :: bool
  UDPBufferClearTimeout :: duration
  MaxBufferClearPackets :: int

definition DefaultConfig :: config where
  "DefaultConfig = \<lparr>
     Mode = PoolModeClient,
     MaxConnections = 10,
     MinConnections = 2,
     MaxIdleConnections = 10,
     ConnectionTimeout = 10 * Second,
     IdleTimeout = 5 * Minute,
     MaxLifetime = 30 * Minute,
     GetConnectionTimeout = 5 * Second,
     HealthCheckInterval = 30 * Second,
     HealthCheckTimeout = 3 * Second,
     ConnectionLeakTimeout = 5 * Minute,
     LeakDetectionInterval = 0,
     Dialer = None, Listener = None, Acceptor = None, HealthChecker = None,
     CloseConn = None, OnCreated = None, OnBorrow = None, OnReturn = None,
     EnableStats = True,
     EnableHealthCheck = True,
     ClearUDPBufferOnReturn = True,
     UDPBufferClearTimeout = 100 * Millisecond,
     MaxBufferClearPackets = 100\<rparr>"

definition DefaultServerConfig :: config where
  "DefaultServerConfig = \<lparr>
     Mode = PoolModeServer,
     MaxConnections = 100,
     MinConnections = 0,
     MaxIdleConnections = 50,
     ConnectionTimeout = 10 * Second,
     IdleTimeout = 5 * Minute,
     MaxLifetime = 30 * Minute,
     GetConnectionTimeout = 5 * Second,
     HealthCheckInterval = 30 * Second,
     HealthCheckTimeout = 3 * Second,
     ConnectionLeakTimeout = 5 * Minute,
     LeakDetectionInterval = 0,
     Dialer = None, Listener = None, Acceptor = None, HealthChecker = None,
     CloseConn = None, OnCreated = None, OnBorrow = None, OnReturn = None,
     EnableStats = True,
     EnableHealthCheck = True,
     ClearUDPBufferOnReturn = True,
     UDPBufferClearTimeout = 100 * Millisecond,
     MaxBufferClearPackets = 100\<rparr>"

subsection \<open>\<^verbatim>\<open>Validate\<close>\<close>

text \<open>The switch on the mode, which fills in the acceptor of a server.\<close>

definition Validate_mode :: "config \<Rightarrow> unit result \<times> config" where
  "Validate_mode c =
     (case Mode c of
        PoolModeClient \<Rightarrow> if Dialer c = None then (Err ErrInvalidConfig, c) else (Ok (), c)
      | PoolModeServer \<Rightarrow>
          if Listener c = None then (Err ErrInvalidConfig, c)
          else if Acceptor c = None then (Ok (), c\<lparr>Acceptor := Some DefaultAcceptor\<rparr>)
          else (Ok (), c)
      | PoolModeOther _ \<Rightarrow> (Err ErrInvalidConfig, c))"

text \<open>The corrections after the last error return, in the order of the code.\<close>

definition fix_max_idle :: "config \<Rightarrow> config" where
  "fix_max_idle c =
     (if MaxIdleConnections c > 0 \<and> MaxConnections c > 0 \<and> MaxIdleConnections c > MaxConnections c
      then c\<lparr>MaxIdleConnections := MaxConnections c\<rparr> else c)"

definition fix_health_timeout :: "config \<Rightarrow> config" where
  "fix_health_timeout c =
     (if HealthCheckInterval c > 0 \<and> HealthCheckTimeout c > HealthCheckInterval c
      then c\<lparr>HealthCheckTimeout := HealthCheckInterval c sdiv 2\<rparr> else c)"

definition fix_clear_packets :: "config \<Rightarrow> config" where
  "fix_clear_packets c =
     (if MaxBufferClearPackets c \<le> 0 then c\<lparr>MaxBufferClearPackets := 100\<rparr> else c)"

definition fix_leak_interval :: "config \<Rightarrow> config" where
  "fix_leak_interval c =
     (if LeakDetectionInterval c \<le> 0 \<and> ConnectionLeakTimeout c > 0 then
        (let i0 = ConnectionLeakTimeout c sdiv 2;
             i1 = (if i0 < 1 * Second then 1 * Second else i0);
             i2 = (if i1 > 1 * Minute then 1 * Minute else i1)
         in c\<lparr>LeakDetectionInterval := i2\<rparr>)
      else c)"

definition Validate :: "config \<Rightarrow> unit result \<times> config" where
  "Validate c0 =
     (case Validate_mode c0 of
        (Ok _, c) \<Rightarrow>
          if MinConnections c < 0 then (Err ErrInvalidConfig, c)
          else if MaxConnections c > 0 \<and> MinConnections c > MaxConnections c
            then (Err ErrInvalidConfig, c)
          else if MaxIdleConnections c \<le> 0 then (Err ErrInvalidConfig, c)
          else if ConnectionTimeout c \<le> 0 then (Err ErrInvalidConfig, c)
          else (Ok (), fix_leak_interval (fix_clear_packets (fix_health_timeout (fix_max_idle c))))
      | r \<Rightarrow> r)"

lemmas Validate_defs =
  Validate_def Validate_mode_def fix_leak_interval_def fix_clear_packets_def
  fix_health_timeout_def fix_max_idle_def Let_def

text \<open>What a configuration must satisfy to be accepted, read off the error returns.\<close>

definition acceptable :: "config \<Rightarrow> bool" where
  "acceptable c \<longleftrightarrow>
     (case Mode c of
        PoolModeClient \<Rightarrow> Dialer c \<noteq> None
      | PoolModeServer \<Rightarrow> Listener c \<noteq> None
      | PoolModeOther _ \<Rightarrow> False) \<and>
     0 \<le> MinConnections c \<and>
     (MaxConnections c > 0 \<longrightarrow> MinConnections c \<le> MaxConnections c) \<and>
     0 < MaxIdleConnections c \<and> 0 < ConnectionTimeout c"

text \<open>What holds of an accepted configuration after the corrections.\<close>

definition corrected :: "config \<Rightarrow> bool" where
  "corrected c \<longleftrightarrow>
     acceptable c \<and>
     (Mode c = PoolModeServer \<longrightarrow> Acceptor c \<noteq> None) \<and>
     (MaxConnections c > 0 \<longrightarrow> MaxIdleConnections c \<le> MaxConnections c) \<and>
     (HealthCheckInterval c > 0 \<longrightarrow> HealthCheckTimeout c \<le> HealthCheckInterval c) \<and>
     0 < MaxBufferClearPackets c \<and>
     (ConnectionLeakTimeout c > 0 \<longrightarrow> 0 < LeakDetectionInterval c)"

lemma sdiv_two_nonneg: "0 \<le> (x::int) \<Longrightarrow> x sdiv 2 = x div 2"
  by (cases "x = 0") (auto simp: signed_divide_int_def)

lemma Validate_ok_iff: "is_Ok (fst (Validate c)) \<longleftrightarrow> acceptable c"
  by (auto simp: Validate_defs acceptable_def split: pool_mode.splits)

lemma Validate_cases: "fst (Validate c) = Ok () \<or> fst (Validate c) = Err ErrInvalidConfig"
  by (auto simp: Validate_defs split: pool_mode.splits)

lemma fix_max_idle_frame [simp]:
  "Mode (fix_max_idle c) = Mode c"
  "MaxConnections (fix_max_idle c) = MaxConnections c"
  "MinConnections (fix_max_idle c) = MinConnections c"
  "ConnectionTimeout (fix_max_idle c) = ConnectionTimeout c"
  "Dialer (fix_max_idle c) = Dialer c"
  "Listener (fix_max_idle c) = Listener c"
  "Acceptor (fix_max_idle c) = Acceptor c"
  "HealthCheckInterval (fix_max_idle c) = HealthCheckInterval c"
  "ConnectionLeakTimeout (fix_max_idle c) = ConnectionLeakTimeout c"
  "HealthCheckTimeout (fix_max_idle c) = HealthCheckTimeout c"
  "MaxBufferClearPackets (fix_max_idle c) = MaxBufferClearPackets c"
  "LeakDetectionInterval (fix_max_idle c) = LeakDetectionInterval c"
  by (simp_all add: fix_max_idle_def Let_def)

lemma fix_health_timeout_frame [simp]:
  "Mode (fix_health_timeout c) = Mode c"
  "MaxConnections (fix_health_timeout c) = MaxConnections c"
  "MinConnections (fix_health_timeout c) = MinConnections c"
  "ConnectionTimeout (fix_health_timeout c) = ConnectionTimeout c"
  "Dialer (fix_health_timeout c) = Dialer c"
  "Listener (fix_health_timeout c) = Listener c"
  "Acceptor (fix_health_timeout c) = Acceptor c"
  "HealthCheckInterval (fix_health_timeout c) = HealthCheckInterval c"
  "ConnectionLeakTimeout (fix_health_timeout c) = ConnectionLeakTimeout c"
  "MaxIdleConnections (fix_health_timeout c) = MaxIdleConnections c"
  "MaxBufferClearPackets (fix_health_timeout c) = MaxBufferClearPackets c"
  "LeakDetectionInterval (fix_health_timeout c) = LeakDetectionInterval c"
  by (simp_all add: fix_health_timeout_def Let_def)

lemma fix_clear_packets_frame [simp]:
  "Mode (fix_clear_packets c) = Mode c"
  "MaxConnections (fix_clear_packets c) = MaxConnections c"
  "MinConnections (fix_clear_packets c) = MinConnections c"
  "ConnectionTimeout (fix_clear_packets c) = ConnectionTimeout c"
  "Dialer (fix_clear_packets c) = Dialer c"
  "Listener (fix_clear_packets c) = Listener c"
  "Acceptor (fix_clear_packets c) = Acceptor c"
  "HealthCheckInterval (fix_clear_packets c) = HealthCheckInterval c"
  "ConnectionLeakTimeout (fix_clear_packets c) = ConnectionLeakTimeout c"
  "MaxIdleConnections (fix_clear_packets c) = MaxIdleConnections c"
  "HealthCheckTimeout (fix_clear_packets c) = HealthCheckTimeout c"
  "LeakDetectionInterval (fix_clear_packets c) = LeakDetectionInterval c"
  by (simp_all add: fix_clear_packets_def Let_def)

lemma fix_leak_interval_frame [simp]:
  "Mode (fix_leak_interval c) = Mode c"
  "MaxConnections (fix_leak_interval c) = MaxConnections c"
  "MinConnections (fix_leak_interval c) = MinConnections c"
  "ConnectionTimeout (fix_leak_interval c) = ConnectionTimeout c"
  "Dialer (fix_leak_interval c) = Dialer c"
  "Listener (fix_leak_interval c) = Listener c"
  "Acceptor (fix_leak_interval c) = Acceptor c"
  "HealthCheckInterval (fix_leak_interval c) = HealthCheckInterval c"
  "ConnectionLeakTimeout (fix_leak_interval c) = ConnectionLeakTimeout c"
  "MaxIdleConnections (fix_leak_interval c) = MaxIdleConnections c"
  "HealthCheckTimeout (fix_leak_interval c) = HealthCheckTimeout c"
  "MaxBufferClearPackets (fix_leak_interval c) = MaxBufferClearPackets c"
  by (simp_all add: fix_leak_interval_def Let_def)

lemma fix_max_idle_ok:
  "0 < MaxIdleConnections c \<Longrightarrow> 0 < MaxIdleConnections (fix_max_idle c)"
  "0 < MaxIdleConnections c \<Longrightarrow> 0 < MaxConnections c \<Longrightarrow>
     MaxIdleConnections (fix_max_idle c) \<le> MaxConnections c"
  by (auto simp: fix_max_idle_def)

lemma fix_health_timeout_ok:
  "0 < HealthCheckInterval c \<Longrightarrow>
     HealthCheckTimeout (fix_health_timeout c) \<le> HealthCheckInterval c"
  by (auto simp: fix_health_timeout_def sdiv_two_nonneg)

lemma fix_clear_packets_ok: "0 < MaxBufferClearPackets (fix_clear_packets c)"
  by (auto simp: fix_clear_packets_def)

lemma fix_leak_interval_ok:
  "0 < ConnectionLeakTimeout c \<Longrightarrow> 0 < LeakDetectionInterval (fix_leak_interval c)"
  by (auto simp: fix_leak_interval_def Let_def duration_defs)

lemma Validate_mode_Ok:
  "Validate_mode c = (Ok u, c1) \<Longrightarrow>
     (\<exists>a. c1 = c\<lparr>Acceptor := a\<rparr>) \<and> (Mode c = PoolModeClient \<longrightarrow> Dialer c \<noteq> None) \<and>
     (Mode c = PoolModeServer \<longrightarrow> Listener c \<noteq> None \<and> Acceptor c1 \<noteq> None) \<and>
     (\<forall>n. Mode c \<noteq> PoolModeOther n)"
  by (auto simp: Validate_mode_def split: pool_mode.splits if_splits
      intro: exI [where x = "Acceptor c"])

lemma Validate_Ok:
  assumes "Validate c = (Ok u, c')"
  obtains c1 where "Validate_mode c = (Ok (), c1)" "acceptable c1"
    "c' = fix_leak_interval (fix_clear_packets (fix_health_timeout (fix_max_idle c1)))"
proof -
  obtain r c1 where m: "Validate_mode c = (r, c1)" by (cases "Validate_mode c")
  with assms have r: "r = Ok ()"
    by (auto simp: Validate_def split: go_result.splits)
  with m assms have n: "0 \<le> MinConnections c1" "0 < MaxIdleConnections c1"
      "0 < ConnectionTimeout c1" "MaxConnections c1 > 0 \<longrightarrow> MinConnections c1 \<le> MaxConnections c1"
    and c': "c' = fix_leak_interval (fix_clear_packets (fix_health_timeout (fix_max_idle c1)))"
    by (auto simp: Validate_def split: if_splits)
  from m r have "acceptable c1"
    using Validate_mode_Ok [of c "()" c1] n by (auto simp: acceptable_def split: pool_mode.splits)
  with m r c' show thesis using that by simp
qed

lemma Validate_corrected: "Validate c = (Ok u, c') \<Longrightarrow> corrected c'"
proof (elim Validate_Ok)
  fix c1
  assume m: "Validate_mode c = (Ok (), c1)" and a: "acceptable c1"
    and c': "c' = fix_leak_interval (fix_clear_packets (fix_health_timeout (fix_max_idle c1)))"
  have "Mode c1 = PoolModeServer \<longrightarrow> Acceptor c1 \<noteq> None"
    using Validate_mode_Ok [OF m] by auto
  with a show "corrected c'"
    using fix_health_timeout_ok [of "fix_max_idle c1"]
    by (cases "Mode c1") (simp_all add: c' corrected_def acceptable_def fix_max_idle_ok
        fix_clear_packets_ok fix_leak_interval_ok)
qed

lemma corrected_fix:
  assumes "corrected c"
  shows "Validate c = (Ok (), c)"
proof -
  from assms have m: "Validate_mode c = (Ok (), c)"
    by (cases "Mode c") (auto simp: corrected_def acceptable_def Validate_mode_def)
  have "fix_max_idle c = c"
    unfolding fix_max_idle_def by (rule if_not_P) (use assms in \<open>auto simp: corrected_def\<close>)
  moreover have "fix_health_timeout c = c"
    unfolding fix_health_timeout_def by (rule if_not_P) (use assms in \<open>auto simp: corrected_def\<close>)
  moreover have "fix_clear_packets c = c"
    unfolding fix_clear_packets_def by (rule if_not_P) (use assms in \<open>auto simp: corrected_def\<close>)
  moreover have "fix_leak_interval c = c"
    unfolding fix_leak_interval_def by (rule if_not_P) (use assms in \<open>auto simp: corrected_def\<close>)
  moreover from assms have "0 \<le> MinConnections c" "0 < MaxIdleConnections c"
      "0 < ConnectionTimeout c" "MaxConnections c \<le> 0 \<or> MinConnections c \<le> MaxConnections c"
    by (auto simp: corrected_def acceptable_def)
  ultimately show ?thesis by (simp add: Validate_def m not_less)
qed

subsection \<open>\<^verbatim>\<open>defaultAcceptor\<close>\<close>

text \<open>
  \<^verbatim>\<open>Accept\<close> runs in a goroutine; the caller waits for its result or for the context. What
  becomes of a connection that was accepted: handed to the caller, closed by the goroutine, or
  left in the buffer of \<^verbatim>\<open>resultChan\<close>, which nobody reads any more.
\<close>

datatype accepted_fate = NothingAccepted | Delivered | ClosedByGoroutine | Stranded

record accept_return =
  ret_conn :: "net_conn option"
  ret_err :: "error option"
  ret_at :: instant
  ret_fate :: accepted_fate

text \<open>
  \<open>sends\<close> and \<open>takes\<close> are the choices of the two \<^verbatim>\<open>select\<close> statements when both of their
  cases are ready: the goroutine sends rather than sees the context done, and the caller takes
  the result rather than sees the context done. The caller then waits for the goroutine for at
  most 100 ms.
\<close>

definition fate_of :: "net_conn option \<Rightarrow> bool \<Rightarrow> accepted_fate" where
  "fate_of conn sends =
     (if conn = None then NothingAccepted else if sends then Stranded else ClosedByGoroutine)"

definition defaultAcceptor ::
    "ctx \<Rightarrow> instant \<Rightarrow> dial_outcome \<Rightarrow> bool \<Rightarrow> bool \<Rightarrow> accept_return" where
  "defaultAcceptor c now acc sends takes =
     (let a = now + int (dial_time acc);
          delivered = \<lparr>ret_conn = dial_conn acc, ret_err = dial_err acc, ret_at = a,
                       ret_fate = (if dial_conn acc = None then NothingAccepted else Delivered)\<rparr>
      in case done_at c of
           None \<Rightarrow> delivered
         | Some t \<Rightarrow>
             (let d = max now t in
              if a < d then delivered
              else if a = d \<and> sends \<and> takes then delivered
              else \<lparr>ret_conn = None, ret_err = Some (ctx_err c),
                     ret_at = min a (d + 100 * Millisecond),
                     ret_fate = fate_of (dial_conn acc) sends\<rparr>))"

lemma defaultAcceptor_in_time:
  "\<not> ctx_done c (now + int (dial_time acc)) \<Longrightarrow>
   defaultAcceptor c now acc s k =
     \<lparr>ret_conn = dial_conn acc, ret_err = dial_err acc, ret_at = now + int (dial_time acc),
      ret_fate = (if dial_conn acc = None then NothingAccepted else Delivered)\<rparr>"
  by (auto simp: defaultAcceptor_def ctx_done_def Let_def split: option.splits)

lemma defaultAcceptor_late:
  "ctx_done c now \<Longrightarrow> 0 < dial_time acc \<Longrightarrow>
   defaultAcceptor c now acc s k =
     \<lparr>ret_conn = None, ret_err = Some (ctx_err c),
      ret_at = min (now + int (dial_time acc)) (now + 100 * Millisecond),
      ret_fate = fate_of (dial_conn acc) s\<rparr>"
  by (auto simp: defaultAcceptor_def ctx_done_def Let_def split: option.splits)

text \<open>
  C15. \<^verbatim>\<open>Validate\<close> answers \<^verbatim>\<open>ErrInvalidConfig\<close> exactly on what is not acceptable (a missing
  dialer or listener, an unknown mode, negative or contradictory limits, a timeout that is not
  positive); what it accepts it corrects, and validating the corrected configuration again
  changes nothing.
\<close>

theorem validate_decides:
  "if acceptable c then fst (Validate c) = Ok () \<and> corrected (snd (Validate c)) \<and>
      Validate (snd (Validate c)) = (Ok (), snd (Validate c))
   else fst (Validate c) = Err ErrInvalidConfig"
proof -
  have "acceptable c = is_Ok (fst (Validate c))" by (simp add: Validate_ok_iff)
  moreover have "fst (Validate c) = Ok () \<Longrightarrow> corrected (snd (Validate c))"
    by (rule Validate_corrected) (simp add: prod_eq_iff)
  ultimately show ?thesis using Validate_cases [of c] corrected_fix by auto
qed

end
