(* ===== verification/Pool_Stats.thy ===== *)
theory Pool_Stats
  imports Pool_Config Complex_Main
begin

text \<open>
  \<^verbatim>\<open>stats.go\<close>: the statistics record and its collector. Every counter is an \<^verbatim>\<open>int64\<close> that
  \<^verbatim>\<open>atomic.AddInt64\<close> wraps around; each operation also refreshes \<^verbatim>\<open>LastUpdateTime\<close> when
  100 ms have passed. The operations take the reading of the clock as their first argument. The
  average reuse count is a \<^verbatim>\<open>float64\<close>, given as the rational number it denotes.
\<close>

record stats =
  TotalConnectionsCreated :: int64
  TotalConnectionsClosed :: int64
  CurrentConnections :: int64
  CurrentIdleConnections :: int64
  CurrentActiveConnections :: int64
  CurrentIPv4Connections :: int64
  CurrentIPv6Connections :: int64
  CurrentIPv4IdleConnections :: int64
  CurrentIPv6IdleConnections :: int64
  CurrentTCPConnections :: int64
  CurrentUDPConnections :: int64
  CurrentTCPIdleConnections :: int64
  CurrentUDPIdleConnections :: int64
  TotalGetRequests :: int64
  SuccessfulGets :: int64
  FailedGets :: int64
  TimeoutGets :: int64
  HealthCheckAttempts :: int64
  HealthCheckFailures :: int64
  UnhealthyConnections :: int64
  ConnectionErrors :: int64
  LeakedConnections :: int64
  TotalConnectionsReused :: int64
  AverageReuseCount :: rat
  AverageGetTime :: int64
  TotalGetTime :: int64
  LastUpdateTime :: instant

text \<open>Go's \<^verbatim>\<open>Stats{}\<close>; \<^verbatim>\<open>time.Time{}\<close> is before every reading of the clock.\<close>

definition zero_time :: instant where "zero_time = - 62135596800 * Second"

definition zero_stats :: stats where
  "zero_stats = \<lparr>
     TotalConnectionsCreated = 0,
     TotalConnectionsClosed = 0,
     CurrentConnections = 0,
     CurrentIdleConnections = 0,
     CurrentActiveConnections = 0,
     CurrentIPv4Connections = 0,
     CurrentIPv6Connections = 0,
     CurrentIPv4IdleConnections = 0,
     CurrentIPv6IdleConnections = 0,
     CurrentTCPConnections = 0,
     CurrentUDPConnections = 0,
     CurrentTCPIdleConnections = 0,
     CurrentUDPIdleConnections = 0,
     TotalGetRequests = 0,
     SuccessfulGets = 0,
     FailedGets = 0,
     TimeoutGets = 0,
     HealthCheckAttempts = 0,
     HealthCheckFailures = 0,
     UnhealthyConnections = 0,
     ConnectionErrors = 0,
     LeakedConnections = 0,
     TotalConnectionsReused = 0,
     AverageReuseCount = 0, AverageGetTime = 0, TotalGetTime = 0, LastUpdateTime = zero_time\<rparr>"

definition NewStatsCollector :: "instant \<Rightarrow> stats" where
  "NewStatsCollector now = zero_stats\<lparr>LastUpdateTime := now\<rparr>"

definition updateTime :: "instant \<Rightarrow> stats \<Rightarrow> stats" where
  "updateTime now s =
     (if time_sub now (LastUpdateTime s) < 100 * Millisecond then s
      else s\<lparr>LastUpdateTime := now\<rparr>)"

subsection \<open>The counters\<close>

definition IncrementTotalConnectionsCreated :: "instant \<Rightarrow> stats \<Rightarrow> stats" where [stats_defs]:
  "IncrementTotalConnectionsCreated now s =
     updateTime now (s\<lparr>TotalConnectionsCreated := TotalConnectionsCreated s + 1,
       CurrentConnections := CurrentConnections s + 1\<rparr>)"

definition IncrementTotalConnectionsClosed :: "instant \<Rightarrow> stats \<Rightarrow> stats" where [stats_defs]:
  "IncrementTotalConnectionsClosed now s =
     updateTime now (s\<lparr>TotalConnectionsClosed := TotalConnectionsClosed s + 1,
       CurrentConnections := CurrentConnections s - 1\<rparr>)"

definition IncrementTotalGetRequests :: "instant \<Rightarrow> stats \<Rightarrow> stats" where [stats_defs]:
  "IncrementTotalGetRequests now s =
     updateTime now (s\<lparr>TotalGetRequests := TotalGetRequests s + 1\<rparr>)"

definition IncrementSuccessfulGets :: "instant \<Rightarrow> stats \<Rightarrow> stats" where [stats_defs]:
  "IncrementSuccessfulGets now s =
     updateTime now (s\<lparr>SuccessfulGets := SuccessfulGets s + 1\<rparr>)"

definition IncrementFailedGets :: "instant \<Rightarrow> stats \<Rightarrow> stats" where [stats_defs]:
  "IncrementFailedGets now s =
     updateTime now (s\<lparr>FailedGets := FailedGets s + 1\<rparr>)"

definition IncrementTimeoutGets :: "instant \<Rightarrow> stats \<Rightarrow> stats" where [stats_defs]:
  "IncrementTimeoutGets now s =
     updateTime now (s\<lparr>TimeoutGets := TimeoutGets s + 1\<rparr>)"

definition IncrementHealthCheckAttempts :: "instant \<Rightarrow> stats \<Rightarrow> stats" where [stats_defs]:
  "IncrementHealthCheckAttempts now s =
     updateTime now (s\<lparr>HealthCheckAttempts := HealthCheckAttempts s + 1\<rparr>)"

definition IncrementHealthCheckFailures :: "instant \<Rightarrow> stats \<Rightarrow> stats" where [stats_defs]:
  "IncrementHealthCheckFailures now s =
     updateTime now (s\<lparr>HealthCheckFailures := HealthCheckFailures s + 1\<rparr>)"

definition IncrementUnhealthyConnections :: "instant \<Rightarrow> stats \<Rightarrow> stats" where [stats_defs]:
  "IncrementUnhealthyConnections now s =
     updateTime now (s\<lparr>UnhealthyConnections := UnhealthyConnections s + 1\<rparr>)"

definition IncrementConnectionErrors :: "instant \<Rightarrow> stats \<Rightarrow> stats" where [stats_defs]:
  "IncrementConnectionErrors now s =
     updateTime now (s\<lparr>ConnectionErrors := ConnectionErrors s + 1\<rparr>)"

definition IncrementLeakedConnections :: "instant \<Rightarrow> stats \<Rightarrow> stats" where [stats_defs]:
  "IncrementLeakedConnections now s =
     updateTime now (s\<lparr>LeakedConnections := LeakedConnections s + 1\<rparr>)"

definition IncrementTotalConnectionsReused :: "instant \<Rightarrow> stats \<Rightarrow> stats" where [stats_defs]:
  "IncrementTotalConnectionsReused now s =
     updateTime now (s\<lparr>TotalConnectionsReused := TotalConnectionsReused s + 1\<rparr>)"

definition IncrementCurrentIdleConnections :: "int64 \<Rightarrow> instant \<Rightarrow> stats \<Rightarrow> stats" where [stats_defs]:
  "IncrementCurrentIdleConnections delta now s =
     updateTime now (s\<lparr>CurrentIdleConnections := CurrentIdleConnections s + delta\<rparr>)"

definition IncrementCurrentActiveConnections :: "int64 \<Rightarrow> instant \<Rightarrow> stats \<Rightarrow> stats" where [stats_defs]:
  "IncrementCurrentActiveConnections delta now s =
     updateTime now (s\<lparr>CurrentActiveConnections := CurrentActiveConnections s + delta\<rparr>)"

definition IncrementCurrentIPv4Connections :: "int64 \<Rightarrow> instant \<Rightarrow> stats \<Rightarrow> stats" where [stats_defs]:
  "IncrementCurrentIPv4Connections delta now s =
     updateTime now (s\<lparr>CurrentIPv4Connections := CurrentIPv4Connections s + delta\<rparr>)"

definition IncrementCurrentIPv6Connections :: "int64 \<Rightarrow> instant \<Rightarrow> stats \<Rightarrow> stats" where [stats_defs]:
  "IncrementCurrentIPv6Connections delta now s =
     updateTime now (s\<lparr>CurrentIPv6Connections := CurrentIPv6Connections s + delta\<rparr>)"

definition IncrementCurrentIPv4IdleConnections :: "int64 \<Rightarrow> instant \<Rightarrow> stats \<Rightarrow> stats" where [stats_defs]:
  "IncrementCurrentIPv4IdleConnections delta now s =
     updateTime now (s\<lparr>CurrentIPv4IdleConnections := CurrentIPv4IdleConnections s + delta\<rparr>)"

definition IncrementCurrentIPv6IdleConnections :: "int64 \<Rightarrow> instant \<Rightarrow> stats \<Rightarrow> stats" where [stats_defs]:
  "IncrementCurrentIPv6IdleConnections delta now s =
     updateTime now (s\<lparr>CurrentIPv6IdleConnections := CurrentIPv6IdleConnections s + delta\<rparr>)"

definition IncrementCurrentTCPConnections :: "int64 \<Rightarrow> instant \<Rightarrow> stats \<Rightarrow> stats" where [stats_defs]:
  "IncrementCurrentTCPConnections delta now s =
     updateTime now (s\<lparr>CurrentTCPConnections := CurrentTCPConnections s + delta\<rparr>)"

definition IncrementCurrentUDPConnections :: "int64 \<Rightarrow> instant \<Rightarrow> stats \<Rightarrow> stats" where [stats_defs]:
  "IncrementCurrentUDPConnections delta now s =
     updateTime now (s\<lparr>CurrentUDPConnections := CurrentUDPConnections s + delta\<rparr>)"

definition IncrementCurrentTCPIdleConnections :: "int64 \<Rightarrow> instant \<Rightarrow> stats \<Rightarrow> stats" where [stats_defs]:
  "IncrementCurrentTCPIdleConnections delta now s =
     updateTime now (s\<lparr>CurrentTCPIdleConnections := CurrentTCPIdleConnections s + delta\<rparr>)"

definition IncrementCurrentUDPIdleConnections :: "int64 \<Rightarrow> instant \<Rightarrow> stats \<Rightarrow> stats" where [stats_defs]:
  "IncrementCurrentUDPIdleConnections delta now s =
     updateTime now (s\<lparr>CurrentUDPIdleConnections := CurrentUDPIdleConnections s + delta\<rparr>)"

subsection \<open>Times\<close>

text \<open>
  \<^verbatim>\<open>RecordGetTime\<close> adds the duration and then tries up to three times to compute the average
  from two loads of \<^verbatim>\<open>SuccessfulGets\<close> that agree. \<open>obs i\<close> is what the \<open>i\<close>th round loads: the
  count, the total time, the count again; other goroutines may change them in between.
\<close>

definition int64_quot :: "int64 \<Rightarrow> int64 \<Rightarrow> int64" where
  "int64_quot a b = word_of_int (sint a sdiv sint b)"

fun average_rounds :: "nat \<Rightarrow> (nat \<Rightarrow> int64 \<times> int64 \<times> int64) \<Rightarrow> nat \<Rightarrow> int64 option" where
  "average_rounds 0 obs i = None"
| "average_rounds (Suc n) obs i =
     (case obs i of (totalGets, totalTime, totalGets2) \<Rightarrow>
        if 0 < sint totalGets then
          if totalGets = totalGets2 \<or> totalGets2 = 0 then
            (if 0 < sint totalGets2 then Some (int64_quot totalTime totalGets2) else None)
          else average_rounds n obs (Suc i)
        else None)"

definition RecordGetTime_obs ::
    "(nat \<Rightarrow> int64 \<times> int64 \<times> int64) \<Rightarrow> duration \<Rightarrow> instant \<Rightarrow> stats \<Rightarrow> stats" where [stats_defs]:
  "RecordGetTime_obs obs duration now s =
     (let s1 = s\<lparr>TotalGetTime := TotalGetTime s + word_of_int duration\<rparr>;
          s2 = (case average_rounds 3 obs 0 of None \<Rightarrow> s1 | Some a \<Rightarrow> s1\<lparr>AverageGetTime := a\<rparr>)
      in updateTime now s2)"

text \<open>With no other goroutine in between, every load sees the collector itself.\<close>

definition RecordGetTime :: "duration \<Rightarrow> instant \<Rightarrow> stats \<Rightarrow> stats" where [stats_defs]:
  "RecordGetTime duration now s =
     RecordGetTime_obs
       (\<lambda>_. (SuccessfulGets s, TotalGetTime s + word_of_int duration, SuccessfulGets s))
       duration now s"

subsection \<open>The average reuse count\<close>

text \<open>
  Rounding of a rational number to the nearest \<^verbatim>\<open>float64\<close>, ties to even. All numbers here lie
  between \<open>2 powr -64\<close> and \<open>2 powr 64\<close>, well inside the range of normal numbers.
\<close>

fun bit_length :: "nat \<Rightarrow> nat" where
  "bit_length n = (if n = 0 then 0 else Suc (bit_length (n div 2)))"

declare bit_length.simps [simp del]

definition round_half_even :: "int \<Rightarrow> int \<Rightarrow> int" where
  "round_half_even a b =
     (let q = a div b; r = a mod b in
      if 2 * r < b then q else if b < 2 * r then q + 1 else if even q then q else q + 1)"

definition f64_pos :: "int \<Rightarrow> int \<Rightarrow> rat" where
  "f64_pos a b =
     (let e0 = int (bit_length (nat a)) - int (bit_length (nat b)) - 53;
          scaled = (\<lambda>e. if 0 \<le> e then (a, b * 2 ^ nat e) else (a * 2 ^ nat (- e), b));
          e = (case scaled e0 of (n, d) \<Rightarrow> if 2 ^ 53 * d \<le> n then e0 + 1 else e0);
          m = (case scaled e of (n, d) \<Rightarrow> round_half_even n d)
      in if 0 \<le> e then of_int (m * 2 ^ nat e) else of_int m / of_int (2 ^ nat (- e)))"

definition f64_round :: "rat \<Rightarrow> rat" where
  "f64_round q =
     (case quotient_of q of (a, b) \<Rightarrow>
        if a = 0 then 0 else if 0 < a then f64_pos a b else - f64_pos (- a) b)"

definition calculateAverageReuseCount :: "stats \<Rightarrow> rat" where
  "calculateAverageReuseCount s =
     (if TotalConnectionsCreated s = 0 then 0
      else f64_round
        (f64_round (of_int (sint (TotalConnectionsReused s))) /
         f64_round (of_int (sint (TotalConnectionsCreated s)))))"

text \<open>The snapshot copies every counter and computes the average reuse count.\<close>

abbreviation getLastUpdateTime :: "stats \<Rightarrow> instant" where "getLastUpdateTime \<equiv> LastUpdateTime"

definition GetStats :: "stats \<Rightarrow> stats" where
  "GetStats s =
     s\<lparr>AverageReuseCount := calculateAverageReuseCount s, LastUpdateTime := getLastUpdateTime s\<rparr>"

subsection \<open>What the operations leave unchanged\<close>

lemma updateTime_frame [simp]:
  "TotalConnectionsCreated (updateTime now s) = TotalConnectionsCreated s"
  "TotalConnectionsClosed (updateTime now s) = TotalConnectionsClosed s"
  "CurrentConnections (updateTime now s) = CurrentConnections s"
  "CurrentIdleConnections (updateTime now s) = CurrentIdleConnections s"
  "CurrentActiveConnections (updateTime now s) = CurrentActiveConnections s"
  "CurrentIPv4Connections (updateTime now s) = CurrentIPv4Connections s"
  "CurrentIPv6Connections (updateTime now s) = CurrentIPv6Connections s"
  "CurrentIPv4IdleConnections (updateTime now s) = CurrentIPv4IdleConnections s"
  "CurrentIPv6IdleConnections (updateTime now s) = CurrentIPv6IdleConnections s"
  "CurrentTCPConnections (updateTime now s) = CurrentTCPConnections s"
  "CurrentUDPConnections (updateTime now s) = CurrentUDPConnections s"
  "CurrentTCPIdleConnections (updateTime now s) = CurrentTCPIdleConnections s"
  "CurrentUDPIdleConnections (updateTime now s) = CurrentUDPIdleConnections s"
  "TotalGetRequests (updateTime now s) = TotalGetRequests s"
  "SuccessfulGets (updateTime now s) = SuccessfulGets s"
  "FailedGets (updateTime now s) = FailedGets s"
  "TimeoutGets (updateTime now s) = TimeoutGets s"
  "HealthCheckAttempts (updateTime now s) = HealthCheckAttempts s"
  "HealthCheckFailures (updateTime now s) = HealthCheckFailures s"
  "UnhealthyConnections (updateTime now s) = UnhealthyConnections s"
  "ConnectionErrors (updateTime now s) = ConnectionErrors s"
  "LeakedConnections (updateTime now s) = LeakedConnections s"
  "TotalConnectionsReused (updateTime now s) = TotalConnectionsReused s"
  "AverageReuseCount (updateTime now s) = AverageReuseCount s"
  "AverageGetTime (updateTime now s) = AverageGetTime s"
  "TotalGetTime (updateTime now s) = TotalGetTime s"
  by (simp_all add: updateTime_def)

lemma updateTime_mono:
  "LastUpdateTime s \<le> now \<Longrightarrow> LastUpdateTime s \<le> LastUpdateTime (updateTime now s) \<and>
     LastUpdateTime (updateTime now s) \<le> now"
  by (simp add: updateTime_def)

lemma RecordGetTime_frame [simp]:
  "TotalConnectionsCreated (RecordGetTime d now s) = TotalConnectionsCreated s"
  "TotalConnectionsClosed (RecordGetTime d now s) = TotalConnectionsClosed s"
  "CurrentConnections (RecordGetTime d now s) = CurrentConnections s"
  "CurrentIdleConnections (RecordGetTime d now s) = CurrentIdleConnections s"
  "CurrentActiveConnections (RecordGetTime d now s) = CurrentActiveConnections s"
  "CurrentIPv4Connections (RecordGetTime d now s) = CurrentIPv4Connections s"
  "CurrentIPv6Connections (RecordGetTime d now s) = CurrentIPv6Connections s"
  "CurrentIPv4IdleConnections (RecordGetTime d now s) = CurrentIPv4IdleConnections s"
  "CurrentIPv6IdleConnections (RecordGetTime d now s) = CurrentIPv6IdleConnections s"
  "CurrentTCPConnections (RecordGetTime d now s) = CurrentTCPConnections s"
  "CurrentUDPConnections (RecordGetTime d now s) = CurrentUDPConnections s"
  "CurrentTCPIdleConnections (RecordGetTime d now s) = CurrentTCPIdleConnections s"
  "CurrentUDPIdleConnections (RecordGetTime d now s) = CurrentUDPIdleConnections s"
  "TotalGetRequests (RecordGetTime d now s) = TotalGetRequests s"
  "SuccessfulGets (RecordGetTime d now s) = SuccessfulGets s"
  "FailedGets (RecordGetTime d now s) = FailedGets s"
  "TimeoutGets (RecordGetTime d now s) = TimeoutGets s"
  "HealthCheckAttempts (RecordGetTime d now s) = HealthCheckAttempts s"
  "HealthCheckFailures (RecordGetTime d now s) = HealthCheckFailures s"
  "UnhealthyConnections (RecordGetTime d now s) = UnhealthyConnections s"
  "ConnectionErrors (RecordGetTime d now s) = ConnectionErrors s"
  "LeakedConnections (RecordGetTime d now s) = LeakedConnections s"
  "TotalConnectionsReused (RecordGetTime d now s) = TotalConnectionsReused s"
  by (simp_all add: RecordGetTime_def RecordGetTime_obs_def Let_def split: option.split)

text \<open>
  The statistics of the live connections by class: the classes of a connection that the pool
  counts, and the counter of each.
\<close>

datatype conn_class = ClassTCP | ClassUDP | ClassIPv4 | ClassIPv6

fun class_counter :: "conn_class \<Rightarrow> stats \<Rightarrow> int64" where
  "class_counter ClassTCP s = CurrentTCPConnections s"
| "class_counter ClassUDP s = CurrentUDPConnections s"
| "class_counter ClassIPv4 s = CurrentIPv4Connections s"
| "class_counter ClassIPv6 s = CurrentIPv6Connections s"

fun in_class :: "conn_class \<Rightarrow> protocol \<Rightarrow> ip_version \<Rightarrow> bool" where
  "in_class ClassTCP p v = (p = ProtocolTCP)"
| "in_class ClassUDP p v = (p = ProtocolUDP)"
| "in_class ClassIPv4 p v = (v = IPVersionIPv4)"
| "in_class ClassIPv6 p v = (v = IPVersionIPv6)"

text \<open>
  The books of the live connections: created, closed, current, and current by class. Most
  operations of the collector leave them alone.
\<close>

definition same_books :: "stats \<Rightarrow> stats \<Rightarrow> bool" where
  "same_books s s' \<longleftrightarrow>
     TotalConnectionsCreated s = TotalConnectionsCreated s' \<and>
     TotalConnectionsClosed s = TotalConnectionsClosed s' \<and>
     CurrentConnections s = CurrentConnections s' \<and>
     (\<forall>k. class_counter k s = class_counter k s')"

definition book_neutral :: "(instant \<Rightarrow> stats \<Rightarrow> stats) \<Rightarrow> bool" where
  "book_neutral f \<longleftrightarrow> (\<forall>t s. same_books (f t s) s)"

lemma same_booksI:
  "\<lbrakk> TotalConnectionsCreated s = TotalConnectionsCreated s';
     TotalConnectionsClosed s = TotalConnectionsClosed s';
     CurrentConnections s = CurrentConnections s';
     CurrentTCPConnections s = CurrentTCPConnections s';
     CurrentUDPConnections s = CurrentUDPConnections s';
     CurrentIPv4Connections s = CurrentIPv4Connections s';
     CurrentIPv6Connections s = CurrentIPv6Connections s' \<rbrakk> \<Longrightarrow> same_books s s'"
  unfolding same_books_def by (metis class_counter.simps conn_class.exhaust)

lemma same_books_refl [simp]: "same_books s s"
  by (simp add: same_books_def)

lemma same_books_trans: "same_books a b \<Longrightarrow> same_books b c \<Longrightarrow> same_books a c"
  by (simp add: same_books_def)

lemma book_neutral_ops [simp]:
  "book_neutral IncrementTotalGetRequests" "book_neutral IncrementSuccessfulGets"
  "book_neutral IncrementFailedGets" "book_neutral IncrementTimeoutGets"
  "book_neutral IncrementHealthCheckAttempts" "book_neutral IncrementHealthCheckFailures"
  "book_neutral IncrementUnhealthyConnections" "book_neutral IncrementConnectionErrors"
  "book_neutral IncrementLeakedConnections" "book_neutral IncrementTotalConnectionsReused"
  "book_neutral (IncrementCurrentIdleConnections d)" "book_neutral (IncrementCurrentActiveConnections d)"
  "book_neutral (IncrementCurrentIPv4IdleConnections d)"
  "book_neutral (IncrementCurrentIPv6IdleConnections d)"
  "book_neutral (IncrementCurrentTCPIdleConnections d)"
  "book_neutral (IncrementCurrentUDPIdleConnections d)"
  unfolding book_neutral_def by (intro allI same_booksI; simp add: stats_defs)+

lemma book_neutral_RecordGetTime [simp]: "book_neutral (RecordGetTime d)"
  unfolding book_neutral_def by (intro allI same_booksI) simp_all

definition books_agree :: "stats option \<Rightarrow> stats option \<Rightarrow> bool" where
  "books_agree a b \<longleftrightarrow>
     (case a of None \<Rightarrow> b = None | Some x \<Rightarrow> (case b of None \<Rightarrow> False | Some y \<Rightarrow> same_books x y))"

lemma books_agree_refl [simp]: "books_agree a a"
  by (simp add: books_agree_def split: option.split)

lemma books_agree_trans: "books_agree a b \<Longrightarrow> books_agree b c \<Longrightarrow> books_agree a c"
  by (auto simp: books_agree_def intro: same_books_trans split: option.splits)

lemma books_agree_map [simp]:
  "book_neutral f \<Longrightarrow> books_agree (map_option (f t) a) b = books_agree a b"
  by (auto simp: books_agree_def book_neutral_def same_books_def split: option.split)

lemma books_agree_None: "books_agree a b \<Longrightarrow> (a = None) = (b = None)"
  by (auto simp: books_agree_def split: option.splits)

lemma bit_length_0 [simp]: "bit_length 0 = 0"
  by (simp add: bit_length.simps)

text \<open>
  C38. \<^verbatim>\<open>RecordGetTime\<close> under concurrent updates: whatever its three rounds observe, the average
  becomes the quotient of an observed total time and an observed positive count that was the same
  before and after reading the total, or stays as it was. With no other goroutine in between it
  is the quotient of the new total and the successful gets.
\<close>

theorem average_get_time:
  "(AverageGetTime (RecordGetTime_obs obs d t s) = AverageGetTime s \<or>
    (\<exists>i < 3. case obs i of (n, tt, n') \<Rightarrow> n = n' \<and> 0 < sint n \<and>
       AverageGetTime (RecordGetTime_obs obs d t s) = int64_quot tt n)) \<and>
   TotalGetTime (RecordGetTime_obs obs d t s) = TotalGetTime s + word_of_int d \<and>
   AverageGetTime (RecordGetTime d t s) =
     (if 0 < sint (SuccessfulGets s)
      then int64_quot (TotalGetTime s + word_of_int d) (SuccessfulGets s) else AverageGetTime s)"
proof -
  have rounds: "average_rounds n obs j = Some a \<Longrightarrow>
      \<exists>i < j + n. case obs i of (g, tt, g') \<Rightarrow> g = g' \<and> 0 < sint g \<and> a = int64_quot tt g" for n j a
  proof (induction n arbitrary: j)
    case (Suc n)
    obtain g tt g' where o: "obs j = (g, tt, g')" by (cases "obs j")
    show ?case
    proof (cases "g = g' \<or> g' = 0")
      case True
      with Suc.prems o have "g = g'" "0 < sint g" "a = int64_quot tt g" by (auto split: if_splits)
      with o show ?thesis by (intro exI [of _ j]) simp
    next
      case False
      with Suc.prems o have "average_rounds n obs (Suc j) = Some a" by (auto split: if_splits)
      from Suc.IH [OF this] show ?thesis by simp
    qed
  qed simp
  have "average_rounds 3 obs 0 = Some a \<Longrightarrow>
      \<exists>i < 3. case obs i of (g, tt, g') \<Rightarrow> g = g' \<and> 0 < sint g \<and> a = int64_quot tt g" for a
    using rounds [of 3 0 a] by simp
  then show ?thesis
    by (auto simp: RecordGetTime_obs_def RecordGetTime_def Let_def eval_nat_numeral split: option.split)
qed

end
