(* ===== verification/Pool_Connection.thy ===== *)
theory Pool_Connection
  imports Pool_Stats
begin

text \<open>
  \<^verbatim>\<open>connection.go\<close>: the wrapper around a network connection. Its methods are functions of the
  wrapper, given the reading of the clock where the code calls \<^verbatim>\<open>time.Now\<close> or
  \<^verbatim>\<open>time.Since\<close>; the methods that lock the wrapper's mutex are atomic. What a close function
  does outside the program is an event.
\<close>

subsection \<open>The wrapper\<close>

text \<open>How the underlying connection gets closed: by the configured function or by its method.\<close>

datatype close_event = CalledCloseConn net_conn | CalledConnClose net_conn

record connection =
  ID :: uint64
  Conn :: "net_conn option"
  Protocol :: protocol
  IPVersion :: ip_version
  CreatedAt :: instant
  LastUsedAt :: instant
  LastHealthCheckAt :: instant
  IsHealthy :: bool
  InUse :: bool
  LeakDetected :: bool
  ReuseCount :: int64
  onClose :: "(close_event \<times> error option) option"
    \<comment> \<open>the effect and the answer of calling the close function\<close>

text \<open>
  \<^verbatim>\<open>NewConnection\<close> takes the next identifier from the package's generator, given here as the
  value before the increment; the generator's new value is the connection's \<^const>\<open>ID\<close>.
\<close>

definition NewConnection ::
    "uint64 \<Rightarrow> instant \<Rightarrow> net_conn option \<Rightarrow> (close_event \<times> error option) option \<Rightarrow> connection" where
  "NewConnection generator now conn close =
     \<lparr>ID = generator + 1, Conn = conn, Protocol = DetectProtocol conn,
      IPVersion = DetectIPVersion conn, CreatedAt = now, LastUsedAt = now,
      LastHealthCheckAt = now, IsHealthy = True, InUse = False, LeakDetected = False,
      ReuseCount = 0, onClose = close\<rparr>"

definition MarkInUse :: "instant \<Rightarrow> connection \<Rightarrow> connection" where
  "MarkInUse now c = c\<lparr>InUse := True, LastUsedAt := now\<rparr>"

definition MarkIdle :: "instant \<Rightarrow> connection \<Rightarrow> connection" where
  "MarkIdle now c = c\<lparr>InUse := False, LastUsedAt := now\<rparr>"

definition UpdateHealth :: "bool \<Rightarrow> instant \<Rightarrow> connection \<Rightarrow> connection" where
  "UpdateHealth healthy now c = c\<lparr>IsHealthy := healthy, LastHealthCheckAt := now\<rparr>"

definition IsExpired :: "duration \<Rightarrow> instant \<Rightarrow> connection \<Rightarrow> bool" where
  "IsExpired maxLifetime now c =
     (if maxLifetime \<le> 0 then False else time_sub now (CreatedAt c) > maxLifetime)"

definition IsIdleTooLong :: "duration \<Rightarrow> instant \<Rightarrow> connection \<Rightarrow> bool" where
  "IsIdleTooLong idleTimeout now c =
     (if idleTimeout \<le> 0 then False
      else \<not> InUse c \<and> time_sub now (LastUsedAt c) > idleTimeout)"

definition IsLeaked :: "duration \<Rightarrow> instant \<Rightarrow> connection \<Rightarrow> bool" where
  "IsLeaked leakTimeout now c =
     (if leakTimeout \<le> 0 \<or> \<not> InUse c then False
      else time_sub now (LastUsedAt c) > leakTimeout)"

text \<open>\<^verbatim>\<open>Close\<close>: the new wrapper, the closing of the underlying connection if any, the error.\<close>

definition Connection_Close :: "connection \<Rightarrow> connection \<times> close_event option \<times> error option" where
  "Connection_Close c =
     (case Conn c of
        None \<Rightarrow> (c, None, None)
      | Some nc \<Rightarrow>
          (case onClose c of
             Some (ev, err) \<Rightarrow> (c\<lparr>Conn := None\<rparr>, Some ev, err)
           | None \<Rightarrow> (c\<lparr>Conn := None\<rparr>, Some (CalledConnClose nc), close_answer nc)))"

definition GetAge :: "instant \<Rightarrow> connection \<Rightarrow> duration" where
  "GetAge now c = time_sub now (CreatedAt c)"

definition GetIdleTime :: "instant \<Rightarrow> connection \<Rightarrow> duration" where
  "GetIdleTime now c = (if InUse c then 0 else time_sub now (LastUsedAt c))"

definition IncrementReuseCount :: "connection \<Rightarrow> connection" where
  "IncrementReuseCount c = c\<lparr>ReuseCount := ReuseCount c + 1\<rparr>"

text \<open>The remaining getters read one field each.\<close>

abbreviation GetProtocol :: "connection \<Rightarrow> protocol" where "GetProtocol \<equiv> Protocol"
abbreviation GetIPVersion :: "connection \<Rightarrow> ip_version" where "GetIPVersion \<equiv> IPVersion"
abbreviation GetConn :: "connection \<Rightarrow> net_conn option" where "GetConn \<equiv> Conn"
abbreviation GetReuseCount :: "connection \<Rightarrow> int64" where "GetReuseCount \<equiv> ReuseCount"
abbreviation IsInUse :: "connection \<Rightarrow> bool" where "IsInUse \<equiv> InUse"
abbreviation GetHealthStatus :: "connection \<Rightarrow> bool" where "GetHealthStatus \<equiv> IsHealthy"

lemmas conn_op_defs = MarkInUse_def MarkIdle_def UpdateHealth_def IncrementReuseCount_def

subsection \<open>The identity of a wrapper\<close>

text \<open>
  What never changes after creation (the identifier, the protocol, the IP version, the creation
  time, the close function) and whether the underlying connection is still there: the part of a
  wrapper the pool's bookkeeping is about.
\<close>

definition same_core :: "connection \<Rightarrow> connection \<Rightarrow> bool" where
  "same_core c d \<longleftrightarrow>
     ID c = ID d \<and> Conn c = Conn d \<and> Protocol c = Protocol d \<and> IPVersion c = IPVersion d \<and>
     CreatedAt c = CreatedAt d \<and> onClose c = onClose d"

lemma same_core_refl [simp]: "same_core c c"
  by (simp add: same_core_def)

lemma same_core_trans: "same_core a b \<Longrightarrow> same_core b c \<Longrightarrow> same_core a c"
  by (simp add: same_core_def)

lemma same_core_ops [simp]:
  "same_core (MarkInUse t c) d = same_core c d"
  "same_core (MarkIdle t c) d = same_core c d"
  "same_core (UpdateHealth h t c) d = same_core c d"
  "same_core (IncrementReuseCount c) d = same_core c d"
  "same_core (c\<lparr>LeakDetected := b\<rparr>) d = same_core c d"
  by (simp_all add: same_core_def conn_op_defs)

lemma conn_op_fields [simp]:
  "InUse (MarkInUse t c)" "\<not> InUse (MarkIdle t c)"
  "InUse (UpdateHealth h t c) = InUse c" "InUse (IncrementReuseCount c) = InUse c"
  "ReuseCount (MarkInUse t c) = ReuseCount c" "ReuseCount (MarkIdle t c) = ReuseCount c"
  "ReuseCount (UpdateHealth h t c) = ReuseCount c"
  "ReuseCount (IncrementReuseCount c) = ReuseCount c + 1"
  "IsHealthy (MarkInUse t c) = IsHealthy c" "IsHealthy (MarkIdle t c) = IsHealthy c"
  "IsHealthy (UpdateHealth h t c) = h" "IsHealthy (IncrementReuseCount c) = IsHealthy c"
  "LastUsedAt (MarkInUse t c) = t" "LastUsedAt (MarkIdle t c) = t"
  "LastUsedAt (UpdateHealth h t c) = LastUsedAt c"
  "LastUsedAt (IncrementReuseCount c) = LastUsedAt c"
  by (simp_all add: conn_op_defs)

lemma conn_op_core_fields [simp]:
  "ID (MarkInUse t c) = ID c" "ID (MarkIdle t c) = ID c" "ID (UpdateHealth h t c) = ID c"
  "ID (IncrementReuseCount c) = ID c"
  "Conn (MarkInUse t c) = Conn c" "Conn (MarkIdle t c) = Conn c"
  "Conn (UpdateHealth h t c) = Conn c" "Conn (IncrementReuseCount c) = Conn c"
  "Protocol (MarkInUse t c) = Protocol c" "Protocol (MarkIdle t c) = Protocol c"
  "Protocol (UpdateHealth h t c) = Protocol c" "Protocol (IncrementReuseCount c) = Protocol c"
  "IPVersion (MarkInUse t c) = IPVersion c" "IPVersion (MarkIdle t c) = IPVersion c"
  "IPVersion (UpdateHealth h t c) = IPVersion c" "IPVersion (IncrementReuseCount c) = IPVersion c"
  "CreatedAt (MarkInUse t c) = CreatedAt c" "CreatedAt (MarkIdle t c) = CreatedAt c"
  "CreatedAt (UpdateHealth h t c) = CreatedAt c" "CreatedAt (IncrementReuseCount c) = CreatedAt c"
  by (simp_all add: conn_op_defs)

subsection \<open>Closing\<close>

lemma Close_Conn [simp]: "Conn (fst (Connection_Close c)) = None"
  by (simp add: Connection_Close_def split: option.split)

lemma Close_fields [simp]:
  "ID (fst (Connection_Close c)) = ID c" "Protocol (fst (Connection_Close c)) = Protocol c"
  "IPVersion (fst (Connection_Close c)) = IPVersion c"
  "ReuseCount (fst (Connection_Close c)) = ReuseCount c"
  "InUse (fst (Connection_Close c)) = InUse c"
  "IsHealthy (fst (Connection_Close c)) = IsHealthy c"
  "CreatedAt (fst (Connection_Close c)) = CreatedAt c"
  by (simp_all add: Connection_Close_def split: option.split)

lemma Close_event_iff: "fst (snd (Connection_Close c)) = None \<longleftrightarrow> Conn c = None"
  by (simp add: Connection_Close_def split: option.split)

lemma Close_twice:
  "Connection_Close (fst (Connection_Close c)) = (fst (Connection_Close c), None, None)"
  by (simp add: Connection_Close_def split: option.split)

subsection \<open>Ages\<close>

lemma IsExpired_mono: "IsExpired m t c \<Longrightarrow> t \<le> t' \<Longrightarrow> IsExpired m t' c"
  using time_sub_mono [of t t' "CreatedAt c"] by (auto simp: IsExpired_def split: if_splits)

lemma IsExpired_core: "same_core c d \<Longrightarrow> IsExpired m t c = IsExpired m t d"
  by (simp add: IsExpired_def same_core_def)

lemma idle_and_leaked_exclusive: "\<not> (IsIdleTooLong i t c \<and> IsLeaked l t c)"
  by (auto simp: IsIdleTooLong_def IsLeaked_def)

end
