(* ===== verification/UDP_Utils.thy ===== *)
theory UDP_Utils
  imports Pool_Connection
begin

text \<open>
  \<^verbatim>\<open>udp_utils.go\<close>: emptying the read buffer of a UDP connection before it is reused. The
  answer of a \<^verbatim>\<open>Read\<close> is a parameter: the \<open>k\<close>th read of the program, with the deadline set
  to \<open>limit\<close> from now, returns data or an error and takes some time. Instants and read counts
  are passed along.
\<close>

datatype clear_stop = ClearedTimeout | ClearedEmpty | ClearedEOF | ClearedError | ClearedLimit

fun read_time :: "read_outcome \<Rightarrow> duration" where
  "read_time (ReadData _ d) = int d"
| "read_time (ReadErr _ d) = int d"

text \<open>
  The loop, with the number of iterations left. The result: why it stopped, the instant, the
  number of reads done so far, the number of packets it consumed.
\<close>

fun clear_loop ::
    "net_conn \<Rightarrow> instant \<Rightarrow> nat \<Rightarrow> instant \<Rightarrow> nat \<Rightarrow> nat \<Rightarrow> clear_stop \<times> instant \<times> nat \<times> nat" where
  "clear_loop nc dl 0 now k got = (ClearedLimit, now, k, got)"
| "clear_loop nc dl (Suc n) now k got =
     (if now > dl then (ClearedTimeout, now, k, got)
      else
        (let remaining = time_sub dl now in
         if remaining \<le> 0 then (ClearedTimeout, now, k, got)
         else
           (let readDeadline = (if remaining > 50 * Millisecond then 50 * Millisecond else remaining)
            in case read_answer nc k readDeadline of
                 ReadErr e d \<Rightarrow>
                   (if is_net_timeout e then (ClearedEmpty, now + int d, Suc k, got)
                    else if e = IoEOF then (ClearedEOF, now + int d, Suc k, got)
                    else (ClearedError, now + int d, Suc k, got))
               | ReadData _ d \<Rightarrow> clear_loop nc dl n (now + int d) (Suc k) (Suc got))))"

definition ClearUDPReadBuffer ::
    "net_conn \<Rightarrow> duration \<Rightarrow> int \<Rightarrow> instant \<Rightarrow> nat \<Rightarrow> error option \<times> instant \<times> nat" where
  "ClearUDPReadBuffer nc timeout maxPackets now k =
     (if \<not> is_UDPConn nc then (None, now, k)
      else
        (let readTimeout = (if timeout \<le> 0 then 100 * Millisecond else timeout);
             dl = now + readTimeout;
             mp = (if maxPackets \<le> 0 then 100 else maxPackets)
         in case clear_loop nc dl (nat mp) now k 0 of
              (stop, now', k', _) \<Rightarrow> ((if stop = ClearedEOF then Some IoEOF else None), now', k')))"

definition HasUDPDataInBuffer :: "net_conn \<Rightarrow> nat \<Rightarrow> bool" where
  "HasUDPDataInBuffer nc k =
     (if \<not> is_UDPConn nc then False
      else case read_answer nc k (1 * Millisecond) of
             ReadErr _ _ \<Rightarrow> False
           | ReadData _ _ \<Rightarrow> True)"

subsection \<open>The loop is bounded in reads and in time\<close>

text \<open>
  What the standard library documents of a read with a deadline: it returns by the deadline,
  give or take \<open>slack\<close>.
\<close>

definition timely :: "net_conn \<Rightarrow> duration \<Rightarrow> bool" where
  "timely nc slack \<longleftrightarrow>
     0 \<le> slack \<and> (\<forall>k d. 0 < d \<longrightarrow> read_time (read_answer nc k d) \<le> d + slack)"

lemma read_time_nonneg [simp]: "0 \<le> read_time r"
  by (cases r) auto

lemma clear_loop_reads:
  "clear_loop nc dl n now k got = (s, now', k', got') \<Longrightarrow>
     k \<le> k' \<and> k' \<le> k + n \<and> got \<le> got' \<and> got' + k \<le> got + k'"
proof (induction nc dl n now k got rule: clear_loop.induct)
  case (1 nc dl now k got)
  then show ?case by simp
next
  case (2 nc dl n now k got)
  show ?case
  proof (cases "now > dl \<or> time_sub dl now \<le> 0")
    case True
    with "2.prems" show ?thesis by (auto simp: Let_def split: if_splits)
  next
    case False
    let ?rd = "if time_sub dl now > 50 * Millisecond then 50 * Millisecond else time_sub dl now"
    show ?thesis
    proof (cases "read_answer nc k ?rd")
      case (ReadErr e d)
      with False "2.prems" show ?thesis by (auto simp: Let_def split: if_splits)
    next
      case (ReadData m d)
      with False "2.prems" have "clear_loop nc dl n (now + int d) (Suc k) (Suc got) = (s, now', k', got')"
        by (auto simp: Let_def split: if_splits)
      with False ReadData have "Suc k \<le> k' \<and> k' \<le> Suc k + n \<and> Suc got \<le> got' \<and> got' + Suc k \<le> Suc got + k'"
        using "2.IH" [of "time_sub dl now" ?rd m d] by simp
      then show ?thesis by arith
    qed
  qed
qed

lemma time_sub_pos_le: "0 < time_sub t u \<Longrightarrow> time_sub t u \<le> t - u"
  by (auto simp: time_sub_def min_int64_def)

lemma clear_loop_time:
  assumes "timely nc slack" and "now \<le> dl + slack"
    and "clear_loop nc dl n now k got = (s, now', k', got')"
  shows "now \<le> now' \<and> now' \<le> dl + slack"
  using assms
proof (induction nc dl n now k got rule: clear_loop.induct)
  case (1 nc dl now k got)
  then show ?case by simp
next
  case (2 nc dl n now k got)
  let ?rem = "time_sub dl now"
  let ?rd = "if ?rem > 50 * Millisecond then 50 * Millisecond else ?rem"
  show ?case
  proof (cases "now > dl \<or> ?rem \<le> 0")
    case True
    with 2 show ?thesis by (auto simp: Let_def split: if_splits)
  next
    case False
    then have rd: "0 < ?rd" "?rd \<le> dl - now"
      using time_sub_pos_le [of dl now] by (auto simp: Millisecond_def)
    then have d: "0 \<le> read_time (read_answer nc k ?rd)"
        "now + read_time (read_answer nc k ?rd) \<le> dl + slack"
    proof -
      have t: "0 < d \<Longrightarrow> read_time (read_answer nc k d) \<le> d + slack" for d
        using "2.prems"(1) by (auto simp: timely_def)
      show "0 \<le> read_time (read_answer nc k ?rd)" by simp
      show "now + read_time (read_answer nc k ?rd) \<le> dl + slack"
        using t [OF rd(1)] rd(2) by linarith
    qed
    show ?thesis
    proof (cases "read_answer nc k ?rd")
      case (ReadErr e d')
      with False 2 d show ?thesis by (auto simp: Let_def split: if_splits)
    next
      case (ReadData m d')
      with False "2.prems" have "clear_loop nc dl n (now + int d') (Suc k) (Suc got) = (s, now', k', got')"
        by (auto simp: Let_def split: if_splits)
      with False ReadData d "2.prems"(1) have "now + int d' \<le> now' \<and> now' \<le> dl + slack"
        using "2.IH" [of ?rem ?rd m d'] by simp
      with d ReadData "2.prems"(1) show ?thesis by simp
    qed
  qed
qed

end
