(* ===== verification/Managers.thy ===== *)
theory Managers
  imports UDP_Utils
begin

text \<open>
  The life cycle the three background managers share (\<^verbatim>\<open>health.go\<close>, \<^verbatim>\<open>cleanup.go\<close>,
  \<^verbatim>\<open>leak.go\<close>): \<^verbatim>\<open>Start\<close> creates a ticker and one loop goroutine, \<^verbatim>\<open>Stop\<close> stops the ticker,
  closes \<^verbatim>\<open>stopChan\<close> and waits for the loop. They differ in when \<^verbatim>\<open>Start\<close> does nothing and in
  the interval. What a tick does is in the theories of the managers.
\<close>

record manager =
  running :: bool
  ticker :: "duration option"   \<comment> \<open>the interval of the ticker that is running\<close>
  stopChan_closed :: bool
  loops :: nat                  \<comment> \<open>goroutines the wait group counts\<close>

definition new_manager :: manager where
  "new_manager = \<lparr>running = False, ticker = None, stopChan_closed = False, loops = 0\<rparr>"

text \<open>\<^verbatim>\<open>time.NewTicker\<close> panics unless the interval is positive.\<close>

definition launch :: "duration \<Rightarrow> manager \<Rightarrow> manager result" where
  "launch interval m =
     (if interval \<le> 0 then Panic
      else Ok (m\<lparr>running := True, ticker := Some interval, loops := Suc (loops m)\<rparr>))"

definition HealthCheck_Start :: "config \<Rightarrow> manager \<Rightarrow> manager result" where
  "HealthCheck_Start c m =
     (if running m \<or> \<not> EnableHealthCheck c then Ok m else launch (HealthCheckInterval c) m)"

definition Cleanup_Start :: "config \<Rightarrow> manager \<Rightarrow> manager result" where
  "Cleanup_Start c m = (if running m then Ok m else launch (30 * Second) m)"

definition Leak_Start :: "config \<Rightarrow> manager \<Rightarrow> manager result" where
  "Leak_Start c m =
     (if running m \<or> ConnectionLeakTimeout c \<le> 0 then Ok m
      else launch (if LeakDetectionInterval c \<le> 0 then 1 * Minute else LeakDetectionInterval c) m)"

text \<open>
  Closing \<^verbatim>\<open>stopChan\<close> makes every loop return, and \<^verbatim>\<open>wg.Wait\<close> returns once they have; closing it a
  second time panics.
\<close>

definition manager_Stop :: "manager \<Rightarrow> manager result" where
  "manager_Stop m =
     (if \<not> running m then Ok m
      else if stopChan_closed m then Panic
      else Ok (m\<lparr>running := False, ticker := None, stopChan_closed := True, loops := 0\<rparr>))"

text \<open>The three managers have the same constructor and the same \<^verbatim>\<open>Stop\<close>, under their own names.\<close>

abbreviation NewHealthCheckManager :: manager where "NewHealthCheckManager \<equiv> new_manager"
abbreviation NewCleanupManager :: manager where "NewCleanupManager \<equiv> new_manager"
abbreviation NewLeakDetector :: manager where "NewLeakDetector \<equiv> new_manager"

abbreviation HealthCheck_Stop :: "manager \<Rightarrow> manager result" where "HealthCheck_Stop \<equiv> manager_Stop"
abbreviation Cleanup_Stop :: "manager \<Rightarrow> manager result" where "Cleanup_Stop \<equiv> manager_Stop"
abbreviation Leak_Stop :: "manager \<Rightarrow> manager result" where "Leak_Stop \<equiv> manager_Stop"

subsection \<open>The interface the pool relies on\<close>

definition manager_ok :: "manager \<Rightarrow> bool" where
  "manager_ok m \<longleftrightarrow>
     (running m \<longrightarrow> \<not> stopChan_closed m \<and> loops m = 1 \<and> ticker m \<noteq> None) \<and>
     (\<not> running m \<longrightarrow> loops m = 0 \<and> ticker m = None)"

text \<open>Started, started again, stopped, stopped again, and the panic of a second life.\<close>

definition one_shot :: "(config \<Rightarrow> manager \<Rightarrow> manager result) \<Rightarrow> config \<Rightarrow> manager \<Rightarrow> bool" where
  "one_shot start c m \<longleftrightarrow>
     (\<exists>m1 m2 m3. start c m = Ok m1 \<and> loops m1 = 1 \<and> start c m1 = Ok m1 \<and>
        manager_Stop m1 = Ok m2 \<and> loops m2 = 0 \<and> ticker m2 = None \<and> manager_Stop m2 = Ok m2 \<and>
        start c m2 = Ok m3 \<and> manager_Stop m3 = Panic)"

locale background_task =
  fixes start :: "config \<Rightarrow> manager \<Rightarrow> manager result"
    and wanted :: "config \<Rightarrow> bool"
    and interval :: "config \<Rightarrow> duration"
  assumes start_running: "running m \<Longrightarrow> start c m = Ok m"
    and start_unwanted: "\<not> wanted c \<Longrightarrow> start c m = Ok m"
    and start_fresh: "\<not> running m \<Longrightarrow> wanted c \<Longrightarrow> start c m = launch (interval c) m"
begin

lemma start_ok:
  "manager_ok m \<Longrightarrow> \<not> stopChan_closed m \<Longrightarrow> start c m = Ok m' \<Longrightarrow>
     manager_ok m' \<and> \<not> stopChan_closed m'"
  by (cases "running m"; cases "wanted c")
    (auto simp: start_running start_unwanted start_fresh launch_def manager_ok_def split: if_splits)

lemma start_idem: "start c m = Ok m' \<Longrightarrow> start c m' = Ok m'"
  by (cases "running m"; cases "wanted c")
    (auto simp: start_running start_unwanted start_fresh launch_def split: if_splits)

lemma start_panics_iff:
  "start c m = Panic \<longleftrightarrow> \<not> running m \<and> wanted c \<and> interval c \<le> 0"
  by (cases "running m"; cases "wanted c")
    (auto simp: start_running start_unwanted start_fresh launch_def)

lemma start_stop:
  assumes "manager_ok m" and "\<not> stopChan_closed m" and "start c m = Ok m'"
  shows "\<exists>m''. manager_Stop m' = Ok m'' \<and> \<not> running m'' \<and> loops m'' = 0 \<and> ticker m'' = None"
  using start_ok [OF assms] by (auto simp: manager_Stop_def manager_ok_def)

text \<open>A manager cannot be reused: after a second \<^verbatim>\<open>Start\<close>, \<^verbatim>\<open>Stop\<close> panics.\<close>

lemma restart_panics:
  assumes "running m" and "manager_Stop m = Ok m1" and "wanted c" and "0 < interval c"
  shows "\<exists>m2. start c m1 = Ok m2 \<and> manager_Stop m2 = Panic"
proof -
  from assms(1,2) have "\<not> running m1" and sc: "stopChan_closed m1"
    by (auto simp: manager_Stop_def split: if_splits)
  with assms(3,4) have "start c m1 =
      Ok (m1\<lparr>running := True, ticker := Some (interval c), loops := Suc (loops m1)\<rparr>)"
    by (simp add: start_fresh launch_def)
  with sc show ?thesis by (simp add: manager_Stop_def)
qed

lemma one_shot_ok:
  assumes "manager_ok m" and "\<not> stopChan_closed m" and "wanted c" and "0 < interval c"
  shows "one_shot start c m"
proof -
  define m1 where "m1 = (if running m then m
    else m\<lparr>running := True, ticker := Some (interval c), loops := Suc (loops m)\<rparr>)"
  have s1: "start c m = Ok m1" using assms(3,4) by (simp add: m1_def start_running start_fresh launch_def)
  have m1: "running m1" "loops m1 = 1" "\<not> stopChan_closed m1"
    using assms(1,2) by (auto simp: m1_def manager_ok_def)
  then have i1: "start c m1 = Ok m1" by (simp add: start_running)
  let ?m2 = "m1\<lparr>running := False, ticker := None, stopChan_closed := True, loops := 0\<rparr>"
  let ?m3 = "?m2\<lparr>running := True, ticker := Some (interval c), loops := 1\<rparr>"
  have s2: "manager_Stop m1 = Ok ?m2" "manager_Stop ?m2 = Ok ?m2" "manager_Stop ?m3 = Panic"
    using m1 by (simp_all add: manager_Stop_def)
  have s3: "start c ?m2 = Ok ?m3" using assms(3,4) by (simp add: start_fresh launch_def)
  show ?thesis unfolding one_shot_def
    by (intro exI [of _ m1] exI [of _ ?m2] exI [of _ ?m3] conjI s1 i1 s2 s3 m1(2)) simp_all
qed

end

lemma manager_ok_new [simp]: "manager_ok new_manager"
  by (simp add: manager_ok_def new_manager_def)

lemma Stop_idem: "manager_Stop m = Ok m' \<Longrightarrow> manager_Stop m' = Ok m'"
  by (auto simp: manager_Stop_def split: if_splits)

interpretation hm: background_task HealthCheck_Start EnableHealthCheck HealthCheckInterval
  by unfold_locales (auto simp: HealthCheck_Start_def)

interpretation cm: background_task Cleanup_Start "\<lambda>_. True" "\<lambda>_. 30 * Second"
  by unfold_locales (auto simp: Cleanup_Start_def)

interpretation lm: background_task Leak_Start "\<lambda>c. 0 < ConnectionLeakTimeout c"
    "\<lambda>c. if LeakDetectionInterval c \<le> 0 then 1 * Minute else LeakDetectionInterval c"
  by unfold_locales (auto simp: Leak_Start_def)

text \<open>
  C37. Each manager that has not been stopped can be started (a second \<^verbatim>\<open>Start\<close> does nothing) and
  then stopped, with its loop ended (a second \<^verbatim>\<open>Stop\<close> does nothing). But it cannot be used again:
  started a second time after that, it panics at its next \<^verbatim>\<open>Stop\<close>.
\<close>

theorem managers_are_one_shot:
  assumes "manager_ok m" and "\<not> stopChan_closed m"
  shows "one_shot Cleanup_Start c m \<and>
    (EnableHealthCheck c \<and> 0 < HealthCheckInterval c \<longrightarrow> one_shot HealthCheck_Start c m) \<and>
    (0 < ConnectionLeakTimeout c \<longrightarrow> one_shot Leak_Start c m)"
  using cm.one_shot_ok [OF assms, of c] hm.one_shot_ok [OF assms, of c] lm.one_shot_ok [OF assms, of c]
  by (auto simp: duration_defs)

theorem managers_are_one_shot_witness:
  "one_shot Cleanup_Start DefaultConfig new_manager \<and> one_shot HealthCheck_Start DefaultConfig new_manager"
  using managers_are_one_shot [of new_manager DefaultConfig]
  by (simp add: new_manager_def [THEN arg_cong, of stopChan_closed] DefaultConfig_def duration_defs)

end
