(* ===== verification/Go_Channel.thy ===== *)
theory Go_Channel
  imports Pool_Prelude
begin

text \<open>
  Buffered Go channels as the pool uses them: \<^verbatim>\<open>make(chan T, n)\<close>, the non-blocking send and
  receive of a \<^verbatim>\<open>select\<close>, and \<^verbatim>\<open>close\<close>. A send on a closed channel and a second
  close panic; a receive on a closed empty channel yields the zero value at once. The interface
  the pool relies on is the locale \<open>bounded_fifo\<close>; it is interpreted on the channel itself.
\<close>

subsection \<open>The data type and its operations\<close>

record 'a chan =
  buf :: "'a list"
  chan_cap :: nat
  chan_closed :: bool

definition make_chan :: "nat \<Rightarrow> 'a chan" where
  "make_chan n = \<lparr>buf = [], chan_cap = n, chan_closed = False\<rparr>"

datatype 'a send_result = Sent "'a chan" | SendBlocked | SendPanic

definition chan_send :: "'a \<Rightarrow> 'a chan \<Rightarrow> 'a send_result" where
  "chan_send x c =
     (if chan_closed c then SendPanic
      else if length (buf c) < chan_cap c then Sent (c\<lparr>buf := buf c @ [x]\<rparr>)
      else SendBlocked)"

datatype 'a recv_result = Received 'a "'a chan" | RecvZero | RecvBlocked

definition chan_recv :: "'a chan \<Rightarrow> 'a recv_result" where
  "chan_recv c =
     (case buf c of
        x # xs \<Rightarrow> Received x (c\<lparr>buf := xs\<rparr>)
      | [] \<Rightarrow> if chan_closed c then RecvZero else RecvBlocked)"

text \<open>\<open>None\<close> is the panic of closing a closed channel.\<close>

definition chan_close :: "'a chan \<Rightarrow> 'a chan option" where
  "chan_close c = (if chan_closed c then None else Some (c\<lparr>chan_closed := True\<rparr>))"

definition chan_wf :: "'a chan \<Rightarrow> bool" where
  "chan_wf c \<longleftrightarrow> length (buf c) \<le> chan_cap c"

subsection \<open>The interface: a bounded first-in first-out buffer\<close>

locale bounded_fifo =
  fixes send :: "'a \<Rightarrow> 'c \<Rightarrow> 'c option"
    and recv :: "'c \<Rightarrow> ('a \<times> 'c) option"
    and items :: "'c \<Rightarrow> 'a list"
    and room :: "'c \<Rightarrow> nat"
    and open_ch :: "'c \<Rightarrow> bool"
  assumes send_open: "open_ch c \<Longrightarrow> 0 < room c \<Longrightarrow>
      \<exists>c'. send x c = Some c' \<and> items c' = items c @ [x] \<and> Suc (room c') = room c \<and> open_ch c'"
    and send_full: "room c = 0 \<Longrightarrow> send x c = None"
    and send_shut: "\<not> open_ch c \<Longrightarrow> send x c = None"
    and recv_Cons: "items c = y # ys \<Longrightarrow>
      \<exists>c'. recv c = Some (y, c') \<and> items c' = ys \<and> (open_ch c' \<longleftrightarrow> open_ch c)"
    and recv_Nil: "items c = [] \<Longrightarrow> recv c = None"
begin

text \<open>The loops of the pool that empty a channel: receive until nothing is ready.\<close>

fun drain_n :: "nat \<Rightarrow> 'c \<Rightarrow> 'a list \<times> 'c" where
  "drain_n 0 c = ([], c)"
| "drain_n (Suc n) c =
     (case recv c of
        None \<Rightarrow> ([], c)
      | Some (x, c') \<Rightarrow> (case drain_n n c' of (xs, c'') \<Rightarrow> (x # xs, c'')))"

lemma send_ok_iff: "(\<exists>c'. send x c = Some c') \<longleftrightarrow> open_ch c \<and> 0 < room c"
  using send_open [of c x] send_full [of c x] send_shut [of c x] by fastforce

lemma recv_ok_iff: "(\<exists>z. recv c = Some z) \<longleftrightarrow> items c \<noteq> []"
  using recv_Cons [of c] recv_Nil [of c] by (cases "items c") fastforce+

lemma send_items: "send x c = Some c' \<Longrightarrow> items c' = items c @ [x]"
  using send_ok_iff [of x c] send_open [of c x] by fastforce

lemma drain_n_all: "length (items c) \<le> n \<Longrightarrow> fst (drain_n n c) = items c"
proof (induction n arbitrary: c)
  case 0
  then show ?case by simp
next
  case (Suc n)
  show ?case
  proof (cases "items c")
    case Nil
    then show ?thesis by (simp add: recv_Nil)
  next
    case (Cons y ys)
    then obtain c' where c': "recv c = Some (y, c')" "items c' = ys"
      using recv_Cons by blast
    with Cons Suc.prems have "fst (drain_n n c') = items c'" by (auto intro: Suc.IH)
    with Cons c' show ?thesis by (auto split: prod.splits)
  qed
qed

lemma drain_n_empties: "length (items c) \<le> n \<Longrightarrow> items (snd (drain_n n c)) = []"
proof (induction n arbitrary: c)
  case 0
  then show ?case by simp
next
  case (Suc n)
  show ?case
  proof (cases "items c")
    case Nil
    then show ?thesis by (simp add: recv_Nil)
  next
    case (Cons y ys)
    then obtain c' where c': "recv c = Some (y, c')" "items c' = ys"
      using recv_Cons by blast
    with Cons Suc.prems have "items (snd (drain_n n c')) = []" by (auto intro: Suc.IH)
    with c' show ?thesis by (auto split: prod.splits)
  qed
qed

text \<open>Sending to an empty buffer and receiving gives the item back: the buffer is a queue.\<close>

lemma send_recv_roundtrip:
  assumes "items c = []" and "send x c = Some c'"
  shows "\<exists>c''. recv c' = Some (x, c'') \<and> items c'' = []"
proof -
  from assms have "items c' = [x]" by (simp add: send_items)
  then show ?thesis using recv_Cons by blast
qed

end

definition opt_send :: "'a \<Rightarrow> 'a chan \<Rightarrow> 'a chan option" where
  "opt_send x c = (case chan_send x c of Sent c' \<Rightarrow> Some c' | _ \<Rightarrow> None)"

definition opt_recv :: "'a chan \<Rightarrow> ('a \<times> 'a chan) option" where
  "opt_recv c = (case chan_recv c of Received x c' \<Rightarrow> Some (x, c') | _ \<Rightarrow> None)"

interpretation ch: bounded_fifo opt_send opt_recv buf "\<lambda>c. chan_cap c - length (buf c)"
    "\<lambda>c. \<not> chan_closed c"
  by unfold_locales (auto simp: opt_send_def opt_recv_def chan_send_def chan_recv_def)

subsection \<open>Facts the pool's proofs use\<close>

lemma chan_send_Sent:
  "chan_send x c = Sent c' \<longleftrightarrow>
     \<not> chan_closed c \<and> length (buf c) < chan_cap c \<and> c' = c\<lparr>buf := buf c @ [x]\<rparr>"
  by (auto simp: chan_send_def)

lemma chan_send_SendPanic: "chan_send x c = SendPanic \<longleftrightarrow> chan_closed c"
  by (auto simp: chan_send_def)

lemma chan_send_SendBlocked:
  "chan_send x c = SendBlocked \<longleftrightarrow> \<not> chan_closed c \<and> chan_cap c \<le> length (buf c)"
  by (auto simp: chan_send_def)

lemma chan_recv_Received:
  "chan_recv c = Received x c' \<longleftrightarrow> (\<exists>xs. buf c = x # xs \<and> c' = c\<lparr>buf := xs\<rparr>)"
  by (auto simp: chan_recv_def split: list.splits)

lemma chan_recv_RecvZero: "chan_recv c = RecvZero \<longleftrightarrow> buf c = [] \<and> chan_closed c"
  by (auto simp: chan_recv_def split: list.splits)

lemma chan_recv_RecvBlocked: "chan_recv c = RecvBlocked \<longleftrightarrow> buf c = [] \<and> \<not> chan_closed c"
  by (auto simp: chan_recv_def split: list.splits)

lemmas chan_cases =
  chan_send_Sent chan_send_SendPanic chan_send_SendBlocked
  chan_recv_Received chan_recv_RecvZero chan_recv_RecvBlocked

lemma chan_wf_make [simp]: "chan_wf (make_chan n)"
  by (simp add: chan_wf_def make_chan_def)

lemma chan_wf_send: "chan_wf c \<Longrightarrow> chan_send x c = Sent c' \<Longrightarrow> chan_wf c'"
  by (auto simp: chan_wf_def chan_cases)

lemma chan_wf_recv: "chan_wf c \<Longrightarrow> chan_recv c = Received x c' \<Longrightarrow> chan_wf c'"
  by (auto simp: chan_wf_def chan_cases)

end
