(* ===== verification/Pool_World.thy ===== *)
theory Pool_World
  imports Managers Go_Channel
begin

text \<open>
  The state the operations of \<^verbatim>\<open>pool.go\<close> work on, and its elementary updates. Pointers to
  connection wrappers are references into a store (\<open>heap\<close>), because the same wrapper is reachable
  from the pool's map, from the idle channels, from the channels of waiting goroutines and from
  the application. The state holds:

  \<^item> the fields of \<^verbatim>\<open>Pool\<close>: configuration, map of connections, the two idle channels, the
    closed flag, \<^verbatim>\<open>closeOnce\<close>, \<^verbatim>\<open>closeChan\<close>, the three managers, the statistics collector
    (\<open>None\<close> for nil), the five wait queues and the semaphore of connection creation;
  \<^item> the two package variables: the identifier generator and the UDP cleanup semaphore;
  \<^item> the goroutines that wait inside \<^verbatim>\<open>waitForConnection\<close> and its variants, each with its
    \<^verbatim>\<open>waitChan\<close>;
  \<^item> the world outside: the clock, the number of external calls made so far (which selects the
    answer of the next one), the outcomes of \<^verbatim>\<open>select\<close> statements with several ready cases, and
    the trace of the effects on the outside, newest first.
\<close>

type_synonym ref = nat
type_synonym wid = nat

datatype event =
    EvCreated "net_conn option"      \<comment> \<open>\<^verbatim>\<open>OnCreated\<close> called\<close>
  | EvBorrow ref                     \<comment> \<open>\<^verbatim>\<open>OnBorrow\<close> called\<close>
  | EvReturn ref                     \<comment> \<open>\<^verbatim>\<open>OnReturn\<close> called\<close>
  | EvClose ref close_event          \<comment> \<open>the underlying connection of a wrapper closed\<close>
  | EvRejected net_conn              \<comment> \<open>closed because \<^verbatim>\<open>OnCreated\<close> failed\<close>
  | EvAccepted accepted_fate         \<comment> \<open>what \<^verbatim>\<open>defaultAcceptor\<close> did with a connection\<close>
  | EvClear net_conn duration int    \<comment> \<open>UDP buffer cleared in the background\<close>
  | EvClearSync net_conn duration int

datatype wait_kind = WaitAny | WaitProtocol protocol | WaitIPVersion ip_version

datatype wait_phase = Joining | Waiting | Finished "ref result"

record waiter =
  w_kind :: wait_kind
  w_ctx :: ctx
  w_start :: instant        \<comment> \<open>\<^verbatim>\<open>startTime\<close> of the calling \<^verbatim>\<open>Get\<close>\<close>
  w_chan :: "ref chan"      \<comment> \<open>\<^verbatim>\<open>waitChan\<close>\<close>
  w_phase :: wait_phase

record world =
  cfg :: config
  connections :: "(uint64 \<times> ref) list"
  idleTCP :: "ref chan"
  idleUDP :: "ref chan"
  pool_closed :: bool
  close_once :: bool
  closeChan_closed :: bool
  healthCheckManager :: manager
  cleanupManager :: manager
  leakDetector :: manager
  collector :: "stats option"
  waitQueue :: "wid chan"
  waitQueueIPv4 :: "wid chan"
  waitQueueIPv6 :: "wid chan"
  waitQueueTCP :: "wid chan"
  waitQueueUDP :: "wid chan"
  createSemaphore :: "unit chan"
  heap :: "ref \<Rightarrow> connection"
  next_ref :: ref
  generator :: uint64
  udpCleanupSemaphore :: "unit chan"
  waiters :: "wid \<Rightarrow> waiter option"
  next_wid :: wid
  now :: instant
  ext_calls :: nat
  coin :: "nat \<Rightarrow> bool"
  coins :: nat
  trace :: "event list"

subsection \<open>Elementary updates\<close>

definition with_stats :: "(instant \<Rightarrow> stats \<Rightarrow> stats) \<Rightarrow> world \<Rightarrow> world" where
  "with_stats f w = w\<lparr>collector := map_option (f (now w)) (collector w)\<rparr>"

definition upd_conn :: "ref \<Rightarrow> (connection \<Rightarrow> connection) \<Rightarrow> world \<Rightarrow> world" where
  "upd_conn r f w = w\<lparr>heap := (heap w)(r := f (heap w r))\<rparr>"

definition emit :: "event \<Rightarrow> world \<Rightarrow> world" where
  "emit ev w = w\<lparr>trace := ev # trace w\<rparr>"

definition flip :: "world \<Rightarrow> bool \<times> world" where
  "flip w = (coin w (coins w), w\<lparr>coins := Suc (coins w)\<rparr>)"

definition pass_time :: "nat \<Rightarrow> world \<Rightarrow> world" where
  "pass_time d w = w\<lparr>now := now w + int d\<rparr>"

definition pass_until :: "instant \<Rightarrow> world \<Rightarrow> world" where
  "pass_until t w = w\<lparr>now := max (now w) t\<rparr>"

definition external :: "world \<Rightarrow> world" where
  "external w = w\<lparr>ext_calls := Suc (ext_calls w)\<rparr>"

text \<open>The hooks: nothing happens when they are not configured.\<close>

definition call_OnBorrow :: "ref \<Rightarrow> world \<Rightarrow> world" where
  "call_OnBorrow r w = (if OnBorrow (cfg w) \<noteq> None then emit (EvBorrow r) w else w)"

definition call_OnReturn :: "ref \<Rightarrow> world \<Rightarrow> world" where
  "call_OnReturn r w = (if OnReturn (cfg w) \<noteq> None then emit (EvReturn r) w else w)"

lemmas light_defs =
  with_stats_def upd_conn_def emit_def flip_def pass_time_def pass_until_def external_def
  call_OnBorrow_def call_OnReturn_def

subsection \<open>Statistics the pool updates in groups\<close>

text \<open>The two switches of \<^verbatim>\<open>createConnection\<close> and \<^verbatim>\<open>closeConnection\<close>.\<close>

definition count_live :: "int64 \<Rightarrow> connection \<Rightarrow> instant \<Rightarrow> stats \<Rightarrow> stats" where
  "count_live delta c t s =
     (let s1 = (case GetIPVersion c of
                  IPVersionIPv4 \<Rightarrow> IncrementCurrentIPv4Connections delta t s
                | IPVersionIPv6 \<Rightarrow> IncrementCurrentIPv6Connections delta t s
                | _ \<Rightarrow> s)
      in case GetProtocol c of
           ProtocolTCP \<Rightarrow> IncrementCurrentTCPConnections delta t s1
         | ProtocolUDP \<Rightarrow> IncrementCurrentUDPConnections delta t s1
         | _ \<Rightarrow> s1)"

text \<open>The two switches over the idle counters in \<^verbatim>\<open>Put\<close> and the \<^verbatim>\<open>Get\<close> family.\<close>

definition count_idle_version :: "int64 \<Rightarrow> connection \<Rightarrow> instant \<Rightarrow> stats \<Rightarrow> stats" where
  "count_idle_version delta c t s =
     (case GetIPVersion c of
        IPVersionIPv4 \<Rightarrow> IncrementCurrentIPv4IdleConnections delta t s
      | IPVersionIPv6 \<Rightarrow> IncrementCurrentIPv6IdleConnections delta t s
      | _ \<Rightarrow> s)"

definition count_idle_protocol :: "int64 \<Rightarrow> connection \<Rightarrow> instant \<Rightarrow> stats \<Rightarrow> stats" where
  "count_idle_protocol delta c t s =
     (case GetProtocol c of
        ProtocolTCP \<Rightarrow> IncrementCurrentTCPIdleConnections delta t s
      | ProtocolUDP \<Rightarrow> IncrementCurrentUDPIdleConnections delta t s
      | _ \<Rightarrow> s)"

subsection \<open>Reading the pool\<close>

definition isClosed :: "world \<Rightarrow> bool" where
  "isClosed w = pool_closed w"

definition getCurrentConnectionsCount :: "world \<Rightarrow> int" where
  "getCurrentConnectionsCount w = int (length (connections w))"

text \<open>
  The snapshot of the map's values. Go iterates over a map in an order the runtime chooses:
  \<open>order\<close> is that choice, a permutation.
\<close>

definition getAllConnections :: "(ref list \<Rightarrow> ref list) \<Rightarrow> world \<Rightarrow> ref list" where
  "getAllConnections order w = order (map snd (connections w))"

definition permutes_all :: "('a list \<Rightarrow> 'a list) \<Rightarrow> bool" where
  "permutes_all order \<longleftrightarrow> (\<forall>xs. mset (order xs) = mset xs)"

lemma permutes_allD:
  "permutes_all order \<Longrightarrow> set (order xs) = set xs"
  "permutes_all order \<Longrightarrow> length (order xs) = length xs"
  "permutes_all order \<Longrightarrow> distinct (order xs) = distinct xs"
  unfolding permutes_all_def
  by (metis set_mset_mset, metis size_mset, metis distinct_count_atmost_1 set_mset_mset)

lemma permutes_all_id [simp]: "permutes_all (\<lambda>xs. xs)" and permutes_all_rev [simp]: "permutes_all rev"
  by (simp_all add: permutes_all_def)

text \<open>\<^verbatim>\<open>isConnectionValid\<close>: not nil, not closed, not expired, and healthy where health is checked.\<close>

definition isConnectionValid :: "ref option \<Rightarrow> world \<Rightarrow> bool" where
  "isConnectionValid conn w =
     (case conn of
        None \<Rightarrow> False
      | Some r \<Rightarrow>
          (let c = heap w r in
           if GetConn c = None then False
           else if IsExpired (MaxLifetime (cfg w)) (now w) c then False
           else if EnableHealthCheck (cfg w) \<and> \<not> GetHealthStatus c then False
           else True))"

lemma valid_iff:
  "isConnectionValid (Some r) w \<longleftrightarrow>
     Conn (heap w r) \<noteq> None \<and> \<not> IsExpired (MaxLifetime (cfg w)) (now w) (heap w r) \<and>
     (EnableHealthCheck (cfg w) \<longrightarrow> IsHealthy (heap w r))"
  by (auto simp: isConnectionValid_def Let_def)

end
