(* ===== verification/Pool_Core.thy ===== *)
theory Pool_Core
  imports Pool_World
begin

text \<open>
  The operations of \<^verbatim>\<open>pool.go\<close> that create, close and return connections:
  \<^verbatim>\<open>createConnection\<close>, \<^verbatim>\<open>createCloseFunc\<close>, \<^verbatim>\<open>closeConnection\<close>, \<^verbatim>\<open>notifySpecificWaitQueue\<close>,
  \<^verbatim>\<open>notifyWaitQueue\<close> and \<^verbatim>\<open>Put\<close>, and the non-blocking clearing of \<^verbatim>\<open>udp_utils.go\<close>
  on the pool's state. An operation takes the state and returns its result and the new state; it
  runs without interference from other goroutines except where it waits for the outside.
\<close>

subsection \<open>Clearing a UDP buffer without blocking\<close>

text \<open>
  With a free slot of the semaphore the clearing runs in a goroutine of its own, which gives the
  slot back when it ends (\<open>udp_cleanup_done\<close>); otherwise the caller clears with half the timeout.
\<close>

definition ClearUDPReadBufferNonBlocking ::
    "net_conn option \<Rightarrow> duration \<Rightarrow> int \<Rightarrow> world \<Rightarrow> world" where
  "ClearUDPReadBufferNonBlocking conn timeout maxPackets w =
     (case conn of
        None \<Rightarrow> w
      | Some nc \<Rightarrow>
          (case chan_send () (udpCleanupSemaphore w) of
             Sent sem \<Rightarrow> emit (EvClear nc timeout maxPackets) (w\<lparr>udpCleanupSemaphore := sem\<rparr>)
           | _ \<Rightarrow>
               (let shortTimeout = (if timeout \<le> 0 then 100 * Millisecond else timeout)
                in case ClearUDPReadBuffer nc (shortTimeout sdiv 2) maxPackets (now w) (ext_calls w) of
                     (_, t, k) \<Rightarrow>
                       emit (EvClearSync nc (shortTimeout sdiv 2) maxPackets)
                         (w\<lparr>now := t, ext_calls := k\<rparr>))))"

definition udp_cleanup_done :: "world \<Rightarrow> world" where
  "udp_cleanup_done w =
     (case chan_recv (udpCleanupSemaphore w) of
        Received _ sem \<Rightarrow> w\<lparr>udpCleanupSemaphore := sem\<rparr>
      | _ \<Rightarrow> w)"

text \<open>The guard and the default timeout that \<^verbatim>\<open>Put\<close> and \<^verbatim>\<open>createConnection\<close> share.\<close>

definition clear_if_udp :: "ref \<Rightarrow> world \<Rightarrow> world" where
  "clear_if_udp r w =
     (if ClearUDPBufferOnReturn (cfg w) \<and> GetProtocol (heap w r) = ProtocolUDP then
        (let timeout = (if UDPBufferClearTimeout (cfg w) \<le> 0 then 100 * Millisecond
                        else UDPBufferClearTimeout (cfg w))
         in ClearUDPReadBufferNonBlocking (GetConn (heap w r)) timeout
              (MaxBufferClearPackets (cfg w)) w)
      else w)"

subsection \<open>Closing a connection\<close>

text \<open>What the close function of a pooled connection does and answers.\<close>

definition createCloseFunc :: "config \<Rightarrow> net_conn \<Rightarrow> close_event \<times> error option" where
  "createCloseFunc c nc =
     (case CloseConn c of
        Some f \<Rightarrow> (CalledCloseConn nc, f nc)
      | None \<Rightarrow> (CalledConnClose nc, close_answer nc))"

text \<open>\<^verbatim>\<open>conn.Close()\<close> on the store, with its effect and its error.\<close>

definition close_wrapper :: "ref \<Rightarrow> world \<Rightarrow> error option \<times> world" where
  "close_wrapper r w =
     (case Connection_Close (heap w r) of
        (c, ev, err) \<Rightarrow>
          (let w1 = upd_conn r (\<lambda>_. c) w
           in (err, case ev of None \<Rightarrow> w1 | Some e \<Rightarrow> emit (EvClose r e) w1)))"

definition error_result :: "error option \<Rightarrow> unit result" where
  "error_result e = (case e of None \<Rightarrow> Ok () | Some x \<Rightarrow> Err x)"

definition closeConnection :: "ref option \<Rightarrow> world \<Rightarrow> unit result \<times> world" where
  "closeConnection conn w =
     (case conn of
        None \<Rightarrow> (Ok (), w)
      | Some r \<Rightarrow>
          (let w1 = upd_conn r (UpdateHealth False (now w)) w;
               cid = ID (heap w1 r);
               exists = (map_of (connections w1) cid \<noteq> None);
               w2 = (if exists then w1\<lparr>connections := AList.delete cid (connections w1)\<rparr> else w1)
           in case close_wrapper r w2 of
                (err, w3) \<Rightarrow>
                  (let w4 = (if exists then
                               with_stats (count_live (- 1) (heap w3 r))
                                 (with_stats IncrementTotalConnectionsClosed w3)
                             else w3)
                   in (error_result err, w4))))"

subsection \<open>Creating a connection\<close>

text \<open>
  Acquiring a slot of \<^verbatim>\<open>createSemaphore\<close> or seeing the context done. With both ready the
  \<^verbatim>\<open>select\<close> picks one; with no slot free the only way out is the context.
\<close>

definition create_acquire :: "ctx \<Rightarrow> world \<Rightarrow> unit result \<times> world" where
  "create_acquire c w =
     (case chan_send () (createSemaphore w) of
        Sent sem \<Rightarrow>
          if ctx_done c (now w) then
            (case flip w of
               (True, w1) \<Rightarrow> (Ok (), w1\<lparr>createSemaphore := sem\<rparr>)
             | (False, w1) \<Rightarrow> (Err (ctx_err c), w1))
          else (Ok (), w\<lparr>createSemaphore := sem\<rparr>)
      | SendBlocked \<Rightarrow>
          (case done_at c of
             None \<Rightarrow> (Hang, w)
           | Some t \<Rightarrow> (Err (ctx_err c), pass_until t w))
      | SendPanic \<Rightarrow> (Panic, w))"

definition create_release :: "world \<Rightarrow> world" where
  "create_release w =
     (case chan_recv (createSemaphore w) of
        Received _ sem \<Rightarrow> w\<lparr>createSemaphore := sem\<rparr>
      | _ \<Rightarrow> w)"

text \<open>The checks before any connection is opened.\<close>

definition create_check :: "world \<Rightarrow> error option" where
  "create_check w =
     (if isClosed w then Some ErrPoolClosed
      else if MaxConnections (cfg w) > 0 \<and> int (length (connections w)) \<ge> MaxConnections (cfg w)
        then Some ErrMaxConnectionsReached
      else None)"

text \<open>Calling the application's function that opens a connection.\<close>

definition ask :: "(nat \<Rightarrow> dial_outcome) \<Rightarrow> world \<Rightarrow> (net_conn option \<times> error option) \<times> world" where
  "ask f w =
     (let out = f (ext_calls w)
      in ((dial_conn out, dial_err out), pass_time (dial_time out) (external w)))"

definition ask_default_acceptor ::
    "ctx \<Rightarrow> listener \<Rightarrow> world \<Rightarrow> (net_conn option \<times> error option) \<times> world" where
  "ask_default_acceptor c l w =
     (case flip w of
        (sends, w1) \<Rightarrow>
          (case flip w1 of
             (takes, w2) \<Rightarrow>
               (let r = defaultAcceptor c (now w2) (l (ext_calls w2)) sends takes
                in ((ret_conn r, ret_err r),
                    emit (EvAccepted (ret_fate r)) (pass_until (ret_at r) (external w2))))))"

definition create_dial :: "ctx \<Rightarrow> world \<Rightarrow> net_conn option result \<times> world" where
  "create_dial c w =
     (let createCtx = WithTimeout c (now w) (ConnectionTimeout (cfg w));
          reply = (case Mode (cfg w) of
              PoolModeServer \<Rightarrow>
                (case Listener (cfg w) of
                   None \<Rightarrow> None
                 | Some l \<Rightarrow>
                     (case Acceptor (cfg w) of
                        None \<Rightarrow> Some (ask_default_acceptor createCtx l w)
                      | Some DefaultAcceptor \<Rightarrow> Some (ask_default_acceptor createCtx l w)
                      | Some (UserAcceptor f) \<Rightarrow> Some (ask f w)))
            | PoolModeClient \<Rightarrow>
                (case Dialer (cfg w) of None \<Rightarrow> None | Some f \<Rightarrow> Some (ask f w))
            | PoolModeOther _ \<Rightarrow> None)
      in case reply of
           None \<Rightarrow> (Err ErrInvalidConfig, w)
         | Some ((conn, err), w1) \<Rightarrow>
             (case err of
                Some e \<Rightarrow> (Err e, w1)
              | None \<Rightarrow>
                  (case OnCreated (cfg w1) of
                     None \<Rightarrow> (Ok conn, w1)
                   | Some hook \<Rightarrow>
                       (let w2 = emit (EvCreated conn) w1
                        in case hook conn of
                             None \<Rightarrow> (Ok conn, w2)
                           | Some e \<Rightarrow>
                               (case conn of
                                  None \<Rightarrow> (Panic, w2)
                                | Some nc \<Rightarrow> (Err e, emit (EvRejected nc) w2))))))"

text \<open>Wrapping the connection, clearing its buffer, entering it into the map, counting it.\<close>

definition allocate :: "net_conn option \<Rightarrow> world \<Rightarrow> ref \<times> world" where
  "allocate conn w =
     (let r = next_ref w;
          c = NewConnection (generator w) (now w) conn (map_option (createCloseFunc (cfg w)) conn)
      in (r, w\<lparr>heap := (heap w)(r := c), next_ref := Suc r, generator := generator w + 1\<rparr>))"

definition create_publish :: "net_conn option \<Rightarrow> world \<Rightarrow> ref \<times> world" where
  "create_publish conn w =
     (case allocate conn w of
        (r, w1) \<Rightarrow>
          (let w2 = clear_if_udp r w1;
               w3 = w2\<lparr>connections := AList.update (ID (heap w2 r)) r (connections w2)\<rparr>
           in (r, with_stats (count_live 1 (heap w3 r))
                    (with_stats IncrementTotalConnectionsCreated w3))))"

definition create_body :: "ctx \<Rightarrow> world \<Rightarrow> ref option result \<times> world" where
  "create_body c w =
     (case create_check w of
        Some e \<Rightarrow> (Err e, w)
      | None \<Rightarrow>
          (case create_dial c w of
             (Ok conn, w1) \<Rightarrow> (case create_publish conn w1 of (r, w2) \<Rightarrow> (Ok (Some r), w2))
           | (Err e, w1) \<Rightarrow> (Err e, w1)
           | (Panic, w1) \<Rightarrow> (Panic, w1)
           | (Hang, w1) \<Rightarrow> (Hang, w1)))"

definition createConnection :: "ctx \<Rightarrow> world \<Rightarrow> ref option result \<times> world" where
  "createConnection c w =
     (case create_acquire c w of
        (Ok _, w1) \<Rightarrow> (case create_body c w1 of (res, w2) \<Rightarrow> (res, create_release w2))
      | (Err e, w1) \<Rightarrow> (Err e, w1)
      | (Panic, w1) \<Rightarrow> (Panic, w1)
      | (Hang, w1) \<Rightarrow> (Hang, w1))"

end
