(* ===== verification/Pool_Put.thy ===== *)
theory Pool_Put
  imports Pool_Core
begin

text \<open>
  \<^verbatim>\<open>Put\<close> and the notification of waiting goroutines.
\<close>

subsection \<open>Handing a connection to a waiting goroutine\<close>

text \<open>
  The non-blocking send on a waiter's channel, with the panic of a closed channel recovered:
  whether it succeeded, and the state.
\<close>

definition offer :: "wid \<Rightarrow> ref \<Rightarrow> world \<Rightarrow> bool \<times> world" where
  "offer i r w =
     (case waiters w i of
        None \<Rightarrow> (False, w)
      | Some wt \<Rightarrow>
          (case chan_send r (w_chan wt) of
             Sent ch \<Rightarrow> (True, w\<lparr>waiters := (waiters w)(i \<mapsto> wt\<lparr>w_chan := ch\<rparr>)\<rparr>)
           | SendBlocked \<Rightarrow> (False, w)
           | SendPanic \<Rightarrow> (False, w)))"

text \<open>The five queues, by name.\<close>

datatype queue_id = QAny | QIPv4 | QIPv6 | QTCP | QUDP

fun queue :: "queue_id \<Rightarrow> world \<Rightarrow> wid chan" where
  "queue QAny w = waitQueue w"
| "queue QIPv4 w = waitQueueIPv4 w"
| "queue QIPv6 w = waitQueueIPv6 w"
| "queue QTCP w = waitQueueTCP w"
| "queue QUDP w = waitQueueUDP w"

fun set_queue :: "queue_id \<Rightarrow> wid chan \<Rightarrow> world \<Rightarrow> world" where
  "set_queue QAny q w = w\<lparr>waitQueue := q\<rparr>"
| "set_queue QIPv4 q w = w\<lparr>waitQueueIPv4 := q\<rparr>"
| "set_queue QIPv6 q w = w\<lparr>waitQueueIPv6 := q\<rparr>"
| "set_queue QTCP q w = w\<lparr>waitQueueTCP := q\<rparr>"
| "set_queue QUDP q w = w\<lparr>waitQueueUDP := q\<rparr>"

text \<open>
  The waiting functions, here for who stands in which queue: one for a protocol or an IP version
  that has no queue is the plain one. Each joins one queue and accepts some connections.
\<close>

fun wait_dispatch :: "wait_kind \<Rightarrow> wait_kind" where
  "wait_dispatch WaitAny = WaitAny"
| "wait_dispatch (WaitProtocol p) =
     (if p = ProtocolTCP \<or> p = ProtocolUDP then WaitProtocol p else WaitAny)"
| "wait_dispatch (WaitIPVersion v) =
     (if v = IPVersionIPv4 \<or> v = IPVersionIPv6 then WaitIPVersion v else WaitAny)"

fun wait_queue_of :: "wait_kind \<Rightarrow> queue_id" where
  "wait_queue_of WaitAny = QAny"
| "wait_queue_of (WaitProtocol p) =
     (if p = ProtocolTCP then QTCP else if p = ProtocolUDP then QUDP else QAny)"
| "wait_queue_of (WaitIPVersion v) =
     (if v = IPVersionIPv4 then QIPv4 else if v = IPVersionIPv6 then QIPv6 else QAny)"

fun wait_accepts :: "wait_kind \<Rightarrow> connection \<Rightarrow> bool" where
  "wait_accepts WaitAny c = True"
| "wait_accepts (WaitProtocol p) c = (GetProtocol c = p)"
| "wait_accepts (WaitIPVersion v) c = (GetIPVersion c = v)"

text \<open>
  The loop over a queue. A receive from a closed empty queue yields a nil channel; the send on
  it is never ready, so the loop goes round for ever: \<open>None\<close>.
\<close>

partial_function (option) notifySpecificWaitQueue ::
    "queue_id \<Rightarrow> ref \<Rightarrow> world \<Rightarrow> (bool \<times> world) option" where
  "notifySpecificWaitQueue q r w =
     (case chan_recv (queue q w) of
        RecvBlocked \<Rightarrow> Some (False, w)
      | RecvZero \<Rightarrow> notifySpecificWaitQueue q r w
      | Received i q' \<Rightarrow>
          (case offer i r (set_queue q q' w) of
             (sent, w1) \<Rightarrow>
               if sent then Some (True, w1) else notifySpecificWaitQueue q r w1))"

declare notifySpecificWaitQueue.simps [code]

text \<open>Running the second notification only when the first found nobody.\<close>

definition or_else ::
    "(world \<Rightarrow> (bool \<times> world) option) \<Rightarrow> (world \<Rightarrow> (bool \<times> world) option) \<Rightarrow>
     world \<Rightarrow> (bool \<times> world) option" where
  "or_else f g w =
     (case f w of
        None \<Rightarrow> None
      | Some (True, w1) \<Rightarrow> Some (True, w1)
      | Some (False, w1) \<Rightarrow> g w1)"

definition notifyWaitQueue :: "ref \<Rightarrow> world \<Rightarrow> (bool \<times> world) option" where
  "notifyWaitQueue r w =
     (let protocol = GetProtocol (heap w r);
          ipVersion = GetIPVersion (heap w r);
          skip = (\<lambda>w. Some (False, w));
          by_protocol = (if protocol = ProtocolTCP then notifySpecificWaitQueue QTCP r
                         else if protocol = ProtocolUDP then notifySpecificWaitQueue QUDP r
                         else skip);
          by_version = (if ipVersion = IPVersionIPv4 then notifySpecificWaitQueue QIPv4 r
                        else if ipVersion = IPVersionIPv6 then notifySpecificWaitQueue QIPv6 r
                        else skip)
      in or_else by_protocol (or_else by_version (notifySpecificWaitQueue QAny r)) w)"

subsection \<open>\<^verbatim>\<open>Put\<close>\<close>

text \<open>The idle channel of a protocol.\<close>

definition idle_of :: "protocol \<Rightarrow> world \<Rightarrow> ref chan" where
  "idle_of p w = (if p = ProtocolTCP then idleTCP w else idleUDP w)"

definition set_idle :: "protocol \<Rightarrow> ref chan \<Rightarrow> world \<Rightarrow> world" where
  "set_idle p c w = (if p = ProtocolTCP then w\<lparr>idleTCP := c\<rparr> else w\<lparr>idleUDP := c\<rparr>)"

text \<open>Everything \<^verbatim>\<open>Put\<close> does between its checks and the send on the idle channel.\<close>

definition put_prepare :: "ref \<Rightarrow> world \<Rightarrow> world" where
  "put_prepare r w =
     (let w1 = call_OnReturn r w;
          w2 = clear_if_udp r w1;
          w3 = upd_conn r (MarkIdle (now w2)) w2
      in with_stats (IncrementCurrentActiveConnections (- 1)) w3)"

definition put_counted :: "ref \<Rightarrow> world \<Rightarrow> world" where
  "put_counted r w =
     with_stats (count_idle_protocol 1 (heap w r))
       (with_stats (count_idle_version 1 (heap w r))
         (with_stats (IncrementCurrentIdleConnections 1) w))"

text \<open>What follows the checks: the connection goes into the idle channel and to a waiter.\<close>

definition put_store :: "ref \<Rightarrow> world \<Rightarrow> unit result \<times> world" where
  "put_store r w =
     (let w1 = put_prepare r w;
          p = GetProtocol (heap w1 r)
      in case chan_send r (idle_of p w1) of
           Sent ch \<Rightarrow>
             (case notifyWaitQueue r (put_counted r (set_idle p ch w1)) of
                Some (_, w2) \<Rightarrow> (Ok (), w2)
              | None \<Rightarrow> (Hang, put_counted r (set_idle p ch w1)))
         | SendBlocked \<Rightarrow> closeConnection (Some r) w1
         | SendPanic \<Rightarrow> (Panic, w1))"

definition Put :: "ref option \<Rightarrow> world \<Rightarrow> unit result \<times> world" where
  "Put conn w =
     (case conn of
        None \<Rightarrow> (Err ErrInvalidConnection, w)
      | Some r \<Rightarrow>
          if isClosed w then closeConnection (Some r) w
          else if \<not> isConnectionValid (Some r) w then closeConnection (Some r) w
          else put_store r w)"

end
