(* ===== verification/Pool_Inv.thy ===== *)
theory Pool_Inv
  imports Pool_Put
begin

text \<open>
  The invariant of the pool's bookkeeping, and its preservation by the operations of
  \<^verbatim>\<open>createConnection\<close>, \<^verbatim>\<open>closeConnection\<close> and \<^verbatim>\<open>Put\<close>. Most steps of an operation change
  only statistics, time stamps, flags of a wrapper or the trace; they are \<open>light\<close>, and a light
  step keeps everything the invariant speaks of.
\<close>

subsection \<open>Light steps\<close>

fun is_close :: "ref \<Rightarrow> event \<Rightarrow> bool" where
  "is_close r (EvClose r' _) = (r = r')"
| "is_close r _ = False"

definition closes :: "ref \<Rightarrow> event list \<Rightarrow> nat" where
  "closes r evs = length (filter (is_close r) evs)"

lemma closes_simps [simp]:
  "closes r [] = 0"
  "closes r (ev # evs) = (if is_close r ev then Suc (closes r evs) else closes r evs)"
  by (simp_all add: closes_def)

definition light :: "world \<Rightarrow> world \<Rightarrow> bool" where
  "light w w' \<longleftrightarrow>
     cfg w' = cfg w \<and> connections w' = connections w \<and> idleTCP w' = idleTCP w \<and>
     idleUDP w' = idleUDP w \<and> pool_closed w' = pool_closed w \<and> close_once w' = close_once w \<and>
     closeChan_closed w' = closeChan_closed w \<and> healthCheckManager w' = healthCheckManager w \<and>
     cleanupManager w' = cleanupManager w \<and> leakDetector w' = leakDetector w \<and>
     (\<forall>q. queue q w' = queue q w) \<and> createSemaphore w' = createSemaphore w \<and>
     next_ref w' = next_ref w \<and> generator w' = generator w \<and> waiters w' = waiters w \<and>
     next_wid w' = next_wid w \<and> books_agree (collector w') (collector w) \<and>
     (\<forall>r. same_core (heap w' r) (heap w r)) \<and>
     (\<forall>r. closes r (trace w') = closes r (trace w))"

lemma light_refl [simp]: "light w w"
  by (simp add: light_def)

lemma light_trans [trans]: "light a b \<Longrightarrow> light b c \<Longrightarrow> light a c"
  unfolding light_def by (metis same_core_trans books_agree_trans)

lemma queue_light [simp]:
  "queue q (with_stats f w) = queue q w" "queue q (upd_conn r f2 w) = queue q w"
  "queue q (emit ev w) = queue q w" "queue q (pass_time d w) = queue q w"
  "queue q (pass_until t w) = queue q w" "queue q (external w) = queue q w"
  "queue q (w\<lparr>coins := n\<rparr>) = queue q w" "queue q (w\<lparr>udpCleanupSemaphore := s\<rparr>) = queue q w"
  "queue q (w\<lparr>now := t\<rparr>) = queue q w" "queue q (w\<lparr>ext_calls := n\<rparr>) = queue q w"
  "queue q (w\<lparr>createSemaphore := s\<rparr>) = queue q w" "queue q (w\<lparr>connections := m\<rparr>) = queue q w"
  "queue q (w\<lparr>heap := h\<rparr>) = queue q w" "queue q (w\<lparr>next_ref := n\<rparr>) = queue q w"
  "queue q (w\<lparr>generator := g\<rparr>) = queue q w" "queue q (w\<lparr>waiters := ws\<rparr>) = queue q w"
  "queue q (w\<lparr>idleTCP := c\<rparr>) = queue q w" "queue q (w\<lparr>idleUDP := c\<rparr>) = queue q w"
  by (cases q; simp add: light_defs)+

lemma light_with_stats [simp]: "book_neutral f \<Longrightarrow> light w (with_stats f w') = light w w'"
  by (simp add: light_def) (simp add: with_stats_def)

lemma light_emit [simp]: "(\<And>r. \<not> is_close r ev) \<Longrightarrow> light w (emit ev w') = light w w'"
  by (simp add: light_def) (simp add: emit_def)

lemma light_time [simp]:
  "light w (pass_time d w') = light w w'" "light w (pass_until t w') = light w w'"
  "light w (external w') = light w w'"
  by (simp_all add: light_def) (simp_all add: light_defs)

lemma light_fields [simp]:
  "light w (w'\<lparr>coins := n\<rparr>) = light w w'" "light w (w'\<lparr>now := t\<rparr>) = light w w'"
  "light w (w'\<lparr>ext_calls := n\<rparr>) = light w w'" "light w (w'\<lparr>udpCleanupSemaphore := s\<rparr>) = light w w'"
  by (simp_all add: light_def)

lemma light_upd_conn:
  "(\<And>c. same_core (f c) c) \<Longrightarrow> light w w' \<Longrightarrow> light w (upd_conn r f w')"
proof -
  assume f: "\<And>c. same_core (f c) c" and l: "light w w'"
  from l have "same_core (f (heap w' r)) (heap w r)"
    by (intro same_core_trans [OF f]) (simp add: light_def)
  with l show ?thesis by (simp add: light_def) (simp add: upd_conn_def)
qed

lemma light_upd_ops [simp]:
  "light w w' \<Longrightarrow> light w (upd_conn r (MarkInUse t) w')"
  "light w w' \<Longrightarrow> light w (upd_conn r (MarkIdle t) w')"
  "light w w' \<Longrightarrow> light w (upd_conn r (UpdateHealth h t) w')"
  "light w w' \<Longrightarrow> light w (upd_conn r IncrementReuseCount w')"
  "light w w' \<Longrightarrow> light w (upd_conn r (\<lambda>c. c\<lparr>LeakDetected := b\<rparr>) w')"
  by (auto intro!: light_upd_conn)

lemma light_hooks [simp]:
  "light w (call_OnBorrow r w') = light w w'" "light w (call_OnReturn r w') = light w w'"
  by (simp_all add: call_OnBorrow_def call_OnReturn_def)

lemma book_neutral_counts [simp]:
  "book_neutral (count_idle_version d c)" "book_neutral (count_idle_protocol d c)"
  using book_neutral_ops unfolding book_neutral_def count_idle_version_def count_idle_protocol_def
  by (auto split: ip_version.split protocol.split)

lemma light_clear_nonblocking [simp]:
  "light w (ClearUDPReadBufferNonBlocking conn t m w') = light w w'"
  by (auto simp: ClearUDPReadBufferNonBlocking_def Let_def
      split: option.splits send_result.splits prod.splits)

lemma light_clear_if_udp [simp]: "light w (clear_if_udp r w') = light w w'"
  by (simp add: clear_if_udp_def Let_def)

lemma light_put_prepare [simp]: "light w w' \<Longrightarrow> light w (put_prepare r w')"
  by (simp add: put_prepare_def Let_def)

lemma light_put_counted [simp]: "light w (put_counted r w') = light w w'"
  by (simp add: put_counted_def)

lemma lightD:
  assumes "light w w'"
  shows "cfg w' = cfg w" "connections w' = connections w" "idleTCP w' = idleTCP w"
    "idleUDP w' = idleUDP w" "pool_closed w' = pool_closed w" "next_ref w' = next_ref w"
    "generator w' = generator w" "waiters w' = waiters w" "createSemaphore w' = createSemaphore w"
    "queue q w' = queue q w" "next_wid w' = next_wid w" "closes r (trace w') = closes r (trace w)"
    "same_core (heap w' r) (heap w r)" "ID (heap w' r) = ID (heap w r)"
    "Conn (heap w' r) = Conn (heap w r)" "Protocol (heap w' r) = Protocol (heap w r)"
    "IPVersion (heap w' r) = IPVersion (heap w r)" "CreatedAt (heap w' r) = CreatedAt (heap w r)"
    "closeChan_closed w' = closeChan_closed w" "close_once w' = close_once w"
    "healthCheckManager w' = healthCheckManager w" "cleanupManager w' = cleanupManager w"
    "leakDetector w' = leakDetector w"
  using assms by (auto simp: light_def same_core_def)

lemma light_books: "light w w' \<Longrightarrow> books_agree (collector w') (collector w)"
  by (simp add: light_def)

subsection \<open>The invariant\<close>

abbreviation registered :: "world \<Rightarrow> ref set" where
  "registered w \<equiv> snd ` set (connections w)"

definition ids_ok :: "world \<Rightarrow> bool" where
  "ids_ok w \<longleftrightarrow>
     (\<forall>r < next_ref w. ID (heap w r) = generator w - of_nat (next_ref w) + of_nat (Suc r))"

definition map_ok :: "world \<Rightarrow> bool" where
  "map_ok w \<longleftrightarrow>
     distinct (map fst (connections w)) \<and>
     (\<forall>k r. (k, r) \<in> set (connections w) \<longrightarrow> r < next_ref w \<and> ID (heap w r) = k)"

definition owned_ok :: "world \<Rightarrow> bool" where
  "owned_ok w \<longleftrightarrow> (\<forall>r < next_ref w. Conn (heap w r) \<noteq> None \<longrightarrow> r \<in> registered w)"

definition closes_ok :: "world \<Rightarrow> bool" where
  "closes_ok w \<longleftrightarrow>
     (\<forall>r. closes r (trace w) \<le> 1 \<and>
          (next_ref w \<le> r \<or> Conn (heap w r) \<noteq> None \<longrightarrow> closes r (trace w) = 0))"

definition idle_ok :: "world \<Rightarrow> bool" where
  "idle_ok w \<longleftrightarrow>
     chan_wf (idleTCP w) \<and> chan_wf (idleUDP w) \<and>
     chan_closed (idleTCP w) = pool_closed w \<and> chan_closed (idleUDP w) = pool_closed w \<and>
     chan_cap (idleTCP w) = nat (MaxIdleConnections (cfg w)) \<and>
     chan_cap (idleUDP w) = nat (MaxIdleConnections (cfg w)) \<and>
     (\<forall>r \<in> set (buf (idleTCP w)). r < next_ref w \<and> Protocol (heap w r) = ProtocolTCP) \<and>
     (\<forall>r \<in> set (buf (idleUDP w)). r < next_ref w \<and> Protocol (heap w r) \<noteq> ProtocolTCP)"

definition queues_ok :: "world \<Rightarrow> bool" where
  "queues_ok w \<longleftrightarrow>
     (\<forall>q. chan_closed (queue q w) = pool_closed w \<and> chan_wf (queue q w) \<and>
          (\<forall>i \<in> set (buf (queue q w)). i < next_wid w)) \<and>
     closeChan_closed w = pool_closed w \<and> close_once w = pool_closed w"

definition waiters_ok :: "world \<Rightarrow> bool" where
  "waiters_ok w \<longleftrightarrow>
     (\<forall>i wt. waiters w i = Some wt \<longrightarrow>
        i < next_wid w \<and> chan_cap (w_chan wt) = 1 \<and>
        (\<forall>r \<in> set (buf (w_chan wt)). r < next_ref w))"

definition limit_ok :: "world \<Rightarrow> bool" where
  "limit_ok w \<longleftrightarrow>
     (MaxConnections (cfg w) > 0 \<longrightarrow> int (length (connections w)) \<le> MaxConnections (cfg w))"

text \<open>
  The books of the statistics: the current connections are those of the map, and, until
  \<^verbatim>\<open>Close\<close> empties the map without telling the class counters, so are those of each class.
\<close>

definition class_count :: "conn_class \<Rightarrow> world \<Rightarrow> nat" where
  "class_count k w =
     length (filter (\<lambda>(i, r). in_class k (Protocol (heap w r)) (IPVersion (heap w r))) (connections w))"

definition books_ok :: "world \<Rightarrow> bool" where
  "books_ok w \<longleftrightarrow>
     (\<forall>s. collector w = Some s \<longrightarrow>
        CurrentConnections s = of_nat (length (connections w)) \<and>
        TotalConnectionsCreated s - TotalConnectionsClosed s = CurrentConnections s \<and>
        (\<not> pool_closed w \<longrightarrow> (\<forall>k. class_counter k s = of_nat (class_count k w))))"

definition sem_ok :: "world \<Rightarrow> bool" where
  "sem_ok w \<longleftrightarrow> createSemaphore w = make_chan 5"

definition pool_inv :: "world \<Rightarrow> bool" where
  "pool_inv w \<longleftrightarrow>
     ids_ok w \<and> map_ok w \<and> owned_ok w \<and> closes_ok w \<and> idle_ok w \<and> queues_ok w \<and>
     waiters_ok w \<and> limit_ok w \<and> books_ok w \<and> sem_ok w"

lemmas inv_defs =
  ids_ok_def map_ok_def owned_ok_def closes_ok_def idle_ok_def queues_ok_def waiters_ok_def
  limit_ok_def books_ok_def class_count_def sem_ok_def

lemma pool_invI:
  "\<lbrakk> ids_ok w; map_ok w; owned_ok w; closes_ok w; idle_ok w; queues_ok w; waiters_ok w;
     limit_ok w; books_ok w; sem_ok w \<rbrakk> \<Longrightarrow> pool_inv w"
  by (simp add: pool_inv_def)

lemma pool_invD:
  assumes "pool_inv w"
  shows "ids_ok w" "map_ok w" "owned_ok w" "closes_ok w" "idle_ok w" "queues_ok w"
    "waiters_ok w" "limit_ok w" "books_ok w" "sem_ok w"
  using assms by (simp_all add: pool_inv_def)

text \<open>A light step keeps the invariant.\<close>

lemma light_parts:
  assumes "light w w'"
  shows "ids_ok w' = ids_ok w" "map_ok w' = map_ok w" "owned_ok w' = owned_ok w"
    "closes_ok w' = closes_ok w" "idle_ok w' = idle_ok w" "queues_ok w' = queues_ok w"
    "waiters_ok w' = waiters_ok w" "limit_ok w' = limit_ok w" "sem_ok w' = sem_ok w"
    "books_ok w' = books_ok w"
proof -
  note L = lightD [OF assms]
  show "ids_ok w' = ids_ok w" "map_ok w' = map_ok w" "owned_ok w' = owned_ok w"
    "closes_ok w' = closes_ok w" "idle_ok w' = idle_ok w" "queues_ok w' = queues_ok w"
    "waiters_ok w' = waiters_ok w" "limit_ok w' = limit_ok w" "sem_ok w' = sem_ok w"
    by (simp_all add: ids_ok_def map_ok_def owned_ok_def closes_ok_def idle_ok_def queues_ok_def
        waiters_ok_def limit_ok_def sem_ok_def L)
  have "class_count k w' = class_count k w" for k by (simp add: class_count_def L)
  with books_agree_None [OF light_books [OF assms]] light_books [OF assms] show "books_ok w' = books_ok w"
    by (cases "collector w"; cases "collector w'") (simp_all add: books_ok_def books_agree_def same_books_def L)
qed

lemma light_inv: "light w w' \<Longrightarrow> pool_inv w' = pool_inv w"
  by (simp add: pool_inv_def light_parts)

subsection \<open>Identifiers name wrappers\<close>

text \<open>
  The generator is 64 bits wide: identifiers are unique as long as no more than \<open>2 ^ 64\<close> wrappers
  have been created.
\<close>

definition few :: "world \<Rightarrow> bool" where
  "few w \<longleftrightarrow> next_ref w \<le> 2 ^ 64"

lemma ID_inject:
  assumes "ids_ok w" and "few w" and "r < next_ref w" and "r' < next_ref w"
    and "ID (heap w r) = ID (heap w r')"
  shows "r = r'"
proof -
  from assms have "(of_nat r :: uint64) = of_nat r'"
    by (simp add: ids_ok_def)
  with assms show ?thesis
    by (intro of_nat_64_inject) (auto simp: few_def)
qed

lemma ID_fresh:
  assumes "ids_ok w" and "next_ref w < 2 ^ 64" and "r < next_ref w"
  shows "ID (heap w r) \<noteq> generator w + 1"
proof
  assume "ID (heap w r) = generator w + 1"
  moreover from assms(1,3)
  have "ID (heap w r) = generator w - of_nat (next_ref w) + of_nat (Suc r)"
    by (simp add: ids_ok_def)
  ultimately have "generator w - of_nat (next_ref w) + of_nat (Suc r) = generator w + 1" by simp
  then have "(of_nat r :: uint64) = of_nat (next_ref w)"
    by (simp add: algebra_simps)
  with assms have "r = next_ref w"
    by (intro of_nat_64_inject) auto
  with assms(3) show False by simp
qed

lemma map_of_ID:
  assumes "ids_ok w" "map_ok w" "few w" "r < next_ref w"
  shows "map_of (connections w) (ID (heap w r)) = (if r \<in> registered w then Some r else None)"
proof (cases "r \<in> registered w")
  case True
  then obtain k where k: "(k, r) \<in> set (connections w)" by auto
  with assms(2) have "ID (heap w r) = k" "distinct (map fst (connections w))"
    by (auto simp: map_ok_def)
  with k True show ?thesis by (simp add: map_of_is_SomeI)
next
  case False
  have "map_of (connections w) (ID (heap w r)) = None"
  proof (rule ccontr)
    assume "map_of (connections w) (ID (heap w r)) \<noteq> None"
    then obtain r' where r': "(ID (heap w r), r') \<in> set (connections w)"
      by (auto dest: map_of_SomeD)
    with assms(2) have "r' < next_ref w" "ID (heap w r') = ID (heap w r)"
      by (auto simp: map_ok_def)
    with assms have "r' = r" by (metis ID_inject)
    with r' False show False by force
  qed
  with False show ?thesis by simp
qed

lemma registered_delete:
  assumes "ids_ok w" "map_ok w" "few w" "r < next_ref w"
  shows "snd ` set (AList.delete (ID (heap w r)) (connections w)) = registered w - {r}"
proof -
  have "(k = ID (heap w r)) = (r' = r)" if "(k, r') \<in> set (connections w)" for k r'
  proof -
    from that assms(2) have "r' < next_ref w" "ID (heap w r') = k" by (auto simp: map_ok_def)
    with assms show ?thesis by (metis ID_inject)
  qed
  then show ?thesis by (force simp: AList.delete_eq)
qed

subsection \<open>\<^verbatim>\<open>closeConnection\<close>\<close>

lemma close_wrapper_frame:
  assumes "close_wrapper r w = (e, w')"
  shows "cfg w' = cfg w" "connections w' = connections w" "idleTCP w' = idleTCP w"
    "idleUDP w' = idleUDP w" "pool_closed w' = pool_closed w" "next_ref w' = next_ref w"
    "generator w' = generator w" "waiters w' = waiters w" "createSemaphore w' = createSemaphore w"
    "queue q w' = queue q w" "next_wid w' = next_wid w" "closeChan_closed w' = closeChan_closed w"
    "close_once w' = close_once w" "collector w' = collector w" "now w' = now w"
    "heap w' = (heap w)(r := fst (Connection_Close (heap w r)))"
    "closes r' (trace w') =
       closes r' (trace w) + (if r' = r \<and> Conn (heap w r) \<noteq> None then 1 else 0)"
    "healthCheckManager w' = healthCheckManager w" "cleanupManager w' = cleanupManager w"
    "leakDetector w' = leakDetector w"
  using assms Close_event_iff [of "heap w r"]
  by (auto simp: close_wrapper_def Let_def split: prod.splits option.splits)
    (auto simp: upd_conn_def emit_def)

lemma with_stats_frame [simp]:
  "cfg (with_stats f w) = cfg w" "connections (with_stats f w) = connections w"
  "idleTCP (with_stats f w) = idleTCP w" "idleUDP (with_stats f w) = idleUDP w"
  "pool_closed (with_stats f w) = pool_closed w" "next_ref (with_stats f w) = next_ref w"
  "generator (with_stats f w) = generator w" "waiters (with_stats f w) = waiters w"
  "createSemaphore (with_stats f w) = createSemaphore w" "next_wid (with_stats f w) = next_wid w"
  "closeChan_closed (with_stats f w) = closeChan_closed w" "close_once (with_stats f w) = close_once w"
  "heap (with_stats f w) = heap w" "trace (with_stats f w) = trace w" "now (with_stats f w) = now w"
  "collector (with_stats f w) = map_option (f (now w)) (collector w)"
  "healthCheckManager (with_stats f w) = healthCheckManager w"
  "cleanupManager (with_stats f w) = cleanupManager w"
  "leakDetector (with_stats f w) = leakDetector w"
  by (simp_all add: with_stats_def)

lemma upd_conn_frame [simp]:
  "cfg (upd_conn r f w) = cfg w" "connections (upd_conn r f w) = connections w"
  "idleTCP (upd_conn r f w) = idleTCP w" "idleUDP (upd_conn r f w) = idleUDP w"
  "pool_closed (upd_conn r f w) = pool_closed w" "next_ref (upd_conn r f w) = next_ref w"
  "generator (upd_conn r f w) = generator w" "waiters (upd_conn r f w) = waiters w"
  "createSemaphore (upd_conn r f w) = createSemaphore w" "next_wid (upd_conn r f w) = next_wid w"
  "closeChan_closed (upd_conn r f w) = closeChan_closed w" "close_once (upd_conn r f w) = close_once w"
  "heap (upd_conn r f w) = (heap w)(r := f (heap w r))" "trace (upd_conn r f w) = trace w"
  "now (upd_conn r f w) = now w" "collector (upd_conn r f w) = collector w"
  "healthCheckManager (upd_conn r f w) = healthCheckManager w"
  "cleanupManager (upd_conn r f w) = cleanupManager w"
  "leakDetector (upd_conn r f w) = leakDetector w"
  by (simp_all add: upd_conn_def)

text \<open>The closed wrapper: unhealthy and without its connection.\<close>

definition closed_wrapper :: "instant \<Rightarrow> connection \<Rightarrow> connection" where
  "closed_wrapper t c = fst (Connection_Close (UpdateHealth False t c))"

lemma closed_wrapper_fields [simp]:
  "Conn (closed_wrapper t c) = None" "ID (closed_wrapper t c) = ID c"
  "Protocol (closed_wrapper t c) = Protocol c" "IPVersion (closed_wrapper t c) = IPVersion c"
  "InUse (closed_wrapper t c) = InUse c" "\<not> IsHealthy (closed_wrapper t c)"
  "ReuseCount (closed_wrapper t c) = ReuseCount c"
  by (simp_all add: closed_wrapper_def)

lemma closeConnection_frame:
  assumes "closeConnection (Some r) w = (res, w')"
  shows "cfg w' = cfg w" "idleTCP w' = idleTCP w"
    "idleUDP w' = idleUDP w" "pool_closed w' = pool_closed w" "next_ref w' = next_ref w"
    "generator w' = generator w" "waiters w' = waiters w" "createSemaphore w' = createSemaphore w"
    "queue q w' = queue q w" "next_wid w' = next_wid w" "closeChan_closed w' = closeChan_closed w"
    "close_once w' = close_once w" "now w' = now w"
    "heap w' = (heap w)(r := closed_wrapper (now w) (heap w r))"
    "connections w' = AList.delete (ID (heap w r)) (connections w)"
    "closes r' (trace w') =
       closes r' (trace w) + (if r' = r \<and> Conn (heap w r) \<noteq> None then 1 else 0)"
    "collector w' = (if map_of (connections w) (ID (heap w r)) = None then collector w
       else map_option (count_live (- 1) (closed_wrapper (now w) (heap w r)) (now w) \<circ>
              IncrementTotalConnectionsClosed (now w)) (collector w))"
    "healthCheckManager w' = healthCheckManager w" "cleanupManager w' = cleanupManager w"
    "leakDetector w' = leakDetector w"
    "res = error_result (snd (snd (Connection_Close (UpdateHealth False (now w) (heap w r)))))"
proof -
  let ?w1 = "upd_conn r (UpdateHealth False (now w)) w"
  let ?ex = "map_of (connections w) (ID (heap w r)) \<noteq> None"
  let ?w2 = "if ?ex then ?w1\<lparr>connections := AList.delete (ID (heap w r)) (connections w)\<rparr> else ?w1"
  obtain e w3 where cw: "close_wrapper r ?w2 = (e, w3)" by (cases "close_wrapper r ?w2")
  from assms cw have w': "w' = (if ?ex then with_stats (count_live (- 1) (heap w3 r))
      (with_stats IncrementTotalConnectionsClosed w3) else w3)" and res: "res = error_result e"
    by (auto simp: closeConnection_def Let_def split: if_splits)
  have abs: "\<not> ?ex \<Longrightarrow> AList.delete (ID (heap w r)) (connections w) = connections w"
    by (auto simp: map_of_eq_None_iff intro!: delete_absent)
  note f = close_wrapper_frame [OF cw]
  show "cfg w' = cfg w" "idleTCP w' = idleTCP w"
    "idleUDP w' = idleUDP w" "pool_closed w' = pool_closed w" "next_ref w' = next_ref w"
    "generator w' = generator w" "waiters w' = waiters w" "createSemaphore w' = createSemaphore w"
    "queue q w' = queue q w" "next_wid w' = next_wid w" "closeChan_closed w' = closeChan_closed w"
    "close_once w' = close_once w" "now w' = now w"
    "heap w' = (heap w)(r := closed_wrapper (now w) (heap w r))"
    "connections w' = AList.delete (ID (heap w r)) (connections w)"
    "closes r' (trace w') =
       closes r' (trace w) + (if r' = r \<and> Conn (heap w r) \<noteq> None then 1 else 0)"
    "collector w' = (if map_of (connections w) (ID (heap w r)) = None then collector w
       else map_option (count_live (- 1) (closed_wrapper (now w) (heap w r)) (now w) \<circ>
              IncrementTotalConnectionsClosed (now w)) (collector w))"
    "healthCheckManager w' = healthCheckManager w" "cleanupManager w' = cleanupManager w"
    "leakDetector w' = leakDetector w"
    by (simp_all add: w' f abs closed_wrapper_def option.map_comp)
  show "res = error_result (snd (snd (Connection_Close (UpdateHealth False (now w) (heap w r)))))"
    using cw unfolding res
    by (auto simp: close_wrapper_def Let_def split: prod.splits if_splits)
qed

subsection \<open>The books under creation and closing\<close>

lemma count_live_books:
  "TotalConnectionsCreated (count_live d c t s) = TotalConnectionsCreated s"
  "TotalConnectionsClosed (count_live d c t s) = TotalConnectionsClosed s"
  "CurrentConnections (count_live d c t s) = CurrentConnections s"
  "class_counter k (count_live d c t s) =
     class_counter k s + (if in_class k (Protocol c) (IPVersion c) then d else 0)"
  by (cases k; simp add: count_live_def Let_def stats_defs split: ip_version.split protocol.split)+

lemma created_books:
  "class_counter k (IncrementTotalConnectionsCreated t s) = class_counter k s"
  "class_counter k (IncrementTotalConnectionsClosed t s) = class_counter k s"
  "TotalConnectionsCreated (IncrementTotalConnectionsCreated t s) = TotalConnectionsCreated s + 1"
  "TotalConnectionsCreated (IncrementTotalConnectionsClosed t s) = TotalConnectionsCreated s"
  "TotalConnectionsClosed (IncrementTotalConnectionsClosed t s) = TotalConnectionsClosed s + 1"
  "TotalConnectionsClosed (IncrementTotalConnectionsCreated t s) = TotalConnectionsClosed s"
  "CurrentConnections (IncrementTotalConnectionsCreated t s) = CurrentConnections s + 1"
  "CurrentConnections (IncrementTotalConnectionsClosed t s) = CurrentConnections s - 1"
  by (cases k; simp add: stats_defs)+

lemma closeConnection_books:
  assumes ids: "ids_ok w" and map: "map_ok w" and few: "few w" and r: "r < next_ref w"
    and B: "books_ok w" and c: "closeConnection (Some r) w = (res, w')"
  shows "books_ok w'"
proof -
  note f = closeConnection_frame [OF c]
  have cls: "in_class k (Protocol (heap w' x)) (IPVersion (heap w' x)) =
      in_class k (Protocol (heap w x)) (IPVersion (heap w x))" for k x
    by (simp add: f)
  note m = map_of_ID [OF ids map few r]
  show ?thesis
  proof (cases "r \<in> registered w")
    case False
    with m have "map_of (connections w) (ID (heap w r)) = None" by simp
    then have same: "connections w' = connections w" "collector w' = collector w"
      by (auto simp: f map_of_eq_None_iff intro!: delete_absent)
    have "class_count k w' = class_count k w" for k
      unfolding class_count_def cls same ..
    with B same show ?thesis by (simp add: books_ok_def f(4))
  next
    case True
    with m have k: "(ID (heap w r), r) \<in> set (connections w)" by (auto dest: map_of_SomeD)
    have d: "distinct (List.map fst (connections w))" using map by (simp add: map_ok_def)
    let ?del = "AList.delete (ID (heap w r)) (connections w)"
    have len: "length (connections w) = Suc (length ?del)"
      using length_filter_delete [OF d k, of "\<lambda>_. True"] by simp
    have cc: "class_count k w = class_count k w' +
        (if in_class k (Protocol (heap w r)) (IPVersion (heap w r)) then 1 else 0)" for k
      using length_filter_delete [OF d k, of "\<lambda>(i, r). in_class k (Protocol (heap w r)) (IPVersion (heap w r))"]
      by (simp add: class_count_def cls) (simp add: f)
    show ?thesis
    proof (cases "collector w")
      case None
      then show ?thesis by (simp add: books_ok_def f)
    next
      case (Some s)
      let ?s = "count_live (- 1) (closed_wrapper (now w) (heap w r)) (now w)
          (IncrementTotalConnectionsClosed (now w) s)"
      have c': "collector w' = Some ?s" using Some m True by (simp add: f)
      have "CurrentConnections s = of_nat (length (connections w))"
        "TotalConnectionsCreated s - TotalConnectionsClosed s = CurrentConnections s"
        "\<not> pool_closed w \<longrightarrow> (\<forall>k. class_counter k s = of_nat (class_count k w))"
        using B Some by (simp_all add: books_ok_def)
      then show ?thesis
        by (simp add: books_ok_def c' count_live_books created_books len cc f(4,15) algebra_simps)
    qed
  qed
qed

end
