(* ===== verification/Pool_Preserve.thy ===== *)
theory Pool_Preserve
  imports Pool_Inv
begin

text \<open>
  Preservation of the pool's invariant by \<^verbatim>\<open>closeConnection\<close>, \<^verbatim>\<open>createConnection\<close>,
  \<^verbatim>\<open>notifyWaitQueue\<close> and \<^verbatim>\<open>Put\<close>.
\<close>

subsection \<open>The invariant without the creation semaphore\<close>

text \<open>Inside \<^verbatim>\<open>createConnection\<close> one slot of the semaphore is taken.\<close>

definition inv_core :: "world \<Rightarrow> bool" where
  "inv_core w \<longleftrightarrow>
     ids_ok w \<and> map_ok w \<and> owned_ok w \<and> closes_ok w \<and> idle_ok w \<and> queues_ok w \<and>
     waiters_ok w \<and> limit_ok w \<and> books_ok w"

lemma pool_inv_core: "pool_inv w \<longleftrightarrow> inv_core w \<and> sem_ok w"
  by (auto simp: pool_inv_def inv_core_def)

lemma light_inv_core: "light w w' \<Longrightarrow> inv_core w' = inv_core w"
  by (simp add: inv_core_def light_parts)

lemma inv_core_sem [simp]: "inv_core (w\<lparr>createSemaphore := s\<rparr>) = inv_core w"
  by (simp add: inv_core_def inv_defs)

subsection \<open>\<^verbatim>\<open>closeConnection\<close>\<close>

lemma closeConnection_inv_core:
  assumes I: "inv_core w" and few: "few w" and r: "r < next_ref w"
    and c: "closeConnection (Some r) w = (res, w')"
  shows "inv_core w'"
proof -
  note f = closeConnection_frame [OF c]
  from I have ids: "ids_ok w" and map: "map_ok w" and own: "owned_ok w" and cl: "closes_ok w"
    and idle: "idle_ok w" and q: "queues_ok w" and ws: "waiters_ok w" and lim: "limit_ok w"
    and B: "books_ok w"
    by (simp_all add: inv_core_def)
  have reg: "registered w' = registered w - {r}"
    using registered_delete [OF ids map few r] by (simp add: f)
  have "ids_ok w'" using ids by (simp add: ids_ok_def f)
  moreover have "map_ok w'"
    using map by (auto simp: map_ok_def f AList.delete_eq distinct_map_filter)
  moreover have "owned_ok w'"
    using own reg by (auto simp: owned_ok_def f)
  moreover have "closes_ok w'" using cl r by (auto simp: closes_ok_def f)
  moreover have "idle_ok w'" using idle by (auto simp: idle_ok_def f)
  moreover have "queues_ok w'" using q by (simp add: queues_ok_def f)
  moreover have "waiters_ok w'" using ws by (simp add: waiters_ok_def f)
  moreover have "limit_ok w'"
    using lim AList.length_delete_le [of "ID (heap w r)" "connections w"]
    by (auto simp: limit_ok_def f)
  moreover have "books_ok w'" by (rule closeConnection_books [OF ids map few r B c])
  ultimately show ?thesis by (simp add: inv_core_def)
qed

lemma closeConnection_inv:
  assumes "pool_inv w" and "few w" and "r < next_ref w"
    and "closeConnection (Some r) w = (res, w')"
  shows "pool_inv w'"
  using assms closeConnection_inv_core [of w r res w']
  by (auto simp: pool_inv_core sem_ok_def closeConnection_frame(8) [OF assms(4)])

text \<open>Closing takes exactly the wrapper out of the map.\<close>

lemma closeConnection_registered:
  assumes "ids_ok w" "map_ok w" "few w" "r < next_ref w"
    and "closeConnection (Some r) w = (res, w')"
  shows "registered w' = registered w - {r}"
  using registered_delete [OF assms(1-4)] by (simp add: closeConnection_frame [OF assms(5)])

subsection \<open>\<^verbatim>\<open>createConnection\<close>\<close>

lemma ask_light [simp]: "ask f w = (p, w') \<Longrightarrow> light w w'"
  by (auto simp: ask_def Let_def)

lemma ask_default_acceptor_light [simp]: "ask_default_acceptor c l w = (p, w') \<Longrightarrow> light w w'"
  by (auto simp: ask_default_acceptor_def flip_def Let_def)

lemma create_dial_light: "create_dial c w = (res, w') \<Longrightarrow> light w w'"
  by (auto simp: create_dial_def Let_def split: pool_mode.splits option.splits acceptor.splits
      dest!: sym [of "(_, _)"] intro: ask_light ask_default_acceptor_light)

lemma allocate_inv_core:
  assumes I: "inv_core w" and few: "next_ref w < 2 ^ 64" and a: "allocate conn w = (r, w1)"
  shows "ids_ok w1" "map_ok w1" "closes_ok w1" "idle_ok w1" "queues_ok w1" "waiters_ok w1"
    "limit_ok w1" "r = next_ref w" "next_ref w1 = Suc r" "connections w1 = connections w"
    "cfg w1 = cfg w" "ID (heap w1 r) = generator w + 1" "ID (heap w1 r) \<notin> fst ` set (connections w1)"
    "\<forall>r' < r. Conn (heap w1 r') \<noteq> None \<longrightarrow> r' \<in> registered w1" "books_ok w1"
proof -
  let ?c = "NewConnection (generator w) (now w) conn (map_option (createCloseFunc (cfg w)) conn)"
  from a have r: "r = next_ref w" and w1: "w1 = w\<lparr>heap := (heap w)(r := ?c),
      next_ref := Suc r, generator := generator w + 1\<rparr>"
    by (auto simp: allocate_def Let_def)
  from I have ids: "ids_ok w" and map: "map_ok w" and own: "owned_ok w" and cl: "closes_ok w"
    and idle: "idle_ok w" and q: "queues_ok w" and ws: "waiters_ok w" and lim: "limit_ok w"
    and B: "books_ok w"
    by (simp_all add: inv_core_def)
  show "r = next_ref w" by (rule r)
  show "next_ref w1 = Suc r" "connections w1 = connections w" "cfg w1 = cfg w"
    "ID (heap w1 r) = generator w + 1"
    by (simp_all add: w1 NewConnection_def)
  show "ids_ok w1"
    using ids by (auto simp: ids_ok_def w1 r less_Suc_eq NewConnection_def algebra_simps)
  show "map_ok w1" using map by (auto simp: map_ok_def w1 r intro: less_SucI)
  show "closes_ok w1" using cl by (auto simp: closes_ok_def w1 r)
  show "idle_ok w1" using idle by (auto simp: idle_ok_def w1 r)
  show "queues_ok w1" using q by (simp add: queues_ok_def w1)
  show "waiters_ok w1" using ws by (fastforce simp: waiters_ok_def w1 r)
  show "limit_ok w1" using lim by (simp add: limit_ok_def w1)
  show "ID (heap w1 r) \<notin> fst ` set (connections w1)"
  proof
    assume "ID (heap w1 r) \<in> fst ` set (connections w1)"
    then obtain r' where "(generator w + 1, r') \<in> set (connections w)"
      by (auto simp: w1 NewConnection_def)
    with map have "r' < next_ref w" "ID (heap w r') = generator w + 1" by (auto simp: map_ok_def)
    with ID_fresh [OF ids few] show False by blast
  qed
  show "\<forall>r' < r. Conn (heap w1 r') \<noteq> None \<longrightarrow> r' \<in> registered w1"
    using own by (auto simp: owned_ok_def w1 r)
  have "class_count k w1 = class_count k w" for k
  proof -
    have "x < next_ref w" if "(i, x) \<in> set (connections w)" for i x
      using map that by (auto simp: map_ok_def)
    then show ?thesis unfolding class_count_def
      by (intro arg_cong [where f = length] filter_cong) (auto simp: w1 r)
  qed
  with B show "books_ok w1" by (simp add: books_ok_def) (simp add: w1)
qed

lemma create_publish_inv_core:
  assumes I: "inv_core w" and few: "next_ref w < 2 ^ 64"
    and chk: "MaxConnections (cfg w) > 0 \<longrightarrow> int (length (connections w)) < MaxConnections (cfg w)"
    and p: "create_publish conn w = (r, w')"
  shows "inv_core w'" and "r = next_ref w" and "next_ref w' = Suc (next_ref w)"
    and "connections w' = connections w @ [(generator w + 1, r)]"
    and "Conn (heap w' r) = conn" and "Protocol (heap w' r) = DetectProtocol conn"
    and "IPVersion (heap w' r) = DetectIPVersion conn"
proof -
  obtain r0 w1 where a: "allocate conn w = (r0, w1)" by (cases "allocate conn w")
  let ?w2 = "clear_if_udp r0 w1"
  let ?w3 = "?w2\<lparr>connections := AList.update (ID (heap ?w2 r0)) r0 (connections ?w2)\<rparr>"
  from p a have r: "r = r0" and w': "w' = with_stats (count_live 1 (heap ?w3 r0))
      (with_stats IncrementTotalConnectionsCreated ?w3)"
    by (auto simp: create_publish_def Let_def)
  note A = allocate_inv_core [OF I few a]
  have L: "light w1 ?w2" by simp
  note Ld = lightD [OF L]
  have upd: "AList.update (generator w + 1) r0 (connections w) =
      connections w @ [(generator w + 1, r0)]"
    using A(10,12,13) by (simp add: set_update_new)
  have "ids_ok ?w3"
    using A(1) light_parts(1) [OF L] by (simp add: ids_ok_def)
  moreover have "map_ok ?w3"
    using A(2,13) by (auto simp: map_ok_def upd Ld A(9,10,12))
  moreover have "owned_ok ?w3"
    using A(14) by (auto simp: owned_ok_def upd Ld A(9,10,12) less_Suc_eq)
  moreover have "closes_ok ?w3" using A(3) light_parts(4) [OF L] by (simp add: closes_ok_def)
  moreover have "idle_ok ?w3" using A(4) light_parts(5) [OF L] by (simp add: idle_ok_def)
  moreover have "queues_ok ?w3" using A(5) light_parts(6) [OF L] by (simp add: queues_ok_def)
  moreover have "waiters_ok ?w3" using A(6) light_parts(7) [OF L] by (simp add: waiters_ok_def)
  moreover have "limit_ok ?w3" using chk by (auto simp: limit_ok_def upd Ld A(10,11,12))
  moreover note parts = calculation
  have same: "cfg w' = cfg ?w3" "connections w' = connections ?w3" "idleTCP w' = idleTCP ?w3"
    "idleUDP w' = idleUDP ?w3" "pool_closed w' = pool_closed ?w3" "close_once w' = close_once ?w3"
    "closeChan_closed w' = closeChan_closed ?w3" "next_ref w' = next_ref ?w3"
    "generator w' = generator ?w3" "waiters w' = waiters ?w3" "next_wid w' = next_wid ?w3"
    "heap w' = heap ?w3" "trace w' = trace ?w3" "\<And>q. queue q w' = queue q ?w3"
    by (simp_all add: w')
  have "ids_ok w' = ids_ok ?w3" "map_ok w' = map_ok ?w3" "owned_ok w' = owned_ok ?w3"
    "closes_ok w' = closes_ok ?w3" "idle_ok w' = idle_ok ?w3" "queues_ok w' = queues_ok ?w3"
    "waiters_ok w' = waiters_ok ?w3" "limit_ok w' = limit_ok ?w3"
    unfolding ids_ok_def map_ok_def owned_ok_def closes_ok_def idle_ok_def queues_ok_def
        waiters_ok_def limit_ok_def same by (rule refl)+
  with parts have old: "ids_ok w'" "map_ok w'" "owned_ok w'" "closes_ok w'" "idle_ok w'" "queues_ok w'"
    "waiters_ok w'" "limit_ok w'" by blast+
  have "books_ok w'"
  proof -
    have B: "books_ok ?w2" using A(15) light_parts(10) [OF L] by simp
    have cc: "class_count k w' = class_count k ?w2 +
        (if in_class k (Protocol (heap ?w2 r0)) (IPVersion (heap ?w2 r0)) then 1 else 0)" for k
      by (simp add: class_count_def same(2,12) upd Ld A(10,12))
    show ?thesis
    proof (cases "collector ?w2")
      case None
      then show ?thesis by (simp add: books_ok_def w')
    next
      case (Some s)
      have "CurrentConnections s = of_nat (length (connections ?w2))"
        "TotalConnectionsCreated s - TotalConnectionsClosed s = CurrentConnections s"
        "\<not> pool_closed ?w2 \<longrightarrow> (\<forall>k. class_counter k s = of_nat (class_count k ?w2))"
        using B Some by (simp_all add: books_ok_def)
      moreover have "collector w' = Some (count_live 1 (heap ?w2 r0) (now ?w2)
          (IncrementTotalConnectionsCreated (now ?w2) s))"
        using Some by (simp add: w')
      moreover have "length (connections w') = Suc (length (connections ?w2))"
        by (simp add: same(2) upd Ld A(10,12))
      ultimately show ?thesis
        by (simp add: books_ok_def cc count_live_books created_books same(5) algebra_simps)
    qed
  qed
  with old show "inv_core w'" by (simp add: inv_core_def)
  show "r = next_ref w" by (simp add: r A(8))
  show "next_ref w' = Suc (next_ref w)" by (simp add: w' Ld A(9)) (rule A(8))
  show "connections w' = connections w @ [(generator w + 1, r)]"
    by (simp add: w' r Ld A(10,12) upd)
  have new: "heap w1 r0 = NewConnection (generator w) (now w) conn
      (map_option (createCloseFunc (cfg w)) conn)"
    using a by (auto simp: allocate_def Let_def)
  show "Conn (heap w' r) = conn" "Protocol (heap w' r) = DetectProtocol conn"
    "IPVersion (heap w' r) = DetectIPVersion conn"
    by (simp_all add: w' r Ld new NewConnection_def)
qed

lemma light_sem:
  assumes "light w w'"
  shows "light (w\<lparr>createSemaphore := s\<rparr>) (w'\<lparr>createSemaphore := s\<rparr>)"
  using assms by (simp add: light_def)

definition one_slot_taken :: "unit chan" where
  "one_slot_taken = (make_chan 5)\<lparr>buf := [()]\<rparr>"

lemma create_acquire_cases:
  assumes S: "sem_ok w" and a: "create_acquire c w = (res, w')"
  obtains (slot) n where "res = Ok ()" "w' = w\<lparr>coins := n, createSemaphore := one_slot_taken\<rparr>"
  | (gone) "res = Err (ctx_err c)" "light w w'" "ctx_done c (now w)"
proof (cases "coin w (coins w) \<or> \<not> ctx_done c (now w)")
  case True
  with S a have "\<exists>n. res = Ok () \<and> w' = w\<lparr>coins := n, createSemaphore := one_slot_taken\<rparr>"
    by (auto simp: create_acquire_def sem_ok_def chan_send_def make_chan_def flip_def
        one_slot_taken_def split: if_splits intro: exI [where x = "coins w"] exI [where x = "Suc (coins w)"])
  then show thesis using slot by auto
next
  case False
  with S a have "res = Err (ctx_err c)" "w' = w\<lparr>coins := Suc (coins w)\<rparr>" "ctx_done c (now w)"
    by (auto simp: create_acquire_def sem_ok_def chan_send_def make_chan_def flip_def split: if_splits)
  then show thesis using gone by auto
qed

lemma create_release_one [simp]:
  "createSemaphore w = one_slot_taken \<Longrightarrow>
     create_release w = w\<lparr>createSemaphore := make_chan 5\<rparr>"
  by (simp add: create_release_def one_slot_taken_def chan_recv_def make_chan_def)

lemma create_body_cases:
  assumes "create_body c w = (res, w')"
  obtains (failed) "\<not> is_Ok res" "light w w'"
  | (created) nc w1 r where "res = Ok (Some r)" "create_check w = None"
      "create_dial c w = (Ok nc, w1)" "light w w1" "create_publish nc w1 = (r, w')"
proof (cases "create_check w")
  case (Some e)
  with assms show thesis by (intro failed) (auto simp: create_body_def)
next
  case None
  obtain d w1 where d: "create_dial c w = (d, w1)" by (cases "create_dial c w")
  then have L: "light w w1" by (rule create_dial_light)
  show thesis
  proof (cases d)
    case (Ok nc)
    obtain r w2 where "create_publish nc w1 = (r, w2)" by (cases "create_publish nc w1")
    with None d Ok L assms show thesis by (intro created) (auto simp: create_body_def)
  qed (use None d L assms in \<open>auto simp: create_body_def intro: failed\<close>)
qed

lemma create_publish_sem:
  "create_publish nc w = (r, w') \<Longrightarrow> createSemaphore w' = createSemaphore w"
  by (auto simp: create_publish_def allocate_def Let_def
      lightD(9) [OF iffD2 [OF light_clear_if_udp light_refl]])

lemma createConnection_cases:
  assumes S: "sem_ok w" and c: "createConnection c w = (res, w')"
  obtains (failed) "\<not> is_Ok res" "light w w'"
  | (created) r nc w1 w2 where "res = Ok (Some r)" "light w w1" "create_check w1 = None"
      "create_publish nc (w1\<lparr>createSemaphore := one_slot_taken\<rparr>) = (r, w2)"
      "w' = w2\<lparr>createSemaphore := make_chan 5\<rparr>"
proof -
  obtain a wa where a: "create_acquire c w = (a, wa)" by (cases "create_acquire c w")
  from S a show thesis
  proof (cases rule: create_acquire_cases)
    case gone
    with a c show thesis by (intro failed) (auto simp: createConnection_def)
  next
    case (slot n)
    obtain b wb where b: "create_body c wa = (b, wb)" by (cases "create_body c wa")
    with a slot c have r: "res = b" "w' = create_release wb" by (auto simp: createConnection_def)
    have same: "wd\<lparr>createSemaphore := make_chan 5\<rparr> = wd" if "createSemaphore wd = make_chan 5" for wd :: world
      using that by simp
    from b show thesis
    proof (cases rule: create_body_cases)
      case failed
      with slot have "createSemaphore wb = one_slot_taken" by (simp add: lightD(9))
      moreover have "light w (wb\<lparr>createSemaphore := make_chan 5\<rparr>)"
        using light_sem [OF failed(2), of "make_chan 5"] S slot
        by (simp add: light_def sem_ok_def)
      ultimately show thesis using r failed(1) by (intro that(1)) simp_all
    next
      case (created nc w1 r')
      let ?w1 = "w1\<lparr>createSemaphore := make_chan 5\<rparr>"
      from created(4) slot have s1: "createSemaphore w1 = one_slot_taken" by (simp add: lightD(9))
      with created(5) have s2: "createSemaphore wb = one_slot_taken" by (simp add: create_publish_sem)
      have L: "light w ?w1"
        using light_sem [OF created(4), of "make_chan 5"] S slot
        by (simp add: light_def sem_ok_def)
      have chk: "create_check ?w1 = None"
        using created(2,4) by (auto simp: create_check_def isClosed_def lightD [OF created(4)] split: if_splits)
      have "?w1\<lparr>createSemaphore := one_slot_taken\<rparr> = w1" using s1 by simp
      with created r s2 L chk show thesis
        by (intro that(2) [of r' ?w1 nc wb]) simp_all
    qed
  qed
qed

lemma createConnection_inv:
  assumes I: "pool_inv w" and c: "createConnection c w = (res, w')" and few: "few w'"
  shows "pool_inv w'"
proof -
  from I have S: "sem_ok w" by (rule pool_invD)
  from S c show ?thesis
  proof (cases rule: createConnection_cases)
    case failed
    then show ?thesis using I light_inv by blast
  next
    case (created r nc w1 w2)
    let ?ws = "w1\<lparr>createSemaphore := one_slot_taken\<rparr>"
    have I1: "inv_core ?ws" using I light_inv_core [OF created(2)] by (simp add: pool_inv_core)
    have nr: "next_ref w2 = Suc (next_ref ?ws)"
      using created(4) by (auto simp: create_publish_def allocate_def Let_def
          lightD(6) [OF iffD2 [OF light_clear_if_udp light_refl]])
    with few created(5) have f: "next_ref ?ws < 2 ^ 64" by (simp add: few_def)
    have chk: "MaxConnections (cfg ?ws) > 0 \<longrightarrow>
        int (length (connections ?ws)) < MaxConnections (cfg ?ws)"
      using created(3) by (auto simp: create_check_def split: if_splits)
    from create_publish_inv_core(1) [OF I1 f chk created(4)] created(5)
    show ?thesis by (simp add: pool_inv_core sem_ok_def)
  qed
qed

subsection \<open>Notifying waiting goroutines\<close>

definition only_queues :: "world \<Rightarrow> world \<Rightarrow> bool" where
  "only_queues w w' \<longleftrightarrow>
     (\<exists>a b c d e f. w' = w\<lparr>waiters := a, waitQueue := b, waitQueueIPv4 := c, waitQueueIPv6 := d,
                       waitQueueTCP := e, waitQueueUDP := f\<rparr>)"

lemma only_queues_refl [simp]: "only_queues w w"
  unfolding only_queues_def
  by (intro exI [of _ "waiters w"] exI [of _ "waitQueue w"] exI [of _ "waitQueueIPv4 w"]
      exI [of _ "waitQueueIPv6 w"] exI [of _ "waitQueueTCP w"] exI [of _ "waitQueueUDP w"]) simp

lemma only_queues_trans: "only_queues a b \<Longrightarrow> only_queues b c \<Longrightarrow> only_queues a c"
  unfolding only_queues_def by (elim exE) (simp, blast)

lemma only_queuesE:
  assumes "only_queues w w'"
  obtains a b e d f g where "w' = w\<lparr>waiters := a, waitQueue := b, waitQueueIPv4 := e,
      waitQueueIPv6 := d, waitQueueTCP := f, waitQueueUDP := g\<rparr>"
  using assms unfolding only_queues_def by blast

lemma only_queuesI:
  "w' = w\<lparr>waiters := a, waitQueue := b, waitQueueIPv4 := e, waitQueueIPv6 := d,
     waitQueueTCP := f, waitQueueUDP := g\<rparr> \<Longrightarrow> only_queues w w'"
  unfolding only_queues_def by blast

lemma only_queues_set_queue:
  assumes "only_queues w w'"
  shows "only_queues w (set_queue q c w')"
proof -
  from assms obtain a b e d f g where w': "w' = w\<lparr>waiters := a, waitQueue := b,
      waitQueueIPv4 := e, waitQueueIPv6 := d, waitQueueTCP := f, waitQueueUDP := g\<rparr>"
    by (rule only_queuesE)
  show ?thesis
    by (rule only_queuesI [where a = a and b = "if q = QAny then c else b"
          and e = "if q = QIPv4 then c else e" and d = "if q = QIPv6 then c else d"
          and f = "if q = QTCP then c else f" and g = "if q = QUDP then c else g"])
      (cases q; simp add: w')
qed

lemma only_queues_waiters:
  assumes "only_queues w w'"
  shows "only_queues w (w'\<lparr>waiters := ws\<rparr>)"
proof -
  from assms obtain a b e d f g where w': "w' = w\<lparr>waiters := a, waitQueue := b,
      waitQueueIPv4 := e, waitQueueIPv6 := d, waitQueueTCP := f, waitQueueUDP := g\<rparr>"
    by (rule only_queuesE)
  show ?thesis by (rule only_queuesI [where a = ws and b = b and e = e and d = d and f = f and g = g]) (simp add: w')
qed

lemma only_queuesD:
  assumes "only_queues w w'"
  shows "cfg w' = cfg w" "connections w' = connections w" "idleTCP w' = idleTCP w"
    "idleUDP w' = idleUDP w" "pool_closed w' = pool_closed w" "next_ref w' = next_ref w"
    "generator w' = generator w" "createSemaphore w' = createSemaphore w"
    "next_wid w' = next_wid w" "trace w' = trace w" "heap w' = heap w" "now w' = now w"
    "closeChan_closed w' = closeChan_closed w" "close_once w' = close_once w"
    "collector w' = collector w" "healthCheckManager w' = healthCheckManager w"
    "cleanupManager w' = cleanupManager w" "leakDetector w' = leakDetector w"
  using assms unfolding only_queues_def by (elim exE; simp)+

lemma queue_set_queue [simp]:
  "queue q (set_queue q' c w) = (if q = q' then c else queue q w)"
  by (cases q; cases q') auto

lemma waiters_set_queue [simp]: "waiters (set_queue q c w) = waiters w"
  by (cases q) auto

lemma inv_core_queues:
  assumes "only_queues w w'" "inv_core w" "queues_ok w'" "waiters_ok w'"
  shows "inv_core w'"
proof -
  note d = only_queuesD [OF assms(1)]
  have "ids_ok w' = ids_ok w" "map_ok w' = map_ok w" "owned_ok w' = owned_ok w"
    "closes_ok w' = closes_ok w" "idle_ok w' = idle_ok w" "limit_ok w' = limit_ok w"
    "books_ok w' = books_ok w"
    by (simp_all add: ids_ok_def map_ok_def owned_ok_def closes_ok_def idle_ok_def limit_ok_def
        books_ok_def class_count_def d)
  with assms(2-) show ?thesis by (simp add: inv_core_def)
qed

lemma offer_only_queues: "offer i r w = (b, w') \<Longrightarrow> only_queues w w'"
  by (auto simp: offer_def split: option.splits send_result.splits intro!: only_queues_waiters)

lemma offer_queue: "offer i r w = (b, w') \<Longrightarrow> queue q w' = queue q w"
  by (auto simp: offer_def split: option.splits send_result.splits)

lemma offer_waiters_ok:
  "offer i r w = (b, w') \<Longrightarrow> waiters_ok w \<Longrightarrow> r < next_ref w \<Longrightarrow> waiters_ok w'"
  by (auto simp: offer_def waiters_ok_def chan_cases split: option.splits send_result.splits if_splits)

text \<open>A waiter that gets the connection: its empty, open channel now holds it.\<close>

lemma offer_True:
  "offer i r w = (True, w') \<longleftrightarrow>
     (\<exists>wt ch. waiters w i = Some wt \<and> chan_send r (w_chan wt) = Sent ch \<and>
        w' = w\<lparr>waiters := (waiters w)(i \<mapsto> wt\<lparr>w_chan := ch\<rparr>)\<rparr>)"
  by (auto simp: offer_def split: option.splits send_result.splits)

lemma offer_False: "offer i r w = (False, w') \<Longrightarrow> w' = w"
  by (auto simp: offer_def split: option.splits send_result.splits)

text \<open>On an open queue the loop ends, after at most as many rounds as the queue is long.\<close>

lemma notify_specific:
  assumes "inv_core w" "r < next_ref w" "\<not> pool_closed w"
  shows "\<exists>b w'. notifySpecificWaitQueue q r w = Some (b, w') \<and> only_queues w w' \<and> inv_core w'"
  using assms
proof (induction "length (buf (queue q w))" arbitrary: w)
  case 0
  then have "chan_recv (queue q w) = RecvBlocked"
    by (auto simp: chan_cases inv_core_def queues_ok_def)
  then have "notifySpecificWaitQueue q r w = Some (False, w)"
    by (subst notifySpecificWaitQueue.simps) simp
  with "0.prems" show ?case by auto
next
  case (Suc n)
  from Suc(2) obtain i js where b: "buf (queue q w) = i # js"
    by (cases "buf (queue q w)") auto
  let ?q' = "(queue q w)\<lparr>buf := js\<rparr>"
  let ?w1 = "set_queue q ?q' w"
  have rc: "chan_recv (queue q w) = Received i ?q'" using b by (simp add: chan_cases)
  obtain sent w2 where o: "offer i r ?w1 = (sent, w2)" by (cases "offer i r ?w1")
  have oq1: "only_queues w ?w1" by (simp add: only_queues_set_queue)
  have oq2: "only_queues w w2" using only_queues_trans [OF oq1 offer_only_queues [OF o]] .
  from Suc.prems(1) have qs: "queues_ok w" and ws: "waiters_ok w" by (simp_all add: inv_core_def)
  from ws have "waiters_ok ?w1" by (simp add: waiters_ok_def only_queuesD [OF oq1])
  then have "waiters_ok w2"
    using offer_waiters_ok [OF o] Suc.prems(2) by (simp add: only_queuesD [OF oq1])
  moreover have "queues_ok w2"
  proof -
    from qs b have "length (i # js) \<le> chan_cap (queue q w)" "\<forall>x \<in> set (i # js). x < next_wid w"
      by (simp_all add: queues_ok_def chan_wf_def flip: b)
    with qs show ?thesis
      by (simp add: queues_ok_def offer_queue [OF o] only_queuesD [OF oq2] chan_wf_def)
  qed
  ultimately have I2: "inv_core w2" using inv_core_queues [OF oq2] Suc.prems(1) by blast
  have step: "notifySpecificWaitQueue q r w =
      (if sent then Some (True, w2) else notifySpecificWaitQueue q r w2)"
    by (subst notifySpecificWaitQueue.simps) (simp add: rc o)
  show ?case
  proof (cases sent)
    case True
    with step oq2 I2 show ?thesis by auto
  next
    case False
    have "\<exists>b w'. notifySpecificWaitQueue q r w2 = Some (b, w') \<and> only_queues w2 w' \<and> inv_core w'"
      using Suc(2) b Suc.prems I2
      by (intro Suc.hyps(1)) (simp_all add: offer_queue [OF o] only_queuesD [OF oq2])
    then show ?thesis using step False only_queues_trans [OF oq2] by auto
  qed
qed

text \<open>On a closed queue that holds nobody it does not end.\<close>

lemma notify_closed_hangs:
  assumes "buf (queue q w) = []" and "chan_closed (queue q w)"
  shows "notifySpecificWaitQueue q r w = None"
proof (rule ccontr)
  assume "notifySpecificWaitQueue q r w \<noteq> None"
  then obtain y where y: "notifySpecificWaitQueue q r w = Some y" by blast
  have "\<not> (buf (queue q w) = [] \<and> chan_closed (queue q w))"
  proof (rule notifySpecificWaitQueue.raw_induct
      [where P = "\<lambda>q r w _. \<not> (buf (queue q w) = [] \<and> chan_closed (queue q w))", OF _ y])
    fix f q r w y
    assume IH: "\<And>q r w y. f q r w = Some y \<Longrightarrow> \<not> (buf (queue q w) = [] \<and> chan_closed (queue q w))"
      and eq: "(case chan_recv (queue q w) of Received i q' \<Rightarrow>
            (case offer i r (set_queue q q' w) of (sent, w1) \<Rightarrow>
               if sent then Some (True, w1) else f q r w1)
          | RecvZero \<Rightarrow> f q r w | RecvBlocked \<Rightarrow> Some (False, w)) = Some y"
    show "\<not> (buf (queue q w) = [] \<and> chan_closed (queue q w))"
    proof
      assume a: "buf (queue q w) = [] \<and> chan_closed (queue q w)"
      then have "chan_recv (queue q w) = RecvZero" by (simp add: chan_cases)
      with eq have "f q r w = Some y" by simp
      with IH a show False by blast
    qed
  qed
  with assms show False by blast
qed

lemma notify:
  assumes "inv_core w" "r < next_ref w" "\<not> pool_closed w"
  shows "\<exists>b w'. notifyWaitQueue r w = Some (b, w') \<and> only_queues w w' \<and> inv_core w'"
proof -
  let ?good = "\<lambda>f. \<forall>w. inv_core w \<and> r < next_ref w \<and> \<not> pool_closed w \<longrightarrow>
      (\<exists>b w'. f w = Some (b, w') \<and> only_queues w w' \<and> inv_core w')"
  have spec: "?good (notifySpecificWaitQueue q r)" for q using notify_specific by blast
  have skip: "?good (\<lambda>w. Some (False, w))" by auto
  have or: "?good (or_else f g)" if f: "?good f" and g: "?good g" for f g
  proof (intro allI impI)
    fix w assume w: "inv_core w \<and> r < next_ref w \<and> \<not> pool_closed w"
    with f obtain b w1 where 1: "f w = Some (b, w1)" "only_queues w w1" "inv_core w1" by blast
    show "\<exists>b w'. or_else f g w = Some (b, w') \<and> only_queues w w' \<and> inv_core w'"
    proof (cases b)
      case True
      with 1 show ?thesis by (auto simp: or_else_def intro: exI [of _ True])
    next
      case False
      from 1 w have "inv_core w1 \<and> r < next_ref w1 \<and> \<not> pool_closed w1"
        by (simp add: only_queuesD [OF 1(2)])
      with g obtain b' w2 where "g w1 = Some (b', w2)" "only_queues w1 w2" "inv_core w2" by blast
      with 1 False only_queues_trans [OF 1(2)] show ?thesis by (auto simp: or_else_def)
    qed
  qed
  have "?good (\<lambda>w'. or_else
      (if P = ProtocolTCP then notifySpecificWaitQueue QTCP r
       else if P = ProtocolUDP then notifySpecificWaitQueue QUDP r else (\<lambda>w. Some (False, w)))
      (or_else (if V = IPVersionIPv4 then notifySpecificWaitQueue QIPv4 r
        else if V = IPVersionIPv6 then notifySpecificWaitQueue QIPv6 r else (\<lambda>w. Some (False, w)))
        (notifySpecificWaitQueue QAny r)) w')" for P V
    by (intro or) (auto simp: spec skip)
  with assms show ?thesis by (simp add: notifyWaitQueue_def Let_def)
qed

subsection \<open>\<^verbatim>\<open>Put\<close>\<close>

lemma set_idle_fields [simp]:
  "cfg (set_idle p c w) = cfg w" "connections (set_idle p c w) = connections w"
  "pool_closed (set_idle p c w) = pool_closed w" "next_ref (set_idle p c w) = next_ref w"
  "generator (set_idle p c w) = generator w" "waiters (set_idle p c w) = waiters w"
  "createSemaphore (set_idle p c w) = createSemaphore w" "next_wid (set_idle p c w) = next_wid w"
  "closeChan_closed (set_idle p c w) = closeChan_closed w"
  "close_once (set_idle p c w) = close_once w" "heap (set_idle p c w) = heap w"
  "trace (set_idle p c w) = trace w" "now (set_idle p c w) = now w"
  "collector (set_idle p c w) = collector w" "queue q (set_idle p c w) = queue q w"
  "idleTCP (set_idle p c w) = (if p = ProtocolTCP then c else idleTCP w)"
  "idleUDP (set_idle p c w) = (if p = ProtocolTCP then idleUDP w else c)"
  "healthCheckManager (set_idle p c w) = healthCheckManager w"
  "cleanupManager (set_idle p c w) = cleanupManager w"
  "leakDetector (set_idle p c w) = leakDetector w"
  by (simp_all add: set_idle_def)

lemma set_idle_inv_core:
  assumes I: "inv_core w" and r: "r < next_ref w"
    and s: "chan_send r (idle_of (Protocol (heap w r)) w) = Sent ch"
  shows "inv_core (set_idle (Protocol (heap w r)) ch w)"
proof -
  let ?w = "set_idle (Protocol (heap w r)) ch w"
  have "ids_ok ?w = ids_ok w" "map_ok ?w = map_ok w" "owned_ok ?w = owned_ok w"
    "closes_ok ?w = closes_ok w" "queues_ok ?w = queues_ok w" "waiters_ok ?w = waiters_ok w"
    "limit_ok ?w = limit_ok w" "books_ok ?w = books_ok w"
    by (simp_all add: ids_ok_def map_ok_def owned_ok_def closes_ok_def queues_ok_def
        waiters_ok_def limit_ok_def books_ok_def class_count_def)
  moreover from I have "idle_ok w" by (simp add: inv_core_def)
  with s r have "idle_ok ?w"
    by (auto simp: idle_ok_def idle_of_def chan_cases chan_wf_def split: if_splits)
  ultimately show ?thesis using I by (simp add: inv_core_def)
qed

text \<open>The ways \<^verbatim>\<open>Put\<close> can go, given the invariant.\<close>

lemma Put_cases:
  assumes I: "inv_core w" and r: "r < next_ref w" and p: "Put (Some r) w = (res, w')"
  obtains (closed) "pool_closed w \<or> \<not> isConnectionValid (Some r) w"
      "closeConnection (Some r) w = (res, w')"
  | (full) "\<not> pool_closed w" "isConnectionValid (Some r) w"
      "chan_cap (idle_of (Protocol (heap w r)) w) \<le> length (buf (idle_of (Protocol (heap w r)) w))"
      "closeConnection (Some r) (put_prepare r w) = (res, w')"
  | (stored) ch b where "\<not> pool_closed w" "isConnectionValid (Some r) w" "res = Ok ()"
      "chan_send r (idle_of (Protocol (heap w r)) w) = Sent ch"
      "notifyWaitQueue r (put_counted r (set_idle (Protocol (heap w r)) ch (put_prepare r w))) =
         Some (b, w')"
      "inv_core w'"
      "only_queues (put_counted r (set_idle (Protocol (heap w r)) ch (put_prepare r w))) w'"
proof -
  let ?w1 = "put_prepare r w"
  have L: "light w ?w1" by simp
  note Ld = lightD [OF L]
  have id: "idle_of q ?w1 = idle_of q w" for q by (simp add: idle_of_def Ld)
  show thesis
  proof (cases "pool_closed w \<or> \<not> isConnectionValid (Some r) w")
    case True
    with p show thesis by (intro closed) (auto simp: Put_def put_store_def isClosed_def split: if_splits)
  next
    case False
    with I have np: "chan_send r (idle_of (Protocol (heap w r)) w) \<noteq> SendPanic"
      by (simp add: inv_core_def idle_ok_def idle_of_def chan_send_SendPanic)
    show thesis
    proof (cases "chan_send r (idle_of (Protocol (heap w r)) w)")
      case SendPanic
      with np show thesis by simp
    next
      case SendBlocked
      note 2 = this
      with False have "Put (Some r) w = closeConnection (Some r) ?w1"
        by (simp add: Put_def put_store_def isClosed_def Let_def Ld id)
      with False p 2 show thesis by (intro full) (simp_all add: chan_send_SendBlocked)
    next
      case (Sent ch)
      note 1 = this
      let ?w2 = "put_counted r (set_idle (Protocol (heap w r)) ch ?w1)"
      have L2: "light (set_idle (Protocol (heap w r)) ch ?w1) ?w2" by simp
      have "inv_core ?w1" using I light_inv_core [OF L] by simp
      then have "inv_core (set_idle (Protocol (heap ?w1 r)) ch ?w1)"
        using r 1 by (intro set_idle_inv_core) (simp_all add: Ld id)
      then have "inv_core ?w2" using light_inv_core [OF L2] by (simp add: Ld)
      moreover have "r < next_ref ?w2" "\<not> pool_closed ?w2"
        using r False by (simp_all add: lightD [OF L2] Ld)
      ultimately obtain b w2 where n: "notifyWaitQueue r ?w2 = Some (b, w2)"
          "only_queues ?w2 w2" "inv_core w2"
        using notify by blast
      with False p 1 have "res = Ok ()" "w' = w2"
        by (auto simp: Put_def put_store_def isClosed_def Let_def Ld id)
      with n False 1 show thesis by (intro stored) auto
    qed
  qed
qed

lemma Put_inv_core:
  assumes I: "inv_core w" and r: "r < next_ref w" and few: "few w"
    and p: "Put (Some r) w = (res, w')"
  shows "inv_core w'" and "res \<noteq> Panic" and "res \<noteq> Hang" and "next_ref w' = next_ref w"
    and "cfg w' = cfg w" and "pool_closed w' = pool_closed w"
    and "createSemaphore w' = createSemaphore w"
proof -
  have L: "light w (put_prepare r w)" by simp
  have "inv_core w' \<and> res \<noteq> Panic \<and> res \<noteq> Hang \<and> next_ref w' = next_ref w \<and> cfg w' = cfg w \<and>
      pool_closed w' = pool_closed w \<and> createSemaphore w' = createSemaphore w"
    using I r p
  proof (cases rule: Put_cases)
    case closed
    then show ?thesis using closeConnection_inv_core [OF I few r closed(2)]
      by (simp add: closeConnection_frame [OF closed(2)] error_result_def split: option.splits)
  next
    case full
    have "inv_core (put_prepare r w)" using I light_inv_core [OF L] by simp
    moreover have "few (put_prepare r w)" "r < next_ref (put_prepare r w)"
      using few r by (simp_all add: few_def lightD [OF L])
    ultimately show ?thesis using closeConnection_inv_core [OF _ _ _ full(4)]
      by (simp add: closeConnection_frame [OF full(4)] lightD [OF L] error_result_def split: option.splits)
  next
    case (stored ch b)
    have "light (set_idle (Protocol (heap w r)) ch (put_prepare r w))
        (put_counted r (set_idle (Protocol (heap w r)) ch (put_prepare r w)))" by simp
    note L2 = lightD [OF this]
    show ?thesis using stored
      by (simp add: only_queuesD [OF stored(7)] L2 lightD [OF L])
  qed
  then show "inv_core w'" and "res \<noteq> Panic" and "res \<noteq> Hang" and "next_ref w' = next_ref w"
    and "cfg w' = cfg w" and "pool_closed w' = pool_closed w"
    and "createSemaphore w' = createSemaphore w"
    by simp_all
qed

lemma Put_inv:
  assumes "pool_inv w" "r < next_ref w" "few w" "Put (Some r) w = (res, w')"
  shows "pool_inv w'"
  using assms Put_inv_core [of w r res w'] by (auto simp: pool_inv_core sem_ok_def)

subsection \<open>What entering a new connection changes\<close>

lemma create_publish_frame:
  assumes "create_publish nc w = (r, w')"
  shows "connections w' = AList.update (generator w + 1) r (connections w)"
    "generator w' = generator w + 1" "createSemaphore w' = createSemaphore w" "cfg w' = cfg w"
    "pool_closed w' = pool_closed w" "next_ref w' = Suc (next_ref w)"
proof -
  obtain r0 w1 where "allocate nc w = (r0, w1)" by (cases "allocate nc w")
  with assms have a: "allocate nc w = (r, w1)" by (auto simp: create_publish_def Let_def)
  have "light w1 (clear_if_udp r w1)" by simp
  note L = lightD [OF this]
  from a have f: "connections w1 = connections w" "generator w1 = generator w + 1"
    "createSemaphore w1 = createSemaphore w" "cfg w1 = cfg w" "pool_closed w1 = pool_closed w" "next_ref w1 = Suc (next_ref w)"
    "ID (heap w1 r) = generator w + 1"
    by (auto simp: allocate_def Let_def NewConnection_def)
  from assms a show "connections w' = AList.update (generator w + 1) r (connections w)"
    "generator w' = generator w + 1" "createSemaphore w' = createSemaphore w" "cfg w' = cfg w"
    "pool_closed w' = pool_closed w" "next_ref w' = Suc (next_ref w)"
    by (auto simp: create_publish_def Let_def L f)
qed

end
