(* ===== verification/Pool_Get.thy ===== *)
theory Pool_Get
  imports Pool_Preserve
begin

text \<open>
  The \<^verbatim>\<open>Get\<close> family of \<^verbatim>\<open>pool.go\<close>. A call either returns, or ends in one of the three
  \<^verbatim>\<open>waitForConnection\<close> functions; those block, so the call then becomes a waiting goroutine
  of the state, whose steps are in \<^verbatim>\<open>Pool_Wait\<close>. The loops of the protocol and IP version
  variants have ten attempts; the loop of \<^verbatim>\<open>GetWithTimeout\<close> has no bound in the code and ends
  because every round that goes on has taken a connection from an idle channel.
\<close>

subsection \<open>Borrowing\<close>

fun record_all :: "(instant \<Rightarrow> stats \<Rightarrow> stats) list \<Rightarrow> world \<Rightarrow> world" where
  "record_all [] w = w"
| "record_all (f # fs) w = record_all fs (with_stats f w)"

text \<open>From an idle channel, as \<^verbatim>\<open>GetWithTimeout\<close> and \<^verbatim>\<open>GetWithIPVersion\<close> do it.\<close>

definition borrow_idle :: "ref \<Rightarrow> world \<Rightarrow> world" where
  "borrow_idle r w =
     (let w1 = call_OnBorrow r (upd_conn r IncrementReuseCount (upd_conn r (MarkInUse (now w)) w))
      in record_all
           [IncrementSuccessfulGets, IncrementCurrentActiveConnections 1,
            IncrementCurrentIdleConnections (- 1), IncrementTotalConnectionsReused,
            count_idle_version (- 1) (heap w1 r), count_idle_protocol (- 1) (heap w1 r)] w1)"

text \<open>\<^verbatim>\<open>GetWithProtocol\<close> leaves the idle counters of the IP versions alone.\<close>

definition borrow_idle_protocol :: "ref \<Rightarrow> world \<Rightarrow> world" where
  "borrow_idle_protocol r w =
     (let w1 = call_OnBorrow r (upd_conn r IncrementReuseCount (upd_conn r (MarkInUse (now w)) w))
      in record_all
           [IncrementSuccessfulGets, IncrementCurrentActiveConnections 1,
            IncrementCurrentIdleConnections (- 1), IncrementTotalConnectionsReused,
            count_idle_protocol (- 1) (heap w1 r)] w1)"

text \<open>A connection just created.\<close>

definition borrow_new :: "ref \<Rightarrow> world \<Rightarrow> world" where
  "borrow_new r w =
     record_all [IncrementSuccessfulGets, IncrementCurrentActiveConnections 1]
       (call_OnBorrow r (upd_conn r (MarkInUse (now w)) w))"

subsection \<open>Receiving from the idle channels\<close>

definition recv_idle :: "protocol \<Rightarrow> world \<Rightarrow> ref option \<times> world" where
  "recv_idle p w =
     (case chan_recv (idle_of p w) of
        Received r c \<Rightarrow> (Some r, set_idle p c w)
      | _ \<Rightarrow> (None, w))"

text \<open>
  The \<^verbatim>\<open>select\<close> over both channels with a default. A closed empty channel is ready and yields
  nil; with both ready, one is picked.
\<close>

definition recv_idle_any :: "world \<Rightarrow> ref option \<times> world" where
  "recv_idle_any w =
     (let tcp_ready = (chan_recv (idleTCP w) \<noteq> RecvBlocked);
          udp_ready = (chan_recv (idleUDP w) \<noteq> RecvBlocked)
      in if tcp_ready \<and> udp_ready then
           (case flip w of
              (pick_tcp, w1) \<Rightarrow> recv_idle (if pick_tcp then ProtocolTCP else ProtocolUDP) w1)
         else if tcp_ready then recv_idle ProtocolTCP w
         else if udp_ready then recv_idle ProtocolUDP w
         else (None, w))"

definition max_reached :: "world \<Rightarrow> bool" where
  "max_reached w \<longleftrightarrow>
     MaxConnections (cfg w) > 0 \<and> getCurrentConnectionsCount w \<ge> MaxConnections (cfg w)"

text \<open>How the body of a \<^verbatim>\<open>Get\<close> ends: the last is the tail call of a waiting function.\<close>

datatype get_end = Gets ref | Fails error | Crashes | Sticks | Waits wait_kind

subsection \<open>The loop of \<^verbatim>\<open>GetWithTimeout\<close>\<close>

definition idle_count :: "world \<Rightarrow> nat" where
  "idle_count w = length (buf (idleTCP w)) + length (buf (idleUDP w))"

lemma recv_idle_Some:
  "recv_idle p w = (Some r, w1) \<Longrightarrow>
     \<exists>rs. buf (idle_of p w) = r # rs \<and> w1 = set_idle p ((idle_of p w)\<lparr>buf := rs\<rparr>) w"
  by (auto simp: recv_idle_def chan_cases split: recv_result.splits)

lemma recv_idle_None: "recv_idle p w = (None, w1) \<Longrightarrow> w1 = w"
  by (auto simp: recv_idle_def split: recv_result.splits)

lemma recv_idle_any_Some:
  assumes "recv_idle_any w = (Some r, w1)"
  obtains p n where "p \<in> {ProtocolTCP, ProtocolUDP}" "recv_idle p (w\<lparr>coins := n\<rparr>) = (Some r, w1)"
proof -
  from assms have "(\<exists>p \<in> {ProtocolTCP, ProtocolUDP}. recv_idle p w = (Some r, w1)) \<or>
      (\<exists>p \<in> {ProtocolTCP, ProtocolUDP}. recv_idle p (w\<lparr>coins := Suc (coins w)\<rparr>) = (Some r, w1))"
    by (simp add: recv_idle_any_def flip_def Let_def split: if_splits)
  moreover have "w = w\<lparr>coins := coins w\<rparr>" by simp
  ultimately show thesis using that by metis
qed

lemma recv_idle_any_None: "recv_idle_any w = (None, w1) \<Longrightarrow> \<exists>n. w1 = w\<lparr>coins := n\<rparr>"
  by (auto simp: recv_idle_any_def flip_def Let_def dest!: recv_idle_None split: if_splits
      intro: exI [of _ "coins w"])

lemma idle_of_coins [simp]: "idle_of p (w\<lparr>coins := n\<rparr>) = idle_of p w"
  by (simp add: idle_of_def)

lemma recv_idle_count: "recv_idle p w = (Some r, w1) \<Longrightarrow> Suc (idle_count w1) = idle_count w"
  by (auto simp: idle_count_def idle_of_def dest!: recv_idle_Some split: if_splits)

lemma recv_idle_any_count: "recv_idle_any w = (Some r, w1) \<Longrightarrow> Suc (idle_count w1) = idle_count w"
  by (erule recv_idle_any_Some) (drule recv_idle_count, simp add: idle_count_def)

lemma closeConnection_idle_count:
  "idle_count (snd (closeConnection (Some r) w)) = idle_count w"
  by (cases "closeConnection (Some r) w") (simp add: idle_count_def closeConnection_frame)

function get_any_loop :: "ctx \<Rightarrow> world \<Rightarrow> get_end \<times> world" where
  "get_any_loop c w =
     (if isClosed w then (Fails ErrPoolClosed, w)
      else
        (case recv_idle_any w of
           (Some r, w1) \<Rightarrow>
             if \<not> isConnectionValid (Some r) w1 then
               get_any_loop c (snd (closeConnection (Some r) w1))
             else (Gets r, borrow_idle r w1)
         | (None, w1) \<Rightarrow>
             if max_reached w1 then (Waits WaitAny, w1)
             else
               (case createConnection c w1 of
                  (Err e, w2) \<Rightarrow>
                    (let w3 = record_all [IncrementFailedGets, IncrementConnectionErrors] w2
                     in if e = ErrMaxConnectionsReached then (Waits WaitAny, w3) else (Fails e, w3))
                | (Ok None, w2) \<Rightarrow>
                    (Fails ErrInvalidConnection,
                     record_all [IncrementFailedGets, IncrementConnectionErrors] w2)
                | (Ok (Some r), w2) \<Rightarrow> (Gets r, borrow_new r w2)
                | (Panic, w2) \<Rightarrow> (Crashes, w2)
                | (Hang, w2) \<Rightarrow> (Sticks, w2))))"
  by pat_completeness auto
termination
proof (relation "measure (\<lambda>(c, w). idle_count w)")
  fix c :: ctx and w w1 :: world and r :: ref and x
  assume "(x, w1) = recv_idle_any w" "x = Some r"
  then have "Suc (idle_count w1) = idle_count w" using recv_idle_any_count [of w r w1] by simp
  then show "((c, snd (closeConnection (Some r) w1)), c, w) \<in> measure (\<lambda>(c, w). idle_count w)"
    by (simp add: closeConnection_idle_count)
qed simp

declare get_any_loop.simps [simp del]

subsection \<open>The loop of \<^verbatim>\<open>GetWithIPVersion\<close>\<close>

text \<open>
  The first argument is the number of attempts left, the second the mismatches so far. The error
  \<^verbatim>\<open>Put\<close> returns is ignored, its panic is not.
\<close>

fun get_version_loop :: "nat \<Rightarrow> nat \<Rightarrow> ctx \<Rightarrow> ip_version \<Rightarrow> world \<Rightarrow> get_end \<times> world" where
  "get_version_loop 0 mismatches c v w =
     (Fails ErrNoConnectionForIPVersion, record_all [IncrementFailedGets] w)"
| "get_version_loop (Suc n) mismatches c v w =
     (if isClosed w then (Fails ErrPoolClosed, w)
      else
        (case recv_idle_any w of
           (Some r, w1) \<Rightarrow>
             if GetIPVersion (heap w1 r) \<noteq> v then
               (case Put (Some r) w1 of
                  (Panic, w2) \<Rightarrow> (Crashes, w2)
                | (Hang, w2) \<Rightarrow> (Sticks, w2)
                | (_, w2) \<Rightarrow>
                    if Suc mismatches \<ge> 3 then
                      (Fails ErrNoConnectionForIPVersion, record_all [IncrementFailedGets] w2)
                    else get_version_loop n (Suc mismatches) c v w2)
             else if \<not> isConnectionValid (Some r) w1 then
               get_version_loop n mismatches c v (snd (closeConnection (Some r) w1))
             else (Gets r, borrow_idle r w1)
         | (None, w1) \<Rightarrow>
             if max_reached w1 then
               (Waits (WaitIPVersion v), w1)
             else
               (case createConnection c w1 of
                  (Err e, w2) \<Rightarrow>
                    (Fails e, record_all [IncrementFailedGets, IncrementConnectionErrors] w2)
                | (Ok None, w2) \<Rightarrow>
                    (Fails ErrInvalidConnection,
                     record_all [IncrementFailedGets, IncrementConnectionErrors] w2)
                | (Ok (Some r), w2) \<Rightarrow>
                    if GetIPVersion (heap w2 r) = v then (Gets r, borrow_new r w2)
                    else
                      (case Put (Some r) w2 of
                         (Panic, w3) \<Rightarrow> (Crashes, w3)
                       | (Hang, w3) \<Rightarrow> (Sticks, w3)
                       | (_, w3) \<Rightarrow>
                           if Suc mismatches \<ge> 3 then
                             (Fails ErrNoConnectionForIPVersion, record_all [IncrementFailedGets] w3)
                           else get_version_loop n (Suc mismatches) c v w3)
                | (Panic, w2) \<Rightarrow> (Crashes, w2)
                | (Hang, w2) \<Rightarrow> (Sticks, w2))))"

subsection \<open>The loop of \<^verbatim>\<open>GetWithProtocol\<close>\<close>

text \<open>
  Waiting 10 ms or until the context is done, whichever comes first: whether to go on.
\<close>

definition retry_delay :: "ctx \<Rightarrow> world \<Rightarrow> bool \<times> world" where
  "retry_delay c w =
     (let timer = now w + 10 * Millisecond in
      case done_at c of
        None \<Rightarrow> (True, pass_until timer w)
      | Some t \<Rightarrow>
          if timer < t then (True, pass_until timer w)
          else if t = timer then (case flip w of (go, w1) \<Rightarrow> (go, pass_until timer w1))
          else (False, pass_until t w))"

fun get_protocol_loop ::
    "nat \<Rightarrow> nat \<Rightarrow> nat \<Rightarrow> ctx \<Rightarrow> protocol \<Rightarrow> world \<Rightarrow> get_end \<times> world" where
  "get_protocol_loop 0 mismatches failures c p w =
     (Fails ErrNoConnectionForProtocol, record_all [IncrementFailedGets] w)"
| "get_protocol_loop (Suc n) mismatches failures c p w =
     (if isClosed w then (Fails ErrPoolClosed, w)
      else
        (case chan_recv (idle_of p w) of
           RecvZero \<Rightarrow> get_protocol_loop n mismatches failures c p w
         | Received r ch \<Rightarrow>
             (let w1 = set_idle p ch w in
              if \<not> isConnectionValid (Some r) w1 then
                get_protocol_loop n mismatches failures c p (snd (closeConnection (Some r) w1))
              else if GetProtocol (heap w1 r) \<noteq> p then
                (case Put (Some r) w1 of
                   (Panic, w2) \<Rightarrow> (Crashes, w2)
                 | (Hang, w2) \<Rightarrow> (Sticks, w2)
                 | (_, w2) \<Rightarrow> get_protocol_loop n mismatches failures c p w2)
              else (Gets r, borrow_idle_protocol r w1))
         | RecvBlocked \<Rightarrow>
             if max_reached w then
               (Waits (WaitProtocol p), w)
             else
               (case createConnection c w of
                  (Err e, w2) \<Rightarrow>
                    if Suc failures \<ge> 3 then
                      (Fails e, record_all [IncrementFailedGets, IncrementConnectionErrors] w2)
                    else
                      (case retry_delay c w2 of
                         (True, w3) \<Rightarrow> get_protocol_loop n mismatches (Suc failures) c p w3
                       | (False, w3) \<Rightarrow> (Fails (ctx_err c), w3))
                | (Ok None, w2) \<Rightarrow>
                    (Fails ErrInvalidConnection, record_all [IncrementFailedGets] w2)
                | (Ok (Some r), w2) \<Rightarrow>
                    if GetProtocol (heap w2 r) = p then (Gets r, borrow_new r w2)
                    else
                      (case Put (Some r) w2 of
                         (Panic, w3) \<Rightarrow> (Crashes, w3)
                       | (Hang, w3) \<Rightarrow> (Sticks, w3)
                       | (_, w3) \<Rightarrow>
                           if Suc mismatches \<ge> 3 then
                             (Fails ErrNoConnectionForProtocol, record_all [IncrementFailedGets] w3)
                           else get_protocol_loop n (Suc mismatches) failures c p w3)
                | (Panic, w2) \<Rightarrow> (Crashes, w2)
                | (Hang, w2) \<Rightarrow> (Sticks, w2))))"

subsection \<open>The exported functions\<close>

text \<open>What a call of \<^verbatim>\<open>Get\<close> has come to: a result, or a goroutine waiting with this number.\<close>

datatype get_result = GotConn ref | GotErr error | GotPanic | GotHang | GotWait wid

text \<open>
  The deferred \<^verbatim>\<open>RecordGetTime\<close> runs when the call returns; a call that waits takes its start
  time along.
\<close>

definition record_get_time :: "instant \<Rightarrow> world \<Rightarrow> world" where
  "record_get_time start w = with_stats (RecordGetTime (time_sub (now w) start)) w"

text \<open>Entering a waiting function, with its own fresh channel.\<close>

definition enter_wait :: "wait_kind \<Rightarrow> ctx \<Rightarrow> instant \<Rightarrow> world \<Rightarrow> wid \<times> world" where
  "enter_wait k c start w =
     (let i = next_wid w
      in (i, w\<lparr>waiters := (waiters w)(i \<mapsto>
                 \<lparr>w_kind = wait_dispatch k, w_ctx = c, w_start = start, w_chan = make_chan 1,
                    w_phase = Joining\<rparr>),
               next_wid := Suc i\<rparr>))"

fun finish_get :: "ctx \<Rightarrow> instant \<Rightarrow> get_end \<times> world \<Rightarrow> get_result \<times> world" where
  "finish_get c start (Gets r, w) = (GotConn r, record_get_time start w)"
| "finish_get c start (Fails e, w) = (GotErr e, record_get_time start w)"
| "finish_get c start (Crashes, w) = (GotPanic, record_get_time start w)"
| "finish_get c start (Sticks, w) = (GotHang, w)"
| "finish_get c start (Waits k, w) = (case enter_wait k c start w of (i, w1) \<Rightarrow> (GotWait i, w1))"

definition limit_ctx :: "ctx \<Rightarrow> duration \<Rightarrow> world \<Rightarrow> ctx" where
  "limit_ctx c timeout w = (if timeout > 0 then WithTimeout c (now w) timeout else c)"

text \<open>The common frame: the closed check, the request counter, the context, the loop, the return.\<close>

definition GetWithTimeout :: "ctx \<Rightarrow> duration \<Rightarrow> world \<Rightarrow> get_result \<times> world" where
  "GetWithTimeout c timeout w =
     (if isClosed w then (GotErr ErrPoolClosed, w)
      else
        (let w1 = with_stats IncrementTotalGetRequests w; c1 = limit_ctx c timeout w1
         in finish_get c1 (now w1) (get_any_loop c1 w1)))"

definition GetWithIPVersion :: "ctx \<Rightarrow> ip_version \<Rightarrow> duration \<Rightarrow> world \<Rightarrow> get_result \<times> world" where
  "GetWithIPVersion c v timeout w =
     (if v = IPVersionUnknown then GetWithTimeout c timeout w
      else if isClosed w then (GotErr ErrPoolClosed, w)
      else
        (let w1 = with_stats IncrementTotalGetRequests w; c1 = limit_ctx c timeout w1
         in finish_get c1 (now w1) (get_version_loop 10 0 c1 v w1)))"

definition GetWithProtocol :: "ctx \<Rightarrow> protocol \<Rightarrow> duration \<Rightarrow> world \<Rightarrow> get_result \<times> world" where
  "GetWithProtocol c p timeout w =
     (if p = ProtocolUnknown then GetWithTimeout c timeout w
      else if isClosed w then (GotErr ErrPoolClosed, w)
      else
        (let w1 = with_stats IncrementTotalGetRequests w; c1 = limit_ctx c timeout w1
         in finish_get c1 (now w1) (get_protocol_loop 10 0 0 c1 p w1)))"

definition Get :: "ctx \<Rightarrow> world \<Rightarrow> get_result \<times> world" where
  "Get c w = GetWithTimeout c (GetConnectionTimeout (cfg w)) w"

definition GetIPv4 :: "ctx \<Rightarrow> world \<Rightarrow> get_result \<times> world" where
  "GetIPv4 c w = GetWithIPVersion c IPVersionIPv4 (GetConnectionTimeout (cfg w)) w"

definition GetIPv6 :: "ctx \<Rightarrow> world \<Rightarrow> get_result \<times> world" where
  "GetIPv6 c w = GetWithIPVersion c IPVersionIPv6 (GetConnectionTimeout (cfg w)) w"

definition GetTCP :: "ctx \<Rightarrow> world \<Rightarrow> get_result \<times> world" where
  "GetTCP c w = GetWithProtocol c ProtocolTCP (GetConnectionTimeout (cfg w)) w"

definition GetUDP :: "ctx \<Rightarrow> world \<Rightarrow> get_result \<times> world" where
  "GetUDP c w = GetWithProtocol c ProtocolUDP (GetConnectionTimeout (cfg w)) w"

end
