(* ===== verification/Pool_Typing.thy ===== *)
theory Pool_Typing
  imports Pool_Preserve
begin

text \<open>
  What the channels of the pool may carry. A wrapper that has a connection is labelled with the
  protocol and the IP version of that connection; each wait queue holds goroutines of its own
  kind, each once and each with nothing in its channel, and the channel of a waiting goroutine
  holds only connections it accepts and stays open until the goroutine returns or the pool is
  closed. The operations keep this typing.
\<close>

subsection \<open>The typing\<close>

definition labelled :: "connection \<Rightarrow> bool" where
  "labelled c \<longleftrightarrow>
     (Conn c \<noteq> None \<longrightarrow> Protocol c = DetectProtocol (Conn c) \<and> IPVersion c = DetectIPVersion (Conn c))"

definition waiter_typed :: "world \<Rightarrow> waiter \<Rightarrow> bool" where
  "waiter_typed w wt \<longleftrightarrow>
     wait_dispatch (w_kind wt) = w_kind wt \<and>
     (\<forall>r \<in> set (buf (w_chan wt)). r < next_ref w \<and> wait_accepts (w_kind wt) (heap w r)) \<and>
     (case w_phase wt of
        Joining \<Rightarrow> buf (w_chan wt) = [] \<and> (chan_closed (w_chan wt) \<longrightarrow> pool_closed w)
      | Waiting \<Rightarrow> chan_closed (w_chan wt) \<longrightarrow> pool_closed w
      | Finished _ \<Rightarrow> chan_closed (w_chan wt))"

text \<open>A goroutine in a queue: of the queue's kind, past joining, and not served.\<close>

definition standing :: "queue_id \<Rightarrow> waiter \<Rightarrow> bool" where
  "standing q wt \<longleftrightarrow> wait_queue_of (w_kind wt) = q \<and> buf (w_chan wt) = [] \<and> w_phase wt \<noteq> Joining"

definition typed :: "world \<Rightarrow> bool" where
  "typed w \<longleftrightarrow>
     (\<forall>r < next_ref w. labelled (heap w r)) \<and>
     (\<forall>i wt. waiters w i = Some wt \<longrightarrow> waiter_typed w wt) \<and>
     (\<forall>q. distinct (buf (queue q w)) \<and>
        (\<forall>i \<in> set (buf (queue q w)). \<exists>wt. waiters w i = Some wt \<and> standing q wt))"

lemma typedD:
  assumes "typed w"
  shows "r < next_ref w \<Longrightarrow> labelled (heap w r)" "waiters w i = Some wt \<Longrightarrow> waiter_typed w wt"
    "i \<in> set (buf (queue q w)) \<Longrightarrow> \<exists>wt. waiters w i = Some wt \<and> standing q wt"
    "distinct (buf (queue q w))"
  using assms by (auto simp: typed_def)

text \<open>A goroutine accepts what is offered to the queue it stands in.\<close>

fun queue_class :: "queue_id \<Rightarrow> connection \<Rightarrow> bool" where
  "queue_class QAny c = True"
| "queue_class QTCP c = (GetProtocol c = ProtocolTCP)"
| "queue_class QUDP c = (GetProtocol c = ProtocolUDP)"
| "queue_class QIPv4 c = (GetIPVersion c = IPVersionIPv4)"
| "queue_class QIPv6 c = (GetIPVersion c = IPVersionIPv6)"

lemma accepts_class:
  "wait_dispatch k = k \<Longrightarrow> wait_accepts k c \<longleftrightarrow> queue_class (wait_queue_of k) c"
  by (cases k) (auto split: if_splits)

lemma dispatch_idem [simp]: "wait_dispatch (wait_dispatch k) = wait_dispatch k"
  by (cases k) auto

lemma accepts_label:
  "Protocol c' = Protocol c \<Longrightarrow> IPVersion c' = IPVersion c \<Longrightarrow> wait_accepts k c' = wait_accepts k c"
  by (cases k) auto

subsection \<open>Steps that leave the queues and the waiting goroutines alone, or only take from them\<close>

text \<open>
  A goroutine that loses what stands in its channel, returns, or has its channel closed, which
  only \<^verbatim>\<open>Close\<close> does.
\<close>

definition fewer :: "bool \<Rightarrow> waiter \<Rightarrow> waiter \<Rightarrow> bool" where
  "fewer cl wt wt' \<longleftrightarrow>
     w_kind wt' = w_kind wt \<and> set (buf (w_chan wt')) \<subseteq> set (buf (w_chan wt)) \<and>
     (w_phase wt' = w_phase wt \<and> (chan_closed (w_chan wt') = chan_closed (w_chan wt) \<or> chan_closed (w_chan wt') \<and> cl) \<or>
      chan_closed (w_chan wt') \<and> (\<exists>res. w_phase wt' = Finished res))"

lemma fewer_refl [simp]: "fewer cl wt wt"
  by (simp add: fewer_def)

lemma fewer_standing: "fewer cl wt wt' \<Longrightarrow> standing q wt \<Longrightarrow> standing q wt'"
  by (auto simp: fewer_def standing_def)

lemma fewer_typed:
  assumes "fewer (pool_closed w') wt wt'" and "waiter_typed w wt" and "next_ref w \<le> next_ref w'"
    and "pool_closed w \<longrightarrow> pool_closed w'"
    and "\<And>r k. r < next_ref w \<Longrightarrow> wait_accepts k (heap w' r) = wait_accepts k (heap w r)"
  shows "waiter_typed w' wt'"
proof -
  from assms(1) have f: "w_kind wt' = w_kind wt" "set (buf (w_chan wt')) \<subseteq> set (buf (w_chan wt))"
    by (auto simp: fewer_def)
  have "r < next_ref w' \<and> wait_accepts (w_kind wt') (heap w' r)" if "r \<in> set (buf (w_chan wt'))" for r
    using that f assms(2,3,5) unfolding waiter_typed_def by (metis order_less_le_trans subsetD)
  moreover have "case w_phase wt' of
        Joining \<Rightarrow> buf (w_chan wt') = [] \<and> (chan_closed (w_chan wt') \<longrightarrow> pool_closed w')
      | Waiting \<Rightarrow> chan_closed (w_chan wt') \<longrightarrow> pool_closed w'
      | Finished _ \<Rightarrow> chan_closed (w_chan wt')"
  proof (cases "w_phase wt' = w_phase wt")
    case True
    with assms(1,2,4) f(2) show ?thesis
      by (cases "w_phase wt") (auto simp: waiter_typed_def fewer_def)
  next
    case False
    with assms(1) show ?thesis by (auto simp: fewer_def)
  qed
  ultimately show ?thesis using assms(2) f(1) by (simp add: waiter_typed_def)
qed

lemma typed_shrink:
  assumes T: "typed w" and n: "next_ref w \<le> next_ref w'" and c: "pool_closed w \<longrightarrow> pool_closed w'"
    and old: "\<And>r. r < next_ref w \<Longrightarrow>
      Protocol (heap w' r) = Protocol (heap w r) \<and> IPVersion (heap w' r) = IPVersion (heap w r) \<and>
      (Conn (heap w' r) = None \<or> Conn (heap w' r) = Conn (heap w r))"
    and new: "\<And>r. next_ref w \<le> r \<Longrightarrow> r < next_ref w' \<Longrightarrow> labelled (heap w' r)"
    and q: "\<And>q. set (buf (queue q w')) \<subseteq> set (buf (queue q w))"
    and d: "\<And>q. distinct (buf (queue q w)) \<Longrightarrow> distinct (buf (queue q w'))"
    and wt: "\<And>i. rel_option (fewer (pool_closed w')) (waiters w i) (waiters w' i)"
  shows "typed w'"
  unfolding typed_def
proof (intro conjI allI impI ballI)
  fix r assume "r < next_ref w'"
  then show "labelled (heap w' r)"
    using old [of r] new [of r] typedD(1) [OF T, of r] by (cases "r < next_ref w") (auto simp: labelled_def)
next
  fix i wt' assume i: "waiters w' i = Some wt'"
  with wt [of i] obtain wt0 where wt0: "waiters w i = Some wt0" "fewer (pool_closed w') wt0 wt'"
    by (cases "waiters w i") auto
  have "wait_accepts k (heap w' r) = wait_accepts k (heap w r)" if "r < next_ref w" for k r
    using old [OF that] by (intro accepts_label) simp_all
  then show "waiter_typed w' wt'" by (rule fewer_typed [OF wt0(2) typedD(2) [OF T wt0(1)] n c])
next
  fix q show "distinct (buf (queue q w'))" by (rule d [OF typedD(4) [OF T]])
next
  fix q i assume "i \<in> set (buf (queue q w'))"
  with q typedD(3) [OF T] obtain wt0 where wt0: "waiters w i = Some wt0" "standing q wt0"
    by blast
  with wt [of i] show "\<exists>wt. waiters w' i = Some wt \<and> standing q wt"
    by (cases "waiters w' i") (auto intro: fewer_standing)
qed

lemma fewer_same: "rel_option (fewer cl) x x"
  by (cases x) simp_all

lemma typed_same:
  assumes "typed w" "heap w' = heap w" "next_ref w' = next_ref w" "waiters w' = waiters w"
    "\<And>q. queue q w' = queue q w" "pool_closed w' = pool_closed w"
  shows "typed w'"
  using assms(1) by (rule typed_shrink) (simp_all add: assms fewer_same)

lemma light_typed: "light w w' \<Longrightarrow> typed w' = typed w"
proof
  assume l: "light w w'"
  show "typed w'" if "typed w"
    using that by (rule typed_shrink) (simp_all add: lightD [OF l] fewer_same)
  show "typed w" if "typed w'"
    using that by (rule typed_shrink) (simp_all add: lightD [OF l] fewer_same)
qed

lemma closeConnection_typed:
  assumes "closeConnection (Some r) w = (res, w')" and "typed w"
  shows "typed w'"
  using assms(2) by (rule typed_shrink) (auto simp: closeConnection_frame [OF assms(1)] fewer_same)

lemma close_wrapper_typed:
  assumes "close_wrapper r w = (e, w')" and "typed w"
  shows "typed w'"
  using assms(2) by (rule typed_shrink) (auto simp: close_wrapper_frame [OF assms(1)] fewer_same)

subsection \<open>Creation\<close>

lemma create_publish_typed:
  assumes c: "create_publish nc w = (r, w')" and T: "typed w"
  shows "typed w'"
proof -
  obtain r0 w1 where a: "allocate nc w = (r0, w1)" by (cases "allocate nc w")
  have f: "heap w1 = (heap w)(next_ref w := NewConnection (generator w) (now w) nc
      (map_option (createCloseFunc (cfg w)) nc))" "next_ref w1 = Suc (next_ref w)" "waiters w1 = waiters w"
    "queue q w1 = queue q w" "pool_closed w1 = pool_closed w" for q
    using a by (cases q; auto simp: allocate_def Let_def)+
  have "typed w1" using T
    by (rule typed_shrink)
      (auto simp: f fewer_same labelled_def NewConnection_def less_Suc_eq_le dest: antisym)
  moreover have "light w1 (clear_if_udp r0 w1)" by simp
  ultimately have T2: "typed (clear_if_udp r0 w1)" using light_typed by blast
  have "w' = with_stats (count_live 1 (heap (clear_if_udp r0 w1) r0))
      (with_stats IncrementTotalConnectionsCreated
        ((clear_if_udp r0 w1)\<lparr>connections := AList.update (ID (heap (clear_if_udp r0 w1) r0)) r0
           (connections (clear_if_udp r0 w1))\<rparr>))"
    using c by (auto simp: create_publish_def Let_def a)
  with T2 show ?thesis by (elim typed_same) (simp_all add: with_stats_def, case_tac q, simp_all)
qed

lemma createConnection_typed:
  assumes S: "sem_ok w" and c: "createConnection ctx w = (res, w')" and T: "typed w"
  shows "typed w'"
  using S c
proof (cases rule: createConnection_cases)
  case failed
  then show ?thesis using T light_typed by blast
next
  case (created r nc w1 w2)
  have sem: "typed (w\<lparr>createSemaphore := s\<rparr>)" if "typed w" for w s
    using that by (rule typed_same) simp_all
  have "typed w1" using T light_typed [OF created(2)] by blast
  then show ?thesis using sem create_publish_typed [OF created(4)] by (simp add: created(5))
qed

subsection \<open>Notification\<close>

lemma set_queue_typed:
  assumes T: "typed w" and sub: "set (buf c) \<subseteq> set (buf (queue q w))"
    and d: "distinct (buf (queue q w)) \<Longrightarrow> distinct (buf c)"
  shows "typed (set_queue q c w)"
proof -
  have "heap (set_queue q c w) = heap w" "next_ref (set_queue q c w) = next_ref w"
    "pool_closed (set_queue q c w) = pool_closed w" by (cases q; simp)+
  then show ?thesis
    by (intro typed_shrink [OF T]) (use sub d in \<open>auto simp: queue_set_queue waiters_set_queue fewer_same\<close>)
qed

text \<open>What is offered goes to a goroutine that has just left its queue.\<close>

lemma offer_typed:
  assumes o: "offer i r w = (b, w')" and T: "typed w" and r: "r < next_ref w"
    and out: "\<And>q. i \<notin> set (buf (queue q w))"
    and cls: "\<And>wt. waiters w i = Some wt \<Longrightarrow> wait_accepts (w_kind wt) (heap w r) \<and> w_phase wt \<noteq> Joining"
  shows "typed w'"
proof (cases b)
  case False
  with offer_False [of i r w w'] o T show ?thesis by simp
next
  case True
  with o obtain wt ch where wt: "waiters w i = Some wt" and ch: "chan_send r (w_chan wt) = Sent ch"
    and w': "w' = w\<lparr>waiters := (waiters w)(i \<mapsto> wt\<lparr>w_chan := ch\<rparr>)\<rparr>"
    by (auto simp: offer_def split: option.splits send_result.splits)
  have q: "queue q w' = queue q w" for q unfolding w' by (cases q) simp_all
  have h: "heap w' = heap w" "next_ref w' = next_ref w" "pool_closed w' = pool_closed w" by (simp_all add: w')
  have "waiter_typed w wt" by (rule typedD(2) [OF T wt])
  then have "waiter_typed w (wt\<lparr>w_chan := ch\<rparr>)"
    using ch r cls [OF wt] by (cases "w_phase wt") (auto simp: waiter_typed_def chan_cases)
  moreover have "waiter_typed w' = waiter_typed w" by (simp add: waiter_typed_def h fun_eq_iff cong: wait_phase.case_cong)
  moreover have "\<exists>wt. waiters w' j = Some wt \<and> standing q wt" if "j \<in> set (buf (queue q w))" for j q
    using typedD(3) [OF T that] out [of q] that by (auto simp: w')
  ultimately show ?thesis
    using T unfolding typed_def q h by (auto simp: w')
qed

lemma notifySpecific_typed:
  assumes "notifySpecificWaitQueue q r w = Some y" and "typed w" and "r < next_ref w"
    and "queue_class q (heap w r)"
  shows "typed (snd y) \<and> heap (snd y) = heap w \<and> next_ref (snd y) = next_ref w"
proof -
  have "typed w \<longrightarrow> r < next_ref w \<longrightarrow> queue_class q (heap w r) \<longrightarrow>
      typed (snd y) \<and> heap (snd y) = heap w \<and> next_ref (snd y) = next_ref w"
  proof (rule notifySpecificWaitQueue.raw_induct
      [where P = "\<lambda>q r w y. typed w \<longrightarrow> r < next_ref w \<longrightarrow> queue_class q (heap w r) \<longrightarrow>
         typed (snd y) \<and> heap (snd y) = heap w \<and> next_ref (snd y) = next_ref w",
       OF _ assms(1)])
    fix f q r w y
    assume IH: "\<And>q r w y. f q r w = Some y \<Longrightarrow> typed w \<longrightarrow> r < next_ref w \<longrightarrow> queue_class q (heap w r) \<longrightarrow>
         typed (snd y) \<and> heap (snd y) = heap w \<and> next_ref (snd y) = next_ref w"
      and eq: "(case chan_recv (queue q w) of Received i q' \<Rightarrow>
            (case offer i r (set_queue q q' w) of (sent, w1) \<Rightarrow>
               if sent then Some (True, w1) else f q r w1)
          | RecvZero \<Rightarrow> f q r w | RecvBlocked \<Rightarrow> Some (False, w)) = Some y"
    show "typed w \<longrightarrow> r < next_ref w \<longrightarrow> queue_class q (heap w r) \<longrightarrow>
        typed (snd y) \<and> heap (snd y) = heap w \<and> next_ref (snd y) = next_ref w"
    proof (intro impI)
      assume T: "typed w" and r: "r < next_ref w" and cls: "queue_class q (heap w r)"
      show "typed (snd y) \<and> heap (snd y) = heap w \<and> next_ref (snd y) = next_ref w"
      proof (cases "chan_recv (queue q w)")
        case (Received i q')
        then have b: "set (buf (queue q w)) = insert i (set (buf q'))" by (auto simp: chan_cases)
        let ?w0 = "set_queue q q' w"
        have f0: "heap ?w0 = heap w" "next_ref ?w0 = next_ref w" "waiters ?w0 = waiters w" by (cases q; simp)+
        have d: "i \<notin> set (buf q')" "distinct (buf q')"
          using typedD(4) [OF T, of q] Received by (auto simp: chan_cases)
        have T0: "typed ?w0" using b d(2) by (intro set_queue_typed [OF T]) auto
        obtain wti where wti: "waiters w i = Some wti" "standing q wti"
          using typedD(3) [OF T, of i q] b by auto
        have out: "i \<notin> set (buf (queue q1 ?w0))" for q1
        proof (cases "q1 = q")
          case False
          then show ?thesis using typedD(3) [OF T, of i q1] wti by (auto simp: queue_set_queue standing_def)
        qed (simp add: queue_set_queue d)
        obtain s w1 where o: "offer i r ?w0 = (s, w1)" by (cases "offer i r ?w0")
        have acc: "wait_accepts (w_kind wt) (heap ?w0 r) \<and> w_phase wt \<noteq> Joining"
          if wt: "waiters ?w0 i = Some wt" for wt
        proof -
          have "standing q wt" using wti wt by (simp add: f0)
          moreover have "wait_dispatch (w_kind wt) = w_kind wt"
            using typedD(2) [OF T0 wt] by (simp add: waiter_typed_def)
          ultimately show ?thesis using accepts_class cls f0(1) by (auto simp: standing_def)
        qed
        have T1: "typed w1" by (rule offer_typed [OF o T0 _ out acc]) (simp_all add: f0 r)
        have f1: "heap w1 = heap w" "next_ref w1 = next_ref w"
          using only_queuesD [OF offer_only_queues [OF o]] by (simp_all add: f0)
        show ?thesis
        proof (cases s)
          case True
          with eq Received o T1 f1 show ?thesis by auto
        next
          case False
          with eq Received o have "f q r w1 = Some y" by simp
          from IH [OF this] T1 f1 r cls show ?thesis by simp
        qed
      qed (use eq IH T r cls in auto)
    qed
  qed
  with assms(2-4) show ?thesis by blast
qed

text \<open>Notifications that keep a predicate, one after the other.\<close>

definition notify_keeps :: "(world \<Rightarrow> bool) \<Rightarrow> (world \<Rightarrow> (bool \<times> world) option) \<Rightarrow> bool" where
  "notify_keeps P f \<longleftrightarrow> (\<forall>w y. P w \<longrightarrow> f w = Some y \<longrightarrow> P (snd y))"

lemma notify_keeps_or_else:
  assumes f: "notify_keeps P f" and g: "notify_keeps P g"
  shows "notify_keeps P (or_else f g)"
  unfolding notify_keeps_def
proof (intro allI impI)
  fix w y assume P: "P w" and y: "or_else f g w = Some y"
  then obtain b w1 where fw: "f w = Some (b, w1)" by (auto simp: or_else_def split: option.splits)
  with f P have P1: "P w1" by (fastforce simp: notify_keeps_def)
  show "P (snd y)"
  proof (cases b)
    case True
    with y fw P1 show ?thesis by (auto simp: or_else_def)
  next
    case False
    with y fw have "g w1 = Some y" by (simp add: or_else_def)
    with g P1 show ?thesis unfolding notify_keeps_def by blast
  qed
qed

lemma notifyWaitQueue_typed:
  assumes n: "notifyWaitQueue r w = Some y" and T: "typed w" and r: "r < next_ref w"
  shows "typed (snd y)"
proof -
  let ?P = "\<lambda>w'. typed w' \<and> heap w' = heap w \<and> next_ref w' = next_ref w"
  have step: "notify_keeps ?P (notifySpecificWaitQueue q r)" if "queue_class q (heap w r)" for q
    unfolding notify_keeps_def using notifySpecific_typed that r by fastforce
  have skip: "notify_keeps ?P (\<lambda>w. Some (False, w))" by (simp add: notify_keeps_def)
  have "notify_keeps ?P (if GetProtocol (heap w r) = ProtocolTCP then notifySpecificWaitQueue QTCP r
      else if GetProtocol (heap w r) = ProtocolUDP then notifySpecificWaitQueue QUDP r
      else (\<lambda>w. Some (False, w)))" (is "notify_keeps _ ?byp")
    using step [of QTCP] step [of QUDP] skip by simp
  moreover have "notify_keeps ?P (if GetIPVersion (heap w r) = IPVersionIPv4 then notifySpecificWaitQueue QIPv4 r
      else if GetIPVersion (heap w r) = IPVersionIPv6 then notifySpecificWaitQueue QIPv6 r
      else (\<lambda>w. Some (False, w)))" (is "notify_keeps _ ?byv")
    using step [of QIPv4] step [of QIPv6] skip by simp
  moreover have "notify_keeps ?P (notifySpecificWaitQueue QAny r)" using step [of QAny] by simp
  ultimately have k: "notify_keeps ?P (or_else ?byp (or_else ?byv (notifySpecificWaitQueue QAny r)))"
    by (intro notify_keeps_or_else)
  have "or_else ?byp (or_else ?byv (notifySpecificWaitQueue QAny r)) w = Some y"
    using n unfolding notifyWaitQueue_def Let_def .
  with k T show ?thesis unfolding notify_keeps_def by blast
qed

subsection \<open>\<^verbatim>\<open>Put\<close>\<close>

lemma Put_typed:
  assumes I: "inv_core w" and r: "r < next_ref w" and p: "Put (Some r) w = (res, w')" and T: "typed w"
  shows "typed w'"
proof -
  have L: "light w (put_prepare r w)" by simp
  from I r p show ?thesis
  proof (cases rule: Put_cases)
    case closed
    then show ?thesis using closeConnection_typed T by blast
  next
    case full
    then show ?thesis using closeConnection_typed light_typed [OF L] T by blast
  next
    case (stored ch b)
    let ?w2 = "set_idle (Protocol (heap w r)) ch (put_prepare r w)"
    have "typed ?w2"
      by (rule typed_same [of "put_prepare r w"])
        (use light_typed [OF L] T in \<open>simp_all add: set_idle_def\<close>)
    moreover have "light ?w2 (put_counted r ?w2)" by simp
    ultimately have "typed (put_counted r ?w2)" using light_typed by blast
    moreover have "r < next_ref (put_counted r ?w2)"
      using r by (simp add: lightD(6) [OF L] put_counted_def)
    ultimately show ?thesis using notifyWaitQueue_typed [OF stored(5)] by simp
  qed
qed

end
