(* ===== verification/Pool_Lifecycle.thy ===== *)
theory Pool_Lifecycle
  imports Pool_Put
begin

text \<open>
  Making and closing a pool: \<^verbatim>\<open>NewPool\<close> with \<^verbatim>\<open>warmUp\<close> and \<^verbatim>\<open>startBackgroundTasks\<close>,
  \<^verbatim>\<open>Close\<close>, and \<^verbatim>\<open>Stats\<close>.
\<close>

subsection \<open>Sequencing\<close>

text \<open>Running one step after another until one does not return normally.\<close>

definition and_then ::
    "(world \<Rightarrow> unit result \<times> world) \<Rightarrow> (world \<Rightarrow> unit result \<times> world) \<Rightarrow> world \<Rightarrow> unit result \<times> world" where
  "and_then f g w = (case f w of (Ok _, w1) \<Rightarrow> g w1 | r \<Rightarrow> r)"

text \<open>Calling a method of one of the three managers.\<close>

definition on_manager ::
    "(manager \<Rightarrow> manager result) \<Rightarrow> (world \<Rightarrow> manager) \<Rightarrow> (manager \<Rightarrow> world \<Rightarrow> world) \<Rightarrow>
     world \<Rightarrow> unit result \<times> world" where
  "on_manager f get put w =
     (case f (get w) of
        Ok m \<Rightarrow> (Ok (), put m w)
      | Err e \<Rightarrow> (Err e, w)
      | Panic \<Rightarrow> (Panic, w)
      | Hang \<Rightarrow> (Hang, w))"

abbreviation on_health where
  "on_health f \<equiv> on_manager f healthCheckManager (\<lambda>m w. w\<lparr>healthCheckManager := m\<rparr>)"

abbreviation on_cleanup where
  "on_cleanup f \<equiv> on_manager f cleanupManager (\<lambda>m w. w\<lparr>cleanupManager := m\<rparr>)"

abbreviation on_leak where
  "on_leak f \<equiv> on_manager f leakDetector (\<lambda>m w. w\<lparr>leakDetector := m\<rparr>)"

subsection \<open>\<^verbatim>\<open>NewPool\<close>\<close>

text \<open>The pool \<^verbatim>\<open>NewPool\<close> builds before warming it up; the rest of the state is the environment's.\<close>

definition fresh_pool :: "config \<Rightarrow> world \<Rightarrow> world" where
  "fresh_pool c w = w\<lparr>
     cfg := c,
     connections := [],
     idleTCP := make_chan (nat (MaxIdleConnections c)),
     idleUDP := make_chan (nat (MaxIdleConnections c)),
     pool_closed := False,
     close_once := False,
     closeChan_closed := False,
     healthCheckManager := NewHealthCheckManager,
     cleanupManager := NewCleanupManager,
     leakDetector := NewLeakDetector,
     collector := (if EnableStats c then Some (NewStatsCollector (now w)) else None),
     waitQueue := make_chan 100,
     waitQueueIPv4 := make_chan 100,
     waitQueueIPv6 := make_chan 100,
     waitQueueTCP := make_chan 100,
     waitQueueUDP := make_chan 100,
     createSemaphore := make_chan 5,
     next_ref := 0,
     waiters := (\<lambda>_. None),
     next_wid := 0,
     trace := []\<rparr>"

text \<open>The loop of \<^verbatim>\<open>warmUp\<close>: errors are counted and skipped, the result of \<^verbatim>\<open>Put\<close> is ignored.\<close>

fun warm_loop :: "nat \<Rightarrow> ctx \<Rightarrow> world \<Rightarrow> unit result \<times> world" where
  "warm_loop 0 c w = (Ok (), w)"
| "warm_loop (Suc n) c w =
     (case createConnection c w of
        (Err e, w1) \<Rightarrow> warm_loop n c (with_stats IncrementConnectionErrors w1)
      | (Ok conn, w1) \<Rightarrow>
          (case Put conn w1 of
             (Panic, w2) \<Rightarrow> (Panic, w2)
           | (Hang, w2) \<Rightarrow> (Hang, w2)
           | (_, w2) \<Rightarrow> warm_loop n c w2)
      | (Panic, w1) \<Rightarrow> (Panic, w1)
      | (Hang, w1) \<Rightarrow> (Hang, w1))"

definition warm_timeout :: "config \<Rightarrow> duration" where
  "warm_timeout c =
     (let maxTimeout = 10 * Minute; timeout = dur_times (ConnectionTimeout c) (MinConnections c)
      in if timeout > maxTimeout then maxTimeout else timeout)"

definition warmUp :: "world \<Rightarrow> unit result \<times> world" where
  "warmUp w =
     (if Mode (cfg w) = PoolModeServer then (Ok (), w)
      else if MinConnections (cfg w) \<le> 0 then (Ok (), w)
      else warm_loop (nat (MinConnections (cfg w)))
             (WithTimeout Background (now w) (warm_timeout (cfg w))) w)"

definition startBackgroundTasks :: "world \<Rightarrow> unit result \<times> world" where
  "startBackgroundTasks w =
     and_then (if EnableHealthCheck (cfg w) then on_health (HealthCheck_Start (cfg w))
               else (\<lambda>w. (Ok (), w)))
       (and_then (on_cleanup (Cleanup_Start (cfg w))) (on_leak (Leak_Start (cfg w)))) w"

definition NewPool :: "config \<Rightarrow> world \<Rightarrow> unit result \<times> world" where
  "NewPool c w =
     (case Validate c of
        (Ok _, c') \<Rightarrow> and_then warmUp startBackgroundTasks (fresh_pool c' w)
      | (Err e, c') \<Rightarrow> (Err e, w\<lparr>cfg := c'\<rparr>)
      | (Panic, c') \<Rightarrow> (Panic, w)
      | (Hang, c') \<Rightarrow> (Hang, w))"

subsection \<open>\<^verbatim>\<open>Close\<close>\<close>

text \<open>Closing the connections of the snapshot; the first error is kept.\<close>

fun close_each :: "ref list \<Rightarrow> error option \<Rightarrow> world \<Rightarrow> error option \<times> world" where
  "close_each [] err w = (err, w)"
| "close_each (r # rs) err w =
     (case close_wrapper r w of
        (e, w1) \<Rightarrow>
          close_each rs (if e \<noteq> None \<and> err = None then e else err)
            (with_stats IncrementTotalConnectionsClosed w1))"

text \<open>Closing the channel of a queued waiter; the panic when it is closed already is recovered.\<close>

definition close_waiter :: "wid \<Rightarrow> world \<Rightarrow> world" where
  "close_waiter i w =
     (case waiters w i of
        None \<Rightarrow> w
      | Some wt \<Rightarrow>
          (case chan_close (w_chan wt) of
             None \<Rightarrow> w
           | Some ch \<Rightarrow> w\<lparr>waiters := (waiters w)(i \<mapsto> wt\<lparr>w_chan := ch\<rparr>)\<rparr>))"

text \<open>
  \<^verbatim>\<open>closeWaitQueue\<close> and \<^verbatim>\<open>closeIdleChan\<close>: receive until nothing is ready, then close. On a channel
  that is closed already they would go round for ever (\<open>None\<close>): a receive is then always ready.
\<close>

partial_function (option) closeWaitQueue :: "queue_id \<Rightarrow> world \<Rightarrow> world option" where
  "closeWaitQueue q w =
     (case chan_recv (queue q w) of
        Received i q' \<Rightarrow> closeWaitQueue q (close_waiter i (set_queue q q' w))
      | RecvZero \<Rightarrow> closeWaitQueue q w
      | RecvBlocked \<Rightarrow>
          Some (case chan_close (queue q w) of None \<Rightarrow> w | Some q' \<Rightarrow> set_queue q q' w))"

partial_function (option) closeIdleChan :: "ref chan \<Rightarrow> (ref chan) option option" where
  "closeIdleChan c =
     (case chan_recv c of
        Received _ c' \<Rightarrow> closeIdleChan c'
      | RecvZero \<Rightarrow> closeIdleChan c
      | RecvBlocked \<Rightarrow> Some (chan_close c))"

declare closeWaitQueue.simps [code] closeIdleChan.simps [code]

text \<open>Running these as steps: not returning is \<^const>\<open>Hang\<close>.\<close>

definition close_queue_step :: "queue_id \<Rightarrow> world \<Rightarrow> unit result \<times> world" where
  "close_queue_step q w =
     (case closeWaitQueue q w of None \<Rightarrow> (Hang, w) | Some w' \<Rightarrow> (Ok (), w'))"

definition close_idle_step :: "protocol \<Rightarrow> world \<Rightarrow> unit result \<times> world" where
  "close_idle_step p w =
     (case closeIdleChan (idle_of p w) of
        None \<Rightarrow> (Hang, w)
      | Some None \<Rightarrow> (Panic, w)
      | Some (Some c) \<Rightarrow> (Ok (), set_idle p c w))"

definition close_signal :: "world \<Rightarrow> unit result \<times> world" where
  "close_signal w =
     (if closeChan_closed w then (Panic, w) else (Ok (), w\<lparr>closeChan_closed := True\<rparr>))"

definition close_managers :: "world \<Rightarrow> unit result \<times> world" where
  "close_managers =
     and_then (on_health HealthCheck_Stop) (and_then (on_cleanup Cleanup_Stop) (on_leak Leak_Stop))"

definition close_channels :: "world \<Rightarrow> unit result \<times> world" where
  "close_channels =
     and_then (close_queue_step QAny)
      (and_then (close_queue_step QIPv4)
       (and_then (close_queue_step QIPv6)
        (and_then (close_queue_step QTCP)
         (and_then (close_queue_step QUDP)
          (and_then (close_idle_step ProtocolTCP) (close_idle_step ProtocolUDP))))))"

definition close_connections :: "(ref list \<Rightarrow> ref list) \<Rightarrow> world \<Rightarrow> error option \<times> world" where
  "close_connections order w =
     close_each (getAllConnections order w) None (w\<lparr>connections := []\<rparr>)"

text \<open>
  \<open>order\<close> is the order in which the runtime iterates over the map of connections. A second call
  does nothing.
\<close>

definition Close :: "(ref list \<Rightarrow> ref list) \<Rightarrow> world \<Rightarrow> unit result \<times> world" where
  "Close order w =
     (if close_once w then (Ok (), w)
      else
        (case and_then close_signal close_managers (w\<lparr>close_once := True, pool_closed := True\<rparr>) of
           (Ok _, w1) \<Rightarrow>
             (case close_connections order w1 of
                (err, w2) \<Rightarrow>
                  (case close_channels w2 of
                     (Ok _, w3) \<Rightarrow> (error_result err, w3)
                   | r \<Rightarrow> r))
         | r \<Rightarrow> r))"

subsection \<open>\<^verbatim>\<open>Stats\<close>\<close>

definition Stats :: "world \<Rightarrow> stats" where
  "Stats w = (case collector w of None \<Rightarrow> zero_stats | Some s \<Rightarrow> GetStats s)"

end
