(* ===== verification/Pool_Threads.thy ===== *)
theory Pool_Threads
  imports Pool_Preserve Pool_Lifecycle
begin

text \<open>
  The operations that open and close connections, lock by lock. Any number of goroutines are
  inside \<^verbatim>\<open>createConnection\<close>, \<^verbatim>\<open>closeConnection\<close> and \<^verbatim>\<open>Close\<close>; the state is the pool's and the
  multiset of the points they have reached. A step runs one goroutine from one critical section
  or atomic operation to the next. The pieces are those the operations of \<open>Pool_Core\<close> and
  \<open>Pool_Lifecycle\<close> are made of; run by one goroutine without interruption they are these
  operations, as the last lemmas here show.
\<close>

subsection \<open>The points a goroutine can be at\<close>

datatype activity =
    Checking ctx              \<comment> \<open>\<^verbatim>\<open>createConnection\<close>: it has a slot of the semaphore\<close>
  | Limiting ctx              \<comment> \<open>it has found the pool open, before it looks at the limit\<close>
  | Dialing ctx               \<comment> \<open>it has passed the checks\<close>
  | Wrapping "net_conn option"\<comment> \<open>it has a connection\<close>
  | Clearing ref              \<comment> \<open>it has made the wrapper\<close>
  | Entering ref              \<comment> \<open>before \<^verbatim>\<open>p.connections[ID] = connection\<close>\<close>
  | Counting ref              \<comment> \<open>before the statistics of the new connection\<close>
  | Releasing                 \<comment> \<open>before the deferred release of the slot\<close>
  | Unlinking ref             \<comment> \<open>\<^verbatim>\<open>closeConnection\<close>: marked unhealthy, before the map is locked\<close>
  | Shutting ref bool         \<comment> \<open>before \<^verbatim>\<open>conn.Close()\<close>; it existed in the map\<close>
  | Uncounting ref bool       \<comment> \<open>before the statistics\<close>
  | Flagging                  \<comment> \<open>\<^verbatim>\<open>Close\<close>: inside \<^verbatim>\<open>closeOnce\<close>, before \<^verbatim>\<open>closed = true\<close>\<close>
  | Signalling                \<comment> \<open>before \<^verbatim>\<open>close(closeChan)\<close>\<close>
  | Stopping                  \<comment> \<open>before the managers are stopped\<close>
  | Snapshotting              \<comment> \<open>before the map is copied and emptied\<close>
  | Sweeping "ref list"       \<comment> \<open>these connections are yet to be closed\<close>
  | Tallying "ref list"       \<comment> \<open>one has been closed and not counted\<close>
  | Draining                  \<comment> \<open>before the channels are closed\<close>

type_synonym threads = "world \<times> activity multiset"

subsection \<open>The pieces\<close>

definition has_room :: "world \<Rightarrow> bool" where
  "has_room w \<longleftrightarrow> (MaxConnections (cfg w) > 0 \<longrightarrow> int (length (connections w)) < MaxConnections (cfg w))"

lemma create_check_None: "create_check w = None \<longleftrightarrow> \<not> isClosed w \<and> has_room w"
  by (auto simp: create_check_def has_room_def)

definition enter :: "ref \<Rightarrow> world \<Rightarrow> world" where
  "enter r w = w\<lparr>connections := AList.update (ID (heap w r)) r (connections w)\<rparr>"

definition count_new :: "ref \<Rightarrow> world \<Rightarrow> world" where
  "count_new r w =
     with_stats (count_live 1 (heap w r)) (with_stats IncrementTotalConnectionsCreated w)"

definition mark_closing :: "ref \<Rightarrow> world \<Rightarrow> world" where
  "mark_closing r w = upd_conn r (UpdateHealth False (now w)) w"

definition unlink :: "ref \<Rightarrow> world \<Rightarrow> bool \<times> world" where
  "unlink r w =
     (let cid = ID (heap w r);
          exists = (map_of (connections w) cid \<noteq> None)
      in (exists, if exists then w\<lparr>connections := AList.delete cid (connections w)\<rparr> else w))"

definition uncount :: "ref \<Rightarrow> bool \<Rightarrow> world \<Rightarrow> world" where
  "uncount r exists w =
     (if exists then
        with_stats (count_live (- 1) (heap w r)) (with_stats IncrementTotalConnectionsClosed w)
      else w)"

text \<open>
  Everything else the pool and the application do: steps that leave the map, the identities of
  the wrappers, the closings, the semaphore, the flags and the books of the statistics alone.
\<close>

definition aside :: "world \<Rightarrow> world \<Rightarrow> bool" where
  "aside w w' \<longleftrightarrow>
     cfg w' = cfg w \<and> connections w' = connections w \<and> pool_closed w' = pool_closed w \<and>
     close_once w' = close_once w \<and> closeChan_closed w' = closeChan_closed w \<and>
     createSemaphore w' = createSemaphore w \<and> next_ref w' = next_ref w \<and> generator w' = generator w \<and>
     books_agree (collector w') (collector w) \<and>
     (\<forall>r. ID (heap w' r) = ID (heap w r) \<and> Conn (heap w' r) = Conn (heap w r) \<and>
          Protocol (heap w' r) = Protocol (heap w r) \<and> IPVersion (heap w' r) = IPVersion (heap w r)) \<and>
     (\<forall>r. closes r (trace w') = closes r (trace w))"

subsection \<open>The steps\<close>

inductive istep :: "threads \<Rightarrow> threads \<Rightarrow> bool" where
  elsewhere: "aside w w' \<Longrightarrow> istep (w, M) (w', M)"
| app_closes: "r < next_ref w \<Longrightarrow> close_wrapper r w = (e, w') \<Longrightarrow> istep (w, M) (w', M)"
| acquires: "create_acquire c w = (Ok u, w') \<Longrightarrow> istep (w, M) (w', add_mset (Checking c) M)"
| looks: "\<not> isClosed w \<Longrightarrow> istep (w, add_mset (Checking c) M) (w, add_mset (Limiting c) M)"
| finds_closed: "isClosed w \<Longrightarrow> istep (w, add_mset (Checking c) M) (w, add_mset Releasing M)"
| passes: "has_room w \<Longrightarrow> istep (w, add_mset (Limiting c) M) (w, add_mset (Dialing c) M)"
| finds_full: "\<not> has_room w \<Longrightarrow> istep (w, add_mset (Limiting c) M) (w, add_mset Releasing M)"
| dials: "create_dial c w = (Ok nc, w') \<Longrightarrow>
     istep (w, add_mset (Dialing c) M) (w', add_mset (Wrapping nc) M)"
| dial_fails: "create_dial c w = (res, w') \<Longrightarrow> \<not> is_Ok res \<Longrightarrow>
     istep (w, add_mset (Dialing c) M) (w', add_mset Releasing M)"
| wraps: "allocate nc w = (r, w') \<Longrightarrow>
     istep (w, add_mset (Wrapping nc) M) (w', add_mset (Clearing r) M)"
| clears: "istep (w, add_mset (Clearing r) M) (clear_if_udp r w, add_mset (Entering r) M)"
| enters: "istep (w, add_mset (Entering r) M) (enter r w, add_mset (Counting r) M)"
| counts: "istep (w, add_mset (Counting r) M) (count_new r w, add_mset Releasing M)"
| releases: "istep (w, add_mset Releasing M) (create_release w, M)"
| marks: "r < next_ref w \<Longrightarrow> istep (w, M) (mark_closing r w, add_mset (Unlinking r) M)"
| unlinks: "unlink r w = (ex, w') \<Longrightarrow>
     istep (w, add_mset (Unlinking r) M) (w', add_mset (Shutting r ex) M)"
| shuts: "close_wrapper r w = (e, w') \<Longrightarrow>
     istep (w, add_mset (Shutting r ex) M) (w', add_mset (Uncounting r ex) M)"
| uncounts: "istep (w, add_mset (Uncounting r ex) M) (uncount r ex w, M)"
| begins_close: "\<not> close_once w \<Longrightarrow> istep (w, M) (w\<lparr>close_once := True\<rparr>, add_mset Flagging M)"
| flags: "istep (w, add_mset Flagging M) (w\<lparr>pool_closed := True\<rparr>, add_mset Signalling M)"
| signals: "close_signal w = (Ok u, w') \<Longrightarrow>
     istep (w, add_mset Signalling M) (w', add_mset Stopping M)"
| stops: "close_managers w = (Ok u, w') \<Longrightarrow>
     istep (w, add_mset Stopping M) (w', add_mset Snapshotting M)"
| snapshots: "permutes_all order \<Longrightarrow> istep (w, add_mset Snapshotting M)
     (w\<lparr>connections := []\<rparr>, add_mset (Sweeping (getAllConnections order w)) M)"
| sweeps: "close_wrapper r w = (e, w') \<Longrightarrow>
     istep (w, add_mset (Sweeping (r # rs)) M) (w', add_mset (Tallying rs) M)"
| tallies: "istep (w, add_mset (Tallying rs) M)
     (with_stats IncrementTotalConnectionsClosed w, add_mset (Sweeping rs) M)"
| swept: "istep (w, add_mset (Sweeping []) M) (w, add_mset Draining M)"
| drains: "close_channels w = (Ok u, w') \<Longrightarrow> istep (w, add_mset Draining M) (w', M)"

abbreviation isteps :: "threads \<Rightarrow> threads \<Rightarrow> bool" where
  "isteps \<equiv> istep\<^sup>*\<^sup>*"

subsection \<open>What is aside\<close>

lemma books_agree_sym: "books_agree a b \<Longrightarrow> books_agree b a"
  by (auto simp: books_agree_def same_books_def split: option.splits)

lemma aside_refl [simp]: "aside w w"
  by (simp add: aside_def)

lemma aside_sym: "aside w w' \<Longrightarrow> aside w' w"
  by (simp add: aside_def books_agree_sym)

lemma aside_trans: "aside a b \<Longrightarrow> aside b c \<Longrightarrow> aside a c"
  by (auto simp: aside_def intro: books_agree_trans)

lemma light_aside: "light w w' \<Longrightarrow> aside w w'"
  using light_books [of w w'] by (simp add: aside_def lightD)

lemma only_queues_aside: "only_queues w w' \<Longrightarrow> aside w w'"
  by (simp add: aside_def only_queuesD)

lemma aside_isteps: "aside w w' \<Longrightarrow> isteps (w, M) (w', M)"
  by (intro r_into_rtranclp elsewhere)

subsection \<open>One goroutine alone\<close>

lemma closeConnection_isteps:
  assumes r: "r < next_ref w" and c: "closeConnection (Some r) w = (res, w')"
  shows "isteps (w, M) (w', M)"
proof -
  obtain ex w1 where u: "unlink r (mark_closing r w) = (ex, w1)" by (cases "unlink r (mark_closing r w)")
  obtain e w2 where s: "close_wrapper r w1 = (e, w2)" by (cases "close_wrapper r w1")
  have "w' = uncount r ex w2"
    using c u s by (auto simp: closeConnection_def unlink_def mark_closing_def uncount_def Let_def split: if_splits)
  moreover have "isteps (w, M) (uncount r ex w2, M)"
    using marks [OF r] unlinks [OF u] shuts [OF s] uncounts
    by (meson rtranclp.rtrancl_into_rtrancl rtranclp.rtrancl_refl)
  ultimately show ?thesis by simp
qed

lemma checks_isteps:
  "isteps (w, add_mset (Checking c) M)
     (w, add_mset (if create_check w = None then Dialing c else Releasing) M)"
  using looks [of w c M] finds_closed [of w c M] passes [of w c M] finds_full [of w c M]
  by (cases "isClosed w"; cases "has_room w")
    (simp_all add: create_check_None rtranclp.rtrancl_into_rtrancl [OF r_into_rtranclp] r_into_rtranclp)

lemma create_publish_pieces:
  "create_publish nc w = (r, w') \<longleftrightarrow>
     (\<exists>w1. allocate nc w = (r, w1) \<and> w' = count_new r (enter r (clear_if_udp r w1)))"
  by (auto simp: create_publish_def enter_def count_new_def Let_def split: prod.splits)

lemma publish_isteps:
  assumes "create_publish nc w = (r, w')"
  shows "isteps (w, add_mset (Wrapping nc) M) (w', add_mset Releasing M)"
proof -
  from assms obtain w1 where a: "allocate nc w = (r, w1)" and w': "w' = count_new r (enter r (clear_if_udp r w1))"
    by (auto simp: create_publish_pieces)
  show ?thesis unfolding w' using wraps [OF a] clears enters counts
    by (meson rtranclp.rtrancl_into_rtrancl rtranclp.rtrancl_refl)
qed

lemma create_body_isteps:
  assumes "create_body c w = (res, w')"
  shows "isteps (w, add_mset (Checking c) M) (w', add_mset Releasing M)"
proof (cases "create_check w")
  case (Some err)
  with assms checks_isteps [of w c M] show ?thesis by (auto simp: create_body_def)
next
  case None
  obtain d w1 where d: "create_dial c w = (d, w1)" by (cases "create_dial c w")
  have start: "isteps (w, add_mset (Checking c) M) (w, add_mset (Dialing c) M)"
    using checks_isteps [of w c M] None by simp
  show ?thesis
  proof (cases "is_Ok d")
    case True
    then obtain nc where nc: "d = Ok nc" by (cases d) auto
    obtain r w2 where p: "create_publish nc w1 = (r, w2)" by (cases "create_publish nc w1")
    have "w' = w2" using assms None d nc p by (simp add: create_body_def)
    moreover have "isteps (w, add_mset (Dialing c) M) (w2, add_mset Releasing M)"
      using dials [OF d [unfolded nc]] publish_isteps [OF p] by (meson converse_rtranclp_into_rtranclp)
    ultimately show ?thesis using start by (auto intro: rtranclp_trans)
  next
    case False
    then have "w' = w1" using assms None d by (cases d) (auto simp: create_body_def)
    with start dial_fails [OF d False] show ?thesis by (auto intro: rtranclp.rtrancl_into_rtrancl)
  qed
qed

lemma createConnection_isteps:
  assumes S: "sem_ok w" and c: "createConnection c w = (res, w')"
  shows "isteps (w, M) (w', M)"
proof -
  obtain a w1 where a: "create_acquire c w = (a, w1)" by (cases "create_acquire c w")
  from S a show ?thesis
  proof (cases rule: create_acquire_cases)
    case gone
    with a c have "w' = w1" by (simp add: createConnection_def)
    with gone show ?thesis by (simp add: aside_isteps light_aside)
  next
    case (slot n)
    obtain b w2 where b: "create_body c w1 = (b, w2)" by (cases "create_body c w1")
    with a slot c have w': "w' = create_release w2" by (simp add: createConnection_def)
    from slot a have "istep (w, M) (w1, add_mset (Checking c) M)" by (intro acquires) simp
    also note create_body_isteps [OF b, of M]
    also have "istep (w2, add_mset Releasing M) (w', M)" unfolding w' by (rule releases)
    finally show ?thesis .
  qed
qed

lemma close_each_isteps:
  "close_each rs err w = (e, w') \<Longrightarrow> isteps (w, add_mset (Sweeping rs) M) (w', add_mset (Sweeping []) M)"
proof (induction rs err w rule: close_each.induct)
  case (2 r rs err w)
  obtain e1 w1 where c: "close_wrapper r w = (e1, w1)" by (cases "close_wrapper r w")
  let ?w2 = "with_stats IncrementTotalConnectionsClosed w1"
  have "isteps (w, add_mset (Sweeping (r # rs)) M) (?w2, add_mset (Sweeping rs) M)"
    using sweeps [OF c] tallies by (meson rtranclp.rtrancl_into_rtrancl rtranclp.rtrancl_refl)
  also have "isteps (?w2, add_mset (Sweeping rs) M) (w', add_mset (Sweeping []) M)"
    using 2 c by simp
  finally show ?case .
qed simp

text \<open>No part of \<^verbatim>\<open>Close\<close> but the closing of the connections returns an error.\<close>

definition errorless :: "(world \<Rightarrow> unit result \<times> world) \<Rightarrow> bool" where
  "errorless f \<longleftrightarrow> (\<forall>w e. fst (f w) \<noteq> Err e)"

lemma errorless_and_then [intro]: "errorless f \<Longrightarrow> errorless g \<Longrightarrow> errorless (and_then f g)"
  unfolding errorless_def and_then_def by (auto split: prod.splits go_result.splits) (metis fst_conv)+

lemma errorless_parts [intro]:
  "errorless close_signal" "errorless (on_manager manager_Stop get put)"
  "errorless (close_queue_step q)" "errorless (close_idle_step p)"
  by (auto simp: errorless_def close_signal_def on_manager_def manager_Stop_def close_queue_step_def
      close_idle_step_def split: option.splits if_splits go_result.splits)

lemma errorless_close: "errorless close_managers" "errorless close_channels"
  unfolding close_managers_def close_channels_def by blast+

lemma and_then_Ok: "and_then f g w = (Ok u, w') \<longleftrightarrow> (\<exists>v w1. f w = (Ok v, w1) \<and> g w1 = (Ok u, w'))"
  by (auto simp: and_then_def split: prod.splits go_result.splits)

text \<open>The first \<^verbatim>\<open>Close\<close>, when it ends, has run all its parts.\<close>

lemma Close_parts:
  assumes c: "Close order w = (res, w')" and res: "res \<noteq> Panic" "res \<noteq> Hang" and o: "\<not> close_once w"
  obtains v wa u w1 err w2 t where
    "close_signal (w\<lparr>close_once := True, pool_closed := True\<rparr>) = (Ok v, wa)" "close_managers wa = (Ok u, w1)"
    "close_connections order w1 = (err, w2)" "close_channels w2 = (Ok t, w')"
proof -
  let ?w0 = "w\<lparr>close_once := True, pool_closed := True\<rparr>"
  obtain x w1 where x: "and_then close_signal close_managers ?w0 = (x, w1)"
    by (cases "and_then close_signal close_managers ?w0")
  have "errorless (and_then close_signal close_managers)" using errorless_close by blast
  with x have "x \<noteq> Err e" for e by (metis errorless_def fst_conv)
  with c x o res obtain u where u: "x = Ok u" by (cases x) (auto simp: Close_def)
  from x u obtain v wa where sig: "close_signal ?w0 = (Ok v, wa)" and man: "close_managers wa = (Ok u, w1)"
    by (auto simp: and_then_Ok)
  obtain err w2 where cc: "close_connections order w1 = (err, w2)" by (cases "close_connections order w1")
  obtain y w3 where y: "close_channels w2 = (y, w3)" by (cases "close_channels w2")
  with errorless_close(2) have "y \<noteq> Err e" for e by (metis errorless_def fst_conv)
  with c x u cc y o res obtain t where t: "y = Ok t" "w' = w3" by (cases y) (auto simp: Close_def)
  from that [OF sig man cc y [unfolded t(1), folded t(2)]] show thesis .
qed

lemma Close_isteps:
  assumes o: "permutes_all order" and c: "Close order w = (res, w')" and res: "res \<noteq> Panic" "res \<noteq> Hang"
  shows "isteps (w, M) (w', M)"
proof (cases "close_once w")
  case True
  with c show ?thesis by (simp add: Close_def)
next
  case False
  with c res show ?thesis
  proof (rule Close_parts, goal_cases)
    case (1 v wa u w1 err w2 t)
    have "isteps (w, M) (w1, add_mset Snapshotting M)"
      using begins_close [OF False] flags [of "w\<lparr>close_once := True\<rparr>"] signals [OF 1(1)] stops [OF 1(2)]
      by (meson rtranclp.rtrancl_into_rtrancl rtranclp.rtrancl_refl)
    also have "isteps (w1, add_mset Snapshotting M)
        (w1\<lparr>connections := []\<rparr>, add_mset (Sweeping (getAllConnections order w1)) M)"
      using snapshots [OF o] by blast
    also have "isteps (w1\<lparr>connections := []\<rparr>, add_mset (Sweeping (getAllConnections order w1)) M)
        (w2, add_mset (Sweeping []) M)"
      using 1(3) by (intro close_each_isteps) (simp add: close_connections_def)
    also have "isteps (w2, add_mset (Sweeping []) M) (w', M)"
      using swept drains [OF 1(4)] by (meson rtranclp.rtrancl_into_rtrancl rtranclp.rtrancl_refl)
    finally show ?thesis .
  qed
qed

end
