(* ===== verification/Pool_Spec.thy ===== *)
theory Pool_Spec
  imports Pool_Typing Pool_Threads
begin

text \<open>
  What the pool promises of its connections, apart from how it keeps them: a state machine over
  the set of connections that are in the pool. A connection is opened under the next number, while
  the pool is open and below its limit; a connection leaves; the pool shuts. The operations of
  the model refine this machine, keep the typing of the channels, and are runs of the interleaved
  machine of \<open>Pool_Threads\<close> in which one goroutine is not interrupted (\<open>evolves\<close>).
\<close>

subsection \<open>The machine\<close>

record pool_spec =
  spec_limit :: int
  spec_open :: "ref set"
  spec_made :: nat
  spec_shut :: bool

inductive spec_step :: "pool_spec \<Rightarrow> pool_spec \<Rightarrow> bool" where
  spec_opens: "\<not> spec_shut a \<Longrightarrow> (0 < spec_limit a \<Longrightarrow> int (card (spec_open a)) < spec_limit a) \<Longrightarrow>
     spec_step a (a\<lparr>spec_open := insert (spec_made a) (spec_open a), spec_made := Suc (spec_made a)\<rparr>)"
| spec_leaves: "r \<in> spec_open a \<Longrightarrow> spec_step a (a\<lparr>spec_open := spec_open a - {r}\<rparr>)"
| spec_shuts: "spec_step a (a\<lparr>spec_open := {}, spec_shut := True\<rparr>)"

abbreviation spec_steps :: "pool_spec \<Rightarrow> pool_spec \<Rightarrow> bool" where
  "spec_steps \<equiv> spec_step\<^sup>*\<^sup>*"

text \<open>What a client may rely on, by induction over the steps of the machine.\<close>

definition spec_ok :: "pool_spec \<Rightarrow> bool" where
  "spec_ok a \<longleftrightarrow>
     finite (spec_open a) \<and> (\<forall>r \<in> spec_open a. r < spec_made a) \<and>
     (0 < spec_limit a \<longrightarrow> int (card (spec_open a)) \<le> spec_limit a)"

lemma spec_step_ok: "spec_step a b \<Longrightarrow> spec_ok a \<Longrightarrow> spec_ok b"
proof (induction rule: spec_step.induct)
  case (spec_opens a)
  then have "spec_made a \<notin> spec_open a" by (auto simp: spec_ok_def)
  with spec_opens show ?case by (auto simp: spec_ok_def less_Suc_eq)
next
  case (spec_leaves r a)
  have "card (spec_open a - {r}) \<le> card (spec_open a)" by (rule card_Diff1_le)
  with spec_leaves show ?case by (auto simp: spec_ok_def)
next
  case (spec_shuts a)
  then show ?case by (simp add: spec_ok_def)
qed

text \<open>Numbers only grow, and a connection that has left, or was never in, does not come in again.\<close>

lemma spec_step_gone:
  "spec_step a b \<Longrightarrow> spec_made a \<le> spec_made b \<and> spec_limit b = spec_limit a \<and>
     (r < spec_made a \<and> r \<notin> spec_open a \<longrightarrow> r \<notin> spec_open b) \<and> (spec_shut a \<longrightarrow> spec_shut b)"
  by (induction rule: spec_step.induct) auto

lemma spec_steps_gone:
  "spec_steps a b \<Longrightarrow> spec_made a \<le> spec_made b \<and> spec_limit b = spec_limit a \<and>
     (r < spec_made a \<and> r \<notin> spec_open a \<longrightarrow> r \<notin> spec_open b) \<and> (spec_shut a \<longrightarrow> spec_shut b)"
proof (induction rule: rtranclp_induct)
  case (step b c)
  from spec_step_gone [OF step(2), of r] step(3) show ?case by auto
qed simp

subsection \<open>The model as a state of the machine\<close>

definition abs_pool :: "world \<Rightarrow> pool_spec" where
  "abs_pool w = \<lparr>spec_limit = MaxConnections (cfg w), spec_open = registered w,
     spec_made = next_ref w, spec_shut = pool_closed w\<rparr>"

definition evolves :: "world \<Rightarrow> world \<Rightarrow> bool" where
  "evolves w w' \<longleftrightarrow> spec_steps (abs_pool w) (abs_pool w') \<and> (typed w \<longrightarrow> typed w') \<and>
     (\<forall>M. isteps (w, M) (w', M))"

lemma evolves_refl [simp]: "evolves w w"
  by (simp add: evolves_def)

lemma evolves_trans [trans]: "evolves a b \<Longrightarrow> evolves b c \<Longrightarrow> evolves a c"
  unfolding evolves_def by (meson rtranclp_trans)

lemma abs_pool_cong:
  "cfg w' = cfg w \<Longrightarrow> connections w' = connections w \<Longrightarrow> next_ref w' = next_ref w \<Longrightarrow>
     pool_closed w' = pool_closed w \<Longrightarrow> abs_pool w' = abs_pool w"
  by (simp add: abs_pool_def)

lemma evolves_same:
  "abs_pool w' = abs_pool w \<Longrightarrow> aside w w' \<Longrightarrow> (typed w \<Longrightarrow> typed w') \<Longrightarrow> evolves w w'"
  by (simp add: evolves_def aside_isteps)

lemma light_abs: "light w w' \<Longrightarrow> abs_pool w' = abs_pool w"
  by (rule abs_pool_cong) (simp_all add: lightD)

lemma light_sym: "light w w' \<Longrightarrow> light w' w"
  by (simp add: light_def same_core_def books_agree_sym)

lemma set_idle_aside: "aside w (set_idle p c w)"
  by (simp add: aside_def set_idle_def)

lemma light_evolves: "light w w' \<Longrightarrow> evolves w w'"
  by (intro evolves_same light_abs light_aside) (simp_all add: light_typed)

lemma card_registered:
  assumes "map_ok w"
  shows "card (registered w) = length (connections w)"
proof -
  have "inj_on snd (set (connections w))"
    using assms unfolding map_ok_def inj_on_def by (metis prod.collapse)
  then have "card (registered w) = card (set (connections w))" by (rule card_image)
  also have "\<dots> = length (connections w)"
    using assms by (simp add: map_ok_def distinct_card distinct_map)
  finally show ?thesis .
qed

lemma abs_pool_ok: "pool_inv w \<Longrightarrow> spec_ok (abs_pool w)"
  using card_registered [of w] pool_invD(2,8) [of w]
  by (auto simp: spec_ok_def abs_pool_def limit_ok_def map_ok_def)

subsection \<open>The operations on one connection\<close>

lemma evolves_close:
  assumes "ids_ok w" "map_ok w" "few w" "r < next_ref w" and c: "closeConnection (Some r) w = (res, w')"
  shows "evolves w w'"
proof -
  have reg: "registered w' = registered w - {r}" by (rule closeConnection_registered [OF assms])
  show ?thesis
  proof (cases "r \<in> registered w")
    case True
    then have "spec_step (abs_pool w) (abs_pool w')"
      using spec_leaves [of r "abs_pool w"] by (simp add: abs_pool_def reg closeConnection_frame(1,4,5) [OF c])
    then show ?thesis using closeConnection_typed [OF c] closeConnection_isteps [OF assms(4) c]
      by (auto simp: evolves_def)
  next
    case False
    then have "abs_pool w' = abs_pool w" by (simp add: abs_pool_def reg closeConnection_frame(1,4,5) [OF c])
    then show ?thesis using closeConnection_typed [OF c] closeConnection_isteps [OF assms(4) c]
      by (simp add: evolves_def)
  qed
qed

lemma evolves_Put:
  assumes I: "inv_core w" and r: "r < next_ref w" and few: "few w" and p: "Put (Some r) w = (res, w')"
  shows "evolves w w'"
proof -
  note put = light_put_prepare [OF light_refl, of w r]
  note L = lightD [OF put]
  have ids: "ids_ok w" "map_ok w" using I by (simp_all add: inv_core_def)
  from I r p show ?thesis
  proof (cases rule: Put_cases)
    case closed
    then show ?thesis using evolves_close [OF ids few r] by blast
  next
    case full
    have "evolves (put_prepare r w) w'"
      using full(4) ids few r light_parts [OF put] by (intro evolves_close) (simp_all add: few_def L)
    then show ?thesis by (rule evolves_trans [OF light_evolves [OF put]])
  next
    case (stored ch b)
    note oq = only_queuesD [OF stored(7)]
    have "abs_pool w' = abs_pool w" by (rule abs_pool_cong) (simp_all add: oq put_counted_def L)
    moreover have "aside (put_prepare r w) (put_counted r (set_idle (GetProtocol (heap w r)) ch (put_prepare r w)))"
      by (rule aside_trans [OF set_idle_aside [of _ "GetProtocol (heap w r)" ch] light_aside]) simp
    then have "aside w w'"
      using aside_trans [OF light_aside [OF put]] only_queues_aside [OF stored(7)] aside_trans by blast
    ultimately show ?thesis using Put_typed [OF I r p] by (rule evolves_same)
  qed
qed

lemma evolves_create:
  assumes I: "pool_inv w" and few: "few w'" and c: "createConnection ctx w = (res, w')"
  shows "evolves w w'"
proof -
  from I have sem: "sem_ok w" by (rule pool_invD)
  from sem c show ?thesis
  proof (cases rule: createConnection_cases)
    case failed
    then show ?thesis by (intro light_evolves)
  next
    case (created r nc w1 w2)
    let ?ws = "w1\<lparr>createSemaphore := one_slot_taken\<rparr>"
    note L = lightD [OF created(2)]
    have core: "inv_core ?ws" using I light_inv_core [OF created(2)] by (simp add: pool_inv_core)
    have map: "map_ok w" using I by (rule pool_invD)
    have chk: "MaxConnections (cfg ?ws) > 0 \<longrightarrow> int (length (connections ?ws)) < MaxConnections (cfg ?ws)"
      and op: "\<not> pool_closed w1"
      using created(3) by (auto simp: create_check_def isClosed_def split: if_splits)
    note f = create_publish_frame [OF created(4)]
    have n: "next_ref ?ws < 2 ^ 64" using few f created(5) by (simp add: few_def)
    note P = create_publish_inv_core(2-4) [OF core n chk created(4)]
    have "abs_pool w' = (abs_pool w)\<lparr>spec_open := insert (next_ref w) (registered w), spec_made := Suc (next_ref w)\<rparr>"
      using P f by (simp add: abs_pool_def created(5) L)
    then have "spec_step (abs_pool w) (abs_pool w')"
      using spec_opens [of "abs_pool w"] chk op card_registered [OF map] by (simp add: abs_pool_def L)
    then show ?thesis using createConnection_typed [OF sem c] createConnection_isteps [OF sem c]
      by (auto simp: evolves_def)
  qed
qed

end
