(* ===== verification/Pool_Keep.thy ===== *)
theory Pool_Keep
  imports Pool_Get Pool_Spec
begin

text \<open>
  What the \<^verbatim>\<open>Get\<close> family keeps and promises. \<open>keeps w w'\<close> is the contract every operation of
  the pool satisfies: wrappers are only ever added, the configuration stays, and, as long as
  identifiers do not repeat, the bookkeeping invariant is kept and the pool evolves as its
  specification allows. \<open>gives w r w'\<close> says that
  an operation has moreover come by the wrapper \<open>r\<close>.
\<close>

subsection \<open>The contract\<close>

text \<open>What only \<^verbatim>\<open>Close\<close> and the managers' \<^verbatim>\<open>Start\<close> and \<^verbatim>\<open>Stop\<close> change.\<close>

definition static :: "world \<Rightarrow> config \<times> bool \<times> bool \<times> bool \<times> manager \<times> manager \<times> manager" where
  "static w = (cfg w, pool_closed w, close_once w, closeChan_closed w,
     healthCheckManager w, cleanupManager w, leakDetector w)"

lemma staticD:
  assumes "static w' = static w"
  shows "cfg w' = cfg w" "pool_closed w' = pool_closed w" "close_once w' = close_once w"
    "closeChan_closed w' = closeChan_closed w" "healthCheckManager w' = healthCheckManager w"
    "cleanupManager w' = cleanupManager w" "leakDetector w' = leakDetector w"
  using assms by (simp_all add: static_def)

lemma light_static: "light w w' \<Longrightarrow> static w' = static w"
  by (simp add: static_def lightD)

lemma only_queues_static: "only_queues w w' \<Longrightarrow> static w' = static w"
  by (simp add: static_def only_queuesD)

lemma closeConnection_static:
  "closeConnection (Some r) w = (res, w') \<Longrightarrow> static w' = static w"
  by (simp add: static_def closeConnection_frame)

lemma static_fields [simp]:
  "static (with_stats f w) = static w" "static (upd_conn r f2 w) = static w"
  "static (set_idle p c w) = static w" "static (w\<lparr>createSemaphore := s\<rparr>) = static w"
  "static (w\<lparr>waiters := ws, next_wid := n\<rparr>) = static w" "static (w\<lparr>coins := n\<rparr>) = static w"
  "static (w\<lparr>waiters := ws\<rparr>) = static w" "static (w\<lparr>now := t\<rparr>) = static w"
  by (simp_all add: static_def)

definition keeps :: "world \<Rightarrow> world \<Rightarrow> bool" where
  "keeps w w' \<longleftrightarrow>
     next_ref w \<le> next_ref w' \<and> static w' = static w \<and> (pool_inv w \<and> few w' \<longrightarrow> pool_inv w' \<and> evolves w w')"

definition gives :: "world \<Rightarrow> ref \<Rightarrow> world \<Rightarrow> bool" where
  "gives w r w' \<longleftrightarrow>
     next_ref w \<le> next_ref w' \<and> static w' = static w \<and>
     (pool_inv w \<and> few w' \<longrightarrow> pool_inv w' \<and> evolves w w' \<and> r < next_ref w')"

lemma few_mono: "next_ref w \<le> next_ref w' \<Longrightarrow> few w' \<Longrightarrow> few w"
  by (simp add: few_def)

lemma keeps_refl [simp]: "keeps w w"
  by (simp add: keeps_def)

lemma keeps_trans [trans]: "keeps a b \<Longrightarrow> keeps b c \<Longrightarrow> keeps a c"
  unfolding keeps_def few_def by (auto intro: evolves_trans)

lemma light_keeps: "light w w' \<Longrightarrow> keeps w w'"
  by (simp add: keeps_def light_inv lightD light_static light_evolves)

lemma gives_light: "gives w r w' \<Longrightarrow> light w' w'' \<Longrightarrow> gives w r w''"
  using evolves_trans [OF _ light_evolves]
  by (auto simp: gives_def light_inv lightD light_static few_def)

lemma gives_keeps: "gives w r w' \<Longrightarrow> keeps w w'"
  by (simp add: gives_def keeps_def)

lemma keeps_gives: "keeps a b \<Longrightarrow> gives b r c \<Longrightarrow> gives a r c"
  unfolding keeps_def gives_def few_def by (auto intro: evolves_trans)

lemma light_record_all [simp]:
  "list_all book_neutral fs \<Longrightarrow> light w (record_all fs w') = light w w'"
  by (induction fs arbitrary: w') simp_all

lemma keeps_record_all [simp]:
  assumes "list_all book_neutral fs"
  shows "keeps w (record_all fs w') = keeps w w'"
proof -
  from assms have "light w' (record_all fs w')" by simp
  note Ld = lightD(6) [OF this] light_static [OF this] and I = light_inv [OF this]
    and E = light_evolves [OF this] light_evolves [OF light_sym [OF this]]
  have "evolves w (record_all fs w') = evolves w w'" using E evolves_trans by blast
  then show ?thesis by (simp add: keeps_def Ld I few_def)
qed

lemma keeps_with_stats [simp]: "book_neutral f \<Longrightarrow> keeps w (with_stats f w') = keeps w w'"
  using keeps_record_all [of "[f]" w w'] by simp

subsection \<open>The operations meet it\<close>

lemma keeps_close:
  assumes "gives w r w1" and "closeConnection (Some r) w1 = (res, w2)"
  shows "keeps w w2"
  using assms closeConnection_inv [of w1 r res w2] evolves_close [of w1 r res w2]
  by (auto intro: evolves_trans simp: gives_def keeps_def few_def pool_invD closeConnection_frame(5) [OF assms(2)] closeConnection_static [OF assms(2)])

lemma notifySpecificWaitQueue_only_queues:
  assumes "notifySpecificWaitQueue q r w = Some (b, w')"
  shows "only_queues w w'"
proof -
  have "case (b, w') of (b, w') \<Rightarrow> only_queues w w'"
  proof (rule notifySpecificWaitQueue.raw_induct
      [where P = "\<lambda>q r w y. case y of (b, w') \<Rightarrow> only_queues w w'", OF _ assms])
    fix f q r w y
    assume IH: "\<And>q r w y. f q r w = Some y \<Longrightarrow> case y of (b, w') \<Rightarrow> only_queues w w'"
      and eq: "(case chan_recv (queue q w) of Received i q' \<Rightarrow>
            (case offer i r (set_queue q q' w) of (sent, w1) \<Rightarrow>
               if sent then Some (True, w1) else f q r w1)
          | RecvZero \<Rightarrow> f q r w | RecvBlocked \<Rightarrow> Some (False, w)) = Some y"
    show "case y of (b, w') \<Rightarrow> only_queues w w'"
    proof (cases "chan_recv (queue q w)")
      case (Received i q')
      obtain s w1 where o: "offer i r (set_queue q q' w) = (s, w1)"
        by (cases "offer i r (set_queue q q' w)")
      have "only_queues w w1"
        using only_queues_trans [OF only_queues_set_queue [OF only_queues_refl] offer_only_queues [OF o]] .
      then show ?thesis using eq Received o IH
        by (cases s) (auto split: prod.splits intro: only_queues_trans)
    qed (use eq IH in auto)
  qed
  then show ?thesis by simp
qed

lemma or_else_only_queues:
  assumes "or_else f g w = Some (b, w')"
    and "\<And>w b w'. f w = Some (b, w') \<Longrightarrow> only_queues w w'"
    and "\<And>w b w'. g w = Some (b, w') \<Longrightarrow> only_queues w w'"
  shows "only_queues w w'"
  using assms(1) unfolding or_else_def
  by (auto split: option.splits bool.splits intro: assms(2,3) only_queues_trans [OF assms(2) assms(3)])

lemma notifyWaitQueue_only_queues:
  assumes "notifyWaitQueue r w = Some (b, w')"
  shows "only_queues w w'"
proof -
  note step = notifySpecificWaitQueue_only_queues
  show ?thesis
    by (rule or_else_only_queues [OF assms [unfolded notifyWaitQueue_def Let_def]])
      (auto elim!: or_else_only_queues intro: step split: if_splits)
qed

lemma Put_next_ref:
  "next_ref (snd (Put (Some r) w)) = next_ref w" "static (snd (Put (Some r) w)) = static w"
proof -
  have L: "light w (put_prepare r w)" by simp
  have P: "next_ref (put_counted r w2) = next_ref w2" "static (put_counted r w2) = static w2" for w2
    using lightD(6) [of w2 "put_counted r w2"] light_static [of w2 "put_counted r w2"] by simp_all
  have c: "next_ref (snd (closeConnection (Some r) w2)) = next_ref w2"
    "static (snd (closeConnection (Some r) w2)) = static w2" for w2
    by (cases "closeConnection (Some r) w2"; simp add: closeConnection_frame closeConnection_static)+
  show "next_ref (snd (Put (Some r) w)) = next_ref w" "static (snd (Put (Some r) w)) = static w"
    by (simp_all add: Put_def put_store_def Let_def c lightD(6) [OF L] light_static [OF L] P
        split: send_result.splits option.splits)
      (auto dest!: notifyWaitQueue_only_queues
        simp: only_queuesD(6) only_queues_static P lightD(6) [OF L] light_static [OF L])
qed

lemma keeps_Put:
  assumes "gives w r w1" and "Put (Some r) w1 = (res, w2)"
  shows "keeps w w2"
  using assms Put_inv [of w1 r res w2] evolves_Put [of w1 r res w2] Put_next_ref [of r w1]
  by (auto intro: evolves_trans simp: gives_def keeps_def few_def pool_inv_core)

lemma idle_members:
  assumes "pool_inv w" and "recv_idle p w = (Some r, w1)"
  shows "r < next_ref w" "p = ProtocolTCP \<Longrightarrow> Protocol (heap w r) = ProtocolTCP"
    "p \<noteq> ProtocolTCP \<Longrightarrow> Protocol (heap w r) \<noteq> ProtocolTCP"
proof -
  from assms(1) have "idle_ok w" by (rule pool_invD)
  moreover from recv_idle_Some [OF assms(2)] have "r \<in> set (buf (idle_of p w))" by auto
  ultimately show "r < next_ref w" "p = ProtocolTCP \<Longrightarrow> Protocol (heap w r) = ProtocolTCP"
    "p \<noteq> ProtocolTCP \<Longrightarrow> Protocol (heap w r) \<noteq> ProtocolTCP"
    by (auto simp: idle_ok_def idle_of_def split: if_splits)
qed

lemma recv_idle_frame:
  assumes "recv_idle p w = (x, w1)"
  shows "static w1 = static w" "heap w1 = heap w" "next_ref w1 = next_ref w" "now w1 = now w"
    "connections w1 = connections w" "pool_closed w1 = pool_closed w"
  using assms by (auto simp: recv_idle_def split: recv_result.splits)

lemma recv_idle_typed: "recv_idle p w = (x, w1) \<Longrightarrow> typed w \<Longrightarrow> typed w1"
  by (erule typed_same) (auto simp: recv_idle_def set_idle_def split: recv_result.splits if_splits)

lemma recv_idle_aside: "recv_idle p w = (x, w1) \<Longrightarrow> aside w w1"
  by (auto simp: recv_idle_def set_idle_aside split: recv_result.splits)

lemma recv_idle_inv:
  assumes I: "pool_inv w" and r: "recv_idle p w = (Some r, w1)"
  shows "pool_inv w1"
proof -
  from recv_idle_Some [OF r] obtain rs where b: "buf (idle_of p w) = r # rs"
    and w1: "w1 = set_idle p ((idle_of p w)\<lparr>buf := rs\<rparr>) w" by blast
  from I have "idle_ok w" by (rule pool_invD)
  with b have "idle_ok w1"
    by (auto simp: w1 idle_ok_def idle_of_def chan_wf_def split: if_splits)
  moreover have "ids_ok w1 = ids_ok w" "map_ok w1 = map_ok w" "owned_ok w1 = owned_ok w"
    "closes_ok w1 = closes_ok w" "queues_ok w1 = queues_ok w" "waiters_ok w1 = waiters_ok w"
    "limit_ok w1 = limit_ok w" "sem_ok w1 = sem_ok w" "books_ok w1 = books_ok w"
    by (simp_all add: w1 inv_defs)
  ultimately show ?thesis using I by (simp add: pool_inv_def)
qed

lemma gives_recv: "recv_idle p w = (Some r, w1) \<Longrightarrow> gives w r w1"
  using staticD(1) [of w1 w] abs_pool_cong [of w1 w]
  by (auto simp: gives_def recv_idle_frame idle_members recv_idle_inv recv_idle_typed recv_idle_aside
      intro!: evolves_same)

lemma light_coins: "light w (w\<lparr>coins := n\<rparr>)"
  by simp

lemma gives_recv_any: "recv_idle_any w = (Some r, w1) \<Longrightarrow> gives w r w1"
  by (elim recv_idle_any_Some)
    (auto intro: keeps_gives [OF light_keeps [OF light_coins] gives_recv])

lemma recv_any_next_ref: "recv_idle_any w = (Some r, w1) \<Longrightarrow> next_ref w1 = next_ref w"
  by (elim recv_idle_any_Some) (simp add: recv_idle_frame)

lemma recv_any_none_light: "recv_idle_any w = (None, w1) \<Longrightarrow> light w w1"
  by (auto dest!: recv_idle_any_None)

text \<open>Creation: unconditionally at most one wrapper more.\<close>

lemma create_publish_next_ref:
  "create_publish nc w = (r, w') \<Longrightarrow>
     next_ref w' = Suc (next_ref w) \<and> static w' = static w \<and> r = next_ref w"
  by (auto simp: create_publish_def allocate_def Let_def
      static_def lightD [OF iffD2 [OF light_clear_if_udp light_refl]])

lemma create_acquire_frame:
  "create_acquire c w = (res, w') \<Longrightarrow> next_ref w' = next_ref w \<and> static w' = static w"
  by (auto simp: create_acquire_def flip_def pass_until_def static_def
      split: send_result.splits if_splits option.splits bool.splits)

lemma create_release_frame [simp]:
  "next_ref (create_release w) = next_ref w" "static (create_release w) = static w"
  by (simp_all add: create_release_def static_def split: recv_result.split)

lemma create_body_next_ref:
  assumes "create_body c w = (res, w')"
  shows "next_ref w \<le> next_ref w' \<and> next_ref w' \<le> Suc (next_ref w) \<and> static w' = static w"
  using assms
proof (cases rule: create_body_cases)
  case failed
  then show ?thesis by (simp add: lightD light_static)
next
  case (created nc w1 r)
  then show ?thesis using create_publish_next_ref [OF created(5)] 
    by (simp add: lightD(6) [OF created(4)] light_static [OF created(4)])
qed

lemma createConnection_next_ref:
  "createConnection c w = (res, w') \<Longrightarrow>
     next_ref w \<le> next_ref w' \<and> next_ref w' \<le> Suc (next_ref w) \<and> static w' = static w"
  by (auto simp: createConnection_def dest!: create_acquire_frame create_body_next_ref
      split: prod.splits go_result.splits)

lemma keeps_create: "createConnection c w = (res, w') \<Longrightarrow> keeps w w'"
  using createConnection_next_ref createConnection_inv evolves_create by (auto simp: keeps_def)

lemma created_facts:
  assumes I: "pool_inv w" and few: "few w'" and c: "createConnection c w = (Ok (Some r), w')"
  shows "r = next_ref w" "r < next_ref w'" "r \<in> registered w'" "\<not> pool_closed w"
    "Protocol (heap w' r) = DetectProtocol (Conn (heap w' r))"
    "IPVersion (heap w' r) = DetectIPVersion (Conn (heap w' r))"
proof -
  from I have S: "sem_ok w" by (rule pool_invD)
  from S c have "r = next_ref w \<and> r < next_ref w' \<and> r \<in> registered w' \<and> \<not> pool_closed w \<and>
      Protocol (heap w' r) = DetectProtocol (Conn (heap w' r)) \<and>
      IPVersion (heap w' r) = DetectIPVersion (Conn (heap w' r))"
  proof (cases rule: createConnection_cases)
    case failed
    then show ?thesis by simp
  next
    case (created r' nc w1 w2)
    let ?ws = "w1\<lparr>createSemaphore := one_slot_taken\<rparr>"
    have I1: "inv_core ?ws" using I light_inv_core [OF created(2)] by (simp add: pool_inv_core)
    have nr: "next_ref w2 = Suc (next_ref ?ws)" using create_publish_next_ref [OF created(4)] by simp
    with few created(5) have f: "next_ref ?ws < 2 ^ 64" by (simp add: few_def)
    have chk: "MaxConnections (cfg ?ws) > 0 \<longrightarrow>
        int (length (connections ?ws)) < MaxConnections (cfg ?ws)"
      using created(3) by (auto simp: create_check_def split: if_splits)
    note P = create_publish_inv_core [OF I1 f chk created(4)]
    have "\<not> pool_closed w" using created(3)
      by (simp add: create_check_def isClosed_def lightD [OF created(2)] split: if_splits)
    with created(1) P created(5) show ?thesis by (simp add: lightD [OF created(2)])
  qed
  then show "r = next_ref w" "r < next_ref w'" "r \<in> registered w'" "\<not> pool_closed w"
    "Protocol (heap w' r) = DetectProtocol (Conn (heap w' r))"
    "IPVersion (heap w' r) = DetectIPVersion (Conn (heap w' r))"
    by blast+
qed

lemma gives_create: "createConnection c w = (Ok (Some r), w') \<Longrightarrow> gives w r w'"
  using createConnection_next_ref [of c w "Ok (Some r)" w'] createConnection_inv [of w c "Ok (Some r)" w']
    created_facts(2) [of w w' c r] evolves_create [of w w' c "Ok (Some r)"]
  by (auto simp: gives_def)

end
