(* ===== verification/Pool_Wait.thy ===== *)
theory Pool_Wait
  imports Pool_Get
begin

text \<open>
  The goroutines inside \<^verbatim>\<open>waitForConnection\<close>, \<^verbatim>\<open>waitForConnectionWithProtocol\<close> and
  \<^verbatim>\<open>waitForConnectionWithIPVersion\<close>. Each blocks in a \<^verbatim>\<open>select\<close>; a step of a waiting
  goroutine is one ready case of that \<^verbatim>\<open>select\<close> with everything up to the next one (or up to the
  return), and is \<open>None\<close> when the case is not ready. The step that returns runs the deferred
  \<^verbatim>\<open>close(waitChan)\<close> and the deferred \<^verbatim>\<open>RecordGetTime\<close> of the calling \<^verbatim>\<open>Get\<close>.
\<close>

datatype wait_choice = JoinQueue | TakeConn | CtxDone | PoolClosing

text \<open>Only the IP version variant closes \<^verbatim>\<open>waitChan\<close> itself, before anything else it does.\<close>

fun closes_early :: "wait_kind \<Rightarrow> bool" where
  "closes_early (WaitIPVersion _) = True"
| "closes_early _ = False"

text \<open>The counters a waiter updates: the protocol variant leaves those of the IP versions alone.\<close>

fun wait_counters :: "wait_kind \<Rightarrow> connection \<Rightarrow> (instant \<Rightarrow> stats \<Rightarrow> stats) list" where
  "wait_counters (WaitProtocol _) c =
     [IncrementSuccessfulGets, IncrementCurrentActiveConnections 1,
      IncrementTotalConnectionsReused, count_idle_protocol (- 1) c]"
| "wait_counters _ c =
     [IncrementSuccessfulGets, IncrementCurrentActiveConnections 1,
      IncrementTotalConnectionsReused, count_idle_version (- 1) c, count_idle_protocol (- 1) c]"

definition borrow_waited :: "wait_kind \<Rightarrow> ref \<Rightarrow> world \<Rightarrow> world" where
  "borrow_waited k r w =
     (let w1 = call_OnBorrow r (upd_conn r IncrementReuseCount (upd_conn r (MarkInUse (now w)) w))
      in record_all (wait_counters k (heap w1 r)) w1)"

definition set_waiter :: "wid \<Rightarrow> waiter \<Rightarrow> world \<Rightarrow> world" where
  "set_waiter i wt w = w\<lparr>waiters := (waiters w)(i \<mapsto> wt)\<rparr>"

text \<open>
  Returning from a waiting function with a result and the effects before the return. Closing
  a channel that \<^verbatim>\<open>Pool.Close\<close> has closed already panics: before the effects where the function
  closes early, after them where the close is deferred.
\<close>

definition wait_return ::
    "wid \<Rightarrow> waiter \<Rightarrow> ref result \<Rightarrow> (world \<Rightarrow> world) \<Rightarrow> world \<Rightarrow> world" where
  "wait_return i wt res effects w =
     (case chan_close (w_chan wt) of
        Some ch \<Rightarrow>
          record_get_time (w_start wt)
            (set_waiter i (wt\<lparr>w_chan := ch, w_phase := Finished res\<rparr>) (effects w))
      | None \<Rightarrow>
          record_get_time (w_start wt)
            (set_waiter i (wt\<lparr>w_phase := Finished Panic\<rparr>)
              (if closes_early (w_kind wt) then w else effects w)))"

definition drain_own :: "waiter \<Rightarrow> waiter" where
  "drain_own wt =
     (if closes_early (w_kind wt) then wt
      else case chan_recv (w_chan wt) of
             Received _ ch \<Rightarrow> wt\<lparr>w_chan := ch\<rparr>
           | _ \<Rightarrow> wt)"

text \<open>The first \<^verbatim>\<open>select\<close>: joining the queue.\<close>

definition join_step :: "wid \<Rightarrow> waiter \<Rightarrow> wait_choice \<Rightarrow> world \<Rightarrow> world option" where
  "join_step i wt choice w =
     (case choice of
        JoinQueue \<Rightarrow>
          (case chan_send i (queue (wait_queue_of (w_kind wt)) w) of
             Sent q \<Rightarrow>
               Some (set_waiter i (wt\<lparr>w_phase := Waiting\<rparr>)
                 (set_queue (wait_queue_of (w_kind wt)) q w))
           | SendBlocked \<Rightarrow> None
           | SendPanic \<Rightarrow> Some (wait_return i wt Panic (\<lambda>w. w) w))
      | TakeConn \<Rightarrow> None
      | CtxDone \<Rightarrow>
          if ctx_done (w_ctx wt) (now w) then
            Some (wait_return i wt (Err ErrGetConnectionTimeout) (with_stats IncrementTimeoutGets) w)
          else None
      | PoolClosing \<Rightarrow>
          if closeChan_closed w then Some (wait_return i wt (Err ErrPoolClosed) (\<lambda>w. w) w)
          else None)"

text \<open>
  The second \<^verbatim>\<open>select\<close>, in its loop: a connection that is not accepted is closed and the waiter
  goes on waiting, without having joined the queue again.
\<close>

definition wait_loop_step :: "wid \<Rightarrow> waiter \<Rightarrow> wait_choice \<Rightarrow> world \<Rightarrow> world option" where
  "wait_loop_step i wt choice w =
     (case choice of
        JoinQueue \<Rightarrow> None
      | TakeConn \<Rightarrow>
          (case chan_recv (w_chan wt) of
             RecvBlocked \<Rightarrow> None
           | RecvZero \<Rightarrow> Some w
           | Received r ch \<Rightarrow>
               (let wt1 = wt\<lparr>w_chan := ch\<rparr>; w1 = set_waiter i wt1 w in
                if wait_accepts (w_kind wt) (heap w1 r) \<and> isConnectionValid (Some r) w1 then
                  Some (wait_return i wt1 (Ok r) (borrow_waited (w_kind wt) r) w1)
                else Some (snd (closeConnection (Some r) w1))))
      | CtxDone \<Rightarrow>
          if ctx_done (w_ctx wt) (now w) then
            Some (wait_return i (drain_own wt) (Err ErrGetConnectionTimeout)
              (with_stats IncrementTimeoutGets) w)
          else None
      | PoolClosing \<Rightarrow>
          if closeChan_closed w then
            Some (wait_return i (drain_own wt) (Err ErrPoolClosed) (\<lambda>w. w) w)
          else None)"

definition wait_step :: "wid \<Rightarrow> wait_choice \<Rightarrow> world \<Rightarrow> world option" where
  "wait_step i choice w =
     (case waiters w i of
        None \<Rightarrow> None
      | Some wt \<Rightarrow>
          (case w_phase wt of
             Joining \<Rightarrow> join_step i wt choice w
           | Waiting \<Rightarrow> wait_loop_step i wt choice w
           | Finished _ \<Rightarrow> None))"

end
