(* ===== verification/Pool_Get_Facts.thy ===== *)
theory Pool_Get_Facts
  imports Pool_Keep Pool_Wait
begin

text \<open>
  What a \<^verbatim>\<open>Get\<close> that returns has done: the connection it lends is in the pool's map, marked in
  use, of the kind asked for, and valid when it came from an idle channel; the calls that end
  otherwise have an error, or wait. The loops are followed by induction over their rounds.
\<close>

subsection \<open>The application's functions\<close>

text \<open>An application function that reports no error has a connection.\<close>

definition answers :: "(nat \<Rightarrow> dial_outcome) \<Rightarrow> bool" where
  "answers f \<longleftrightarrow> (\<forall>n. dial_err (f n) = None \<longrightarrow> dial_conn (f n) \<noteq> None)"

definition honest :: "config \<Rightarrow> bool" where
  "honest c \<longleftrightarrow>
     (\<forall>f. Dialer c = Some f \<longrightarrow> answers f) \<and> (\<forall>l. Listener c = Some l \<longrightarrow> answers l) \<and>
     (\<forall>f. Acceptor c = Some (UserAcceptor f) \<longrightarrow> answers f)"

lemma answersD: "answers f \<Longrightarrow> dial_err (f n) = None \<Longrightarrow> dial_conn (f n) \<noteq> None"
  by (simp add: answers_def)

lemma ask_honest: "answers f \<Longrightarrow> ask f w = ((conn, None), w') \<Longrightarrow> conn \<noteq> None"
  by (auto simp: ask_def answers_def Let_def)

lemma ask_default_acceptor_honest:
  "answers l \<Longrightarrow> ask_default_acceptor c l w = ((conn, None), w') \<Longrightarrow> conn \<noteq> None"
  using answersD [of l "ext_calls w"]
  by (auto simp: ask_default_acceptor_def Let_def defaultAcceptor_def flip_def
      split: option.splits if_splits)

lemma create_dial_result:
  assumes "create_dial c w = (res, w')"
  shows "res \<noteq> Hang" and "honest (cfg w) \<Longrightarrow> res \<noteq> Panic \<and> res \<noteq> Ok None"
proof -
  show "res \<noteq> Hang" using assms
    by (auto simp: create_dial_def Let_def split: pool_mode.splits option.splits acceptor.splits)
  show "res \<noteq> Panic \<and> res \<noteq> Ok None" if "honest (cfg w)"
    using assms that
    by (auto simp: create_dial_def honest_def Let_def
        split: pool_mode.splits option.splits acceptor.splits
        dest!: ask_honest [rotated] ask_default_acceptor_honest [rotated])
qed

lemma create_publish_Conn:
  assumes "create_publish nc w = (r, w')"
  shows "Conn (heap w' r) = nc"
proof -
  obtain r0 w1 where "allocate nc w = (r0, w1)" by (cases "allocate nc w")
  with assms have a: "allocate nc w = (r, w1)" by (auto simp: create_publish_def Let_def)
  have "light w1 (clear_if_udp r w1)" by simp
  note Ld = lightD [OF this]
  from a have "Conn (heap w1 r) = nc" by (auto simp: allocate_def Let_def NewConnection_def)
  with assms a show ?thesis by (auto simp: create_publish_def Let_def Ld)
qed

lemma create_body_result:
  assumes "create_body c w = (res, w')"
  shows "res \<noteq> Hang" "res \<noteq> Ok None"
    and "honest (cfg w) \<Longrightarrow> res \<noteq> Panic \<and> (\<forall>r. res = Ok (Some r) \<longrightarrow> Conn (heap w' r) \<noteq> None)"
  using assms
  by (auto simp: create_body_def split: option.splits prod.splits go_result.splits
      dest: create_dial_result create_publish_Conn)

lemma createConnection_result:
  assumes S: "sem_ok w" and c: "createConnection c w = (res, w')"
  shows "res \<noteq> Hang" "res \<noteq> Ok None"
    and "honest (cfg w) \<Longrightarrow> res \<noteq> Panic \<and> (\<forall>r. res = Ok (Some r) \<longrightarrow> Conn (heap w' r) \<noteq> None)"
proof -
  obtain a wa where a: "create_acquire c w = (a, wa)" by (cases "create_acquire c w")
  obtain b wb where b: "create_body c wa = (b, wb)" by (cases "create_body c wa")
  note B = create_body_result [OF b]
  have rel: "heap (create_release wb) = heap wb" by (simp add: create_release_def split: recv_result.split)
  from S a have "res \<noteq> Hang \<and> res \<noteq> Ok None \<and> (honest (cfg w) \<longrightarrow>
      res \<noteq> Panic \<and> (\<forall>r. res = Ok (Some r) \<longrightarrow> Conn (heap w' r) \<noteq> None))"
  proof (cases rule: create_acquire_cases)
    case (slot n)
    with c a b have "res = b" "w' = create_release wb" by (auto simp: createConnection_def)
    with B slot rel show ?thesis by auto
  next
    case gone
    with c a show ?thesis by (auto simp: createConnection_def)
  qed
  then show "res \<noteq> Hang" "res \<noteq> Ok None"
    and "honest (cfg w) \<Longrightarrow> res \<noteq> Panic \<and> (\<forall>r. res = Ok (Some r) \<longrightarrow> Conn (heap w' r) \<noteq> None)"
    by blast+
qed

subsection \<open>Borrowing\<close>

lemma record_all_frame [simp]:
  "heap (record_all fs w) = heap w" "now (record_all fs w) = now w"
  "connections (record_all fs w) = connections w" "cfg (record_all fs w) = cfg w"
  "static (record_all fs w) = static w"
  "next_ref (record_all fs w) = next_ref w" "pool_closed (record_all fs w) = pool_closed w"
  "waiters (record_all fs w) = waiters w" "trace (record_all fs w) = trace w"
  by (induction fs arbitrary: w) simp_all

lemma hooks_frame [simp]:
  "heap (call_OnBorrow r w) = heap w" "now (call_OnBorrow r w) = now w"
  "connections (call_OnBorrow r w) = connections w" "cfg (call_OnBorrow r w) = cfg w"
  "waiters (call_OnBorrow r w) = waiters w" "collector (call_OnBorrow r w) = collector w"
  "next_ref (call_OnBorrow r w) = next_ref w"
  by (simp_all add: call_OnBorrow_def emit_def)

lemma wait_counters_neutral [simp]: "list_all book_neutral (wait_counters k c)"
  by (cases k) simp_all

lemma borrow_light [simp]:
  "light w (borrow_idle r w)" "light w (borrow_idle_protocol r w)" "light w (borrow_new r w)"
  "light w (borrow_waited k r w)"
  by (simp_all add: borrow_idle_def borrow_idle_protocol_def borrow_new_def borrow_waited_def Let_def)

lemma borrow_heap [simp]:
  "heap (borrow_idle r w) = (heap w)(r := IncrementReuseCount (MarkInUse (now w) (heap w r)))"
  "heap (borrow_idle_protocol r w) =
     (heap w)(r := IncrementReuseCount (MarkInUse (now w) (heap w r)))"
  "heap (borrow_waited k r w) =
     (heap w)(r := IncrementReuseCount (MarkInUse (now w) (heap w r)))"
  "heap (borrow_new r w) = (heap w)(r := MarkInUse (now w) (heap w r))"
  by (simp_all add: borrow_idle_def borrow_idle_protocol_def borrow_new_def borrow_waited_def Let_def)

lemma borrow_now [simp]:
  "now (borrow_idle r w) = now w" "now (borrow_idle_protocol r w) = now w"
  "now (borrow_new r w) = now w" "now (borrow_waited k r w) = now w"
  by (simp_all add: borrow_idle_def borrow_idle_protocol_def borrow_new_def borrow_waited_def Let_def)

definition lent :: "ref \<Rightarrow> world \<Rightarrow> bool" where
  "lent r w \<longleftrightarrow> r \<in> registered w \<and> InUse (heap w r) \<and> LastUsedAt (heap w r) = now w"

text \<open>Validity depends on nothing a borrow changes.\<close>

lemma valid_borrowed:
  assumes "isConnectionValid (Some r) w"
  shows "isConnectionValid (Some r) (borrow_idle r w)"
    "isConnectionValid (Some r) (borrow_idle_protocol r w)"
    "isConnectionValid (Some r) (borrow_waited k r w)"
proof -
  have e: "IsExpired m t (IncrementReuseCount (MarkInUse t' c)) = IsExpired m t c" for m t t' c
    by (rule IsExpired_core) simp
  have "cfg (borrow_idle r w) = cfg w" "cfg (borrow_idle_protocol r w) = cfg w"
    "cfg (borrow_waited k r w) = cfg w"
    using borrow_light lightD(1) by blast+
  with assms show "isConnectionValid (Some r) (borrow_idle r w)"
    "isConnectionValid (Some r) (borrow_idle_protocol r w)"
    "isConnectionValid (Some r) (borrow_waited k r w)"
    by (simp_all add: isConnectionValid_def Let_def e split: if_splits)
qed

lemma valid_open: "isConnectionValid (Some r) w \<Longrightarrow> Conn (heap w r) \<noteq> None"
  by (simp add: isConnectionValid_def Let_def split: if_splits)

subsection \<open>What the end of a loop promises\<close>

definition end_ok :: "(connection \<Rightarrow> bool) \<Rightarrow> world \<Rightarrow> get_end \<Rightarrow> world \<Rightarrow> bool" where
  "end_ok want w e w' \<longleftrightarrow>
     (case e of
        Gets r \<Rightarrow>
          lent r w' \<and> want (heap w' r) \<and> (r < next_ref w \<longrightarrow> isConnectionValid (Some r) w') \<and>
          (honest (cfg w) \<longrightarrow> Conn (heap w' r) \<noteq> None)
      | Crashes \<Rightarrow> \<not> honest (cfg w)
      | Sticks \<Rightarrow> False
      | _ \<Rightarrow> True)"

definition good_end :: "(connection \<Rightarrow> bool) \<Rightarrow> world \<Rightarrow> get_end \<times> world \<Rightarrow> bool" where
  "good_end want w z \<longleftrightarrow>
     keeps w (snd z) \<and> (pool_inv w \<and> few (snd z) \<longrightarrow> end_ok want w (fst z) (snd z))"

lemma good_end_later:
  assumes "keeps w w1" and "good_end want w1 z"
  shows "good_end want w z"
proof -
  have "keeps w (snd z)" using assms keeps_trans by (auto simp: good_end_def)
  moreover have "end_ok want w (fst z) (snd z)" if p: "pool_inv w" "few (snd z)"
  proof -
    from assms have n: "next_ref w \<le> next_ref w1" "next_ref w1 \<le> next_ref (snd z)" "cfg w1 = cfg w"
      using staticD(1) [of w1 w] by (auto simp: keeps_def good_end_def)
    with p have "few w1" by (auto intro: few_mono)
    with p assms have "pool_inv w1" by (auto simp: keeps_def)
    with p assms have "end_ok want w1 (fst z) (snd z)" by (auto simp: good_end_def)
    with n show ?thesis by (auto simp: end_ok_def split: get_end.splits)
  qed
  ultimately show ?thesis by (simp add: good_end_def)
qed

lemma good_end_error [simp]: "good_end want w (Fails e, w') = keeps w w'"
  "good_end want w (Waits k, w') = keeps w w'"
  by (auto simp: good_end_def end_ok_def)

text \<open>From an idle channel.\<close>

lemma good_end_idle:
  assumes g: "gives w r w1" and v: "isConnectionValid (Some r) w1" and k: "want (heap w1 r)"
    and stable: "\<And>t c. want (IncrementReuseCount (MarkInUse t c)) = want c"
  shows "good_end want w (Gets r, borrow_idle r w1)"
    and "good_end want w (Gets r, borrow_idle_protocol r w1)"
proof -
  have main: "good_end want w (Gets r, w2)"
    if l: "light w1 w2" and h: "heap w2 = (heap w1)(r := IncrementReuseCount (MarkInUse (now w1) (heap w1 r)))"
      and n: "now w2 = now w1" and v2: "isConnectionValid (Some r) w2" for w2
  proof -
    have "lent r w2" if "pool_inv w" "few w2"
    proof -
      from gives_light [OF g l] that have "pool_inv w2" "r < next_ref w2"
        by (auto simp: gives_def)
      then have "r \<in> registered w2" using valid_open [OF v2] pool_invD(3) [of w2]
        by (auto simp: owned_ok_def)
      then show ?thesis by (simp add: lent_def h n)
    qed
    moreover have "keeps w w2" using gives_keeps [OF gives_light [OF g l]] .
    ultimately show ?thesis using v2 k valid_open [OF v2]
      by (simp add: good_end_def end_ok_def) (simp add: h stable)
  qed
  show "good_end want w (Gets r, borrow_idle r w1)"
    and "good_end want w (Gets r, borrow_idle_protocol r w1)"
    by (rule main; simp add: valid_borrowed v)+
qed

text \<open>A connection made for this call.\<close>

lemma good_end_new:
  assumes c: "createConnection c w = (Ok (Some r), w1)" and k: "want (heap w1 r)"
    and stable: "\<And>t c. want (MarkInUse t c) = want c"
  shows "good_end want w (Gets r, borrow_new r w1)"
proof -
  have l: "light w1 (borrow_new r w1)" by simp
  have "keeps w (borrow_new r w1)" using gives_keeps [OF gives_light [OF gives_create [OF c] l]] .
  moreover have "end_ok want w (Gets r) (borrow_new r w1)"
    if "pool_inv w" "few (borrow_new r w1)"
  proof -
    from that have f: "few w1" by (simp add: few_def lightD [OF l])
    note cf = created_facts [OF that(1) f c]
    from that(1) have "sem_ok w" by (rule pool_invD)
    note res = createConnection_result(3) [OF this c]
    have "r \<in> registered (borrow_new r w1)" using cf(3) by (simp add: lightD(2) [OF l])
    moreover have "\<not> r < next_ref w" using cf(1) by simp
    ultimately show ?thesis using res k by (simp add: end_ok_def lent_def stable)
  qed
  ultimately show ?thesis by (simp add: good_end_def)
qed

text \<open>A creation that panics or hangs.\<close>

lemma good_end_create_bad:
  "createConnection c w = (Panic, w1) \<Longrightarrow> good_end want w (Crashes, w1)"
  "createConnection c w = (Hang, w1) \<Longrightarrow> good_end want w (Sticks, w1)"
  using createConnection_result [of w c] pool_invD(10) [of w] keeps_create [of c w]
  by (auto simp: good_end_def end_ok_def)

text \<open>A \<^verbatim>\<open>Put\<close> of a wrapper just obtained neither panics nor hangs.\<close>

lemma good_end_Put_bad:
  assumes g: "gives w r w1" and p: "Put (Some r) w1 = (res, w2)"
  shows "res = Panic \<Longrightarrow> good_end want w (Crashes, w2)"
    and "res = Hang \<Longrightarrow> good_end want w (Sticks, w2)"
proof -
  have k: "keeps w w2" by (rule keeps_Put [OF g p])
  have "res \<noteq> Panic \<and> res \<noteq> Hang" if "pool_inv w" "few w2"
  proof -
    from Put_next_ref(1) [of r w1] p that(2) have "few w1" by (simp add: few_def)
    with g that(1) have "inv_core w1" "r < next_ref w1" by (auto simp: gives_def pool_inv_core)
    from Put_inv_core(2,3) [OF this \<open>few w1\<close> p] show ?thesis by simp
  qed
  with k show "res = Panic \<Longrightarrow> good_end want w (Crashes, w2)"
    and "res = Hang \<Longrightarrow> good_end want w (Sticks, w2)"
    by (auto simp: good_end_def)
qed

end
