(* ===== verification/Pool_Get_Ends.thy ===== *)
theory Pool_Get_Ends
  imports Pool_Get_Facts
begin

text \<open>
  The three loops of the \<^verbatim>\<open>Get\<close> family meet \<open>good_end\<close>, by induction over their rounds.
\<close>

lemma keeps_closing:
  "gives w r w1 \<Longrightarrow> keeps w (snd (closeConnection (Some r) w1))"
  by (cases "closeConnection (Some r) w1") (auto intro: keeps_close)

lemma get_any_loop_good:
  "good_end (\<lambda>c. True) w (get_any_loop c w)"
proof (induction c w rule: get_any_loop.induct)
  case (1 c w)
  show ?case
  proof (cases "isClosed w")
    case True
    then show ?thesis by (simp add: get_any_loop.simps)
  next
    case False
    note open_pool = this
    obtain x w1 where rv: "recv_idle_any w = (x, w1)" by (cases "recv_idle_any w")
    show ?thesis
    proof (cases x)
      case (Some r)
      with rv have g: "gives w r w1" by (simp add: gives_recv_any)
      show ?thesis
      proof (cases "isConnectionValid (Some r) w1")
        case True
        with Some rv open_pool have "get_any_loop c w = (Gets r, borrow_idle r w1)"
          by (simp add: get_any_loop.simps)
        then show ?thesis using good_end_idle(1) [OF g True] by simp
      next
        case bad: False
        with Some rv open_pool have "get_any_loop c w = get_any_loop c (snd (closeConnection (Some r) w1))"
          by (subst get_any_loop.simps) simp
        moreover have "good_end (\<lambda>c. True) (snd (closeConnection (Some r) w1))
            (get_any_loop c (snd (closeConnection (Some r) w1)))"
          using "1.IH" open_pool rv Some bad by simp
        ultimately show ?thesis using good_end_later [OF keeps_closing [OF g]] by simp
      qed
    next
      case None
      with rv have l: "keeps w w1" by (simp add: light_keeps recv_any_none_light)
      obtain res w2 where c: "createConnection c w1 = (res, w2)" by (cases "createConnection c w1")
      have k: "keeps w1 w2" by (rule keeps_create [OF c])
      have "good_end (\<lambda>c. True) w1 (get_any_loop c w)"
        using open_pool rv None c k good_end_new [of c w1 _ w2 "\<lambda>c. True"] good_end_create_bad [of c w1]
        by (subst get_any_loop.simps) (auto simp: Let_def split: go_result.split option.split)
      then show ?thesis by (rule good_end_later [OF l])
    qed
  qed
qed

lemma get_version_loop_good:
  "good_end (\<lambda>c. GetIPVersion c = v) w (get_version_loop n m c v w)"
proof (induction n arbitrary: m w)
  case 0
  then show ?case by simp
next
  case (Suc n)
  let ?good = "\<lambda>w z. good_end (\<lambda>c. GetIPVersion c = v) w z"
  have put: "?good w0 (case Put (Some r) w1 of
        (Panic, w2) \<Rightarrow> (Crashes, w2)
      | (Hang, w2) \<Rightarrow> (Sticks, w2)
      | (_, w2) \<Rightarrow>
          if Suc m \<ge> 3 then (Fails ErrNoConnectionForIPVersion, record_all [IncrementFailedGets] w2)
          else get_version_loop n (Suc m) c v w2)" if g: "gives w0 r w1" for w0 r w1
  proof -
    obtain res w2 where p: "Put (Some r) w1 = (res, w2)" by (cases "Put (Some r) w1")
    have k: "keeps w0 w2" by (rule keeps_Put [OF g p])
    show ?thesis using good_end_Put_bad [OF g p] good_end_later [OF k Suc.IH] k
      by (cases res) (simp_all add: p)
  qed
  show ?case
  proof (cases "isClosed w")
    case True
    then show ?thesis by simp
  next
    case False
    note open_pool = this
    obtain x w1 where rv: "recv_idle_any w = (x, w1)" by (cases "recv_idle_any w")
    show ?thesis
    proof (cases x)
      case (Some r)
      with rv have g: "gives w r w1" by (simp add: gives_recv_any)
      show ?thesis
        using open_pool rv Some put [OF g] good_end_later [OF keeps_closing [OF g] Suc.IH]
          good_end_idle(1) [OF g, of "\<lambda>c. GetIPVersion c = v"]
        by simp
    next
      case None
      with rv have l: "keeps w w1" by (simp add: light_keeps recv_any_none_light)
      obtain res w2 where c: "createConnection c w1 = (res, w2)" by (cases "createConnection c w1")
      have k: "keeps w1 w2" by (rule keeps_create [OF c])
      have "?good w1 (get_version_loop (Suc n) m c v w)"
      proof (cases "max_reached w1")
        case True
        with open_pool rv None show ?thesis by simp
      next
        case False
        have new: "res = Ok (Some r) \<Longrightarrow> gives w1 r w2" for r using c gives_create by simp
        show ?thesis
        proof (cases "\<exists>r. res = Ok (Some r) \<and> GetIPVersion (heap w2 r) \<noteq> v")
          case True
          then obtain r where "res = Ok (Some r)" "GetIPVersion (heap w2 r) \<noteq> v" by blast
          with open_pool rv None c False put [OF new] show ?thesis by simp
        next
          case right: False
          with open_pool rv None c k False good_end_create_bad [of c w1]
            good_end_new [of c w1 _ w2 "\<lambda>c. GetIPVersion c = v"]
          show ?thesis by (auto split: go_result.split option.split)
        qed
      qed
      then show ?thesis by (rule good_end_later [OF l])
    qed
  qed
qed

lemma light_retry_delay: "retry_delay c w = (b, w') \<Longrightarrow> light w w'"
  by (auto simp: retry_delay_def Let_def flip_def split: option.splits if_splits)

lemma recv_idle_Received:
  "chan_recv (idle_of p w) = Received r ch \<Longrightarrow> recv_idle p w = (Some r, set_idle p ch w)"
  by (simp add: recv_idle_def)

lemma get_protocol_loop_good:
  "good_end (\<lambda>c. GetProtocol c = p) w (get_protocol_loop n m f c p w)"
proof (induction n arbitrary: m f w)
  case 0
  then show ?case by simp
next
  case (Suc n)
  let ?good = "\<lambda>w z. good_end (\<lambda>c. GetProtocol c = p) w z"
  have put: "?good w0 (case Put (Some r) w1 of
        (Panic, w2) \<Rightarrow> (Crashes, w2) | (Hang, w2) \<Rightarrow> (Sticks, w2) | (_, w2) \<Rightarrow> k w2)"
    if g: "gives w0 r w1" and nxt: "\<And>w2. keeps w0 w2 \<Longrightarrow> ?good w0 (k w2)" for w0 r w1 k
  proof -
    obtain res w2 where pt: "Put (Some r) w1 = (res, w2)" by (cases "Put (Some r) w1")
    have k: "keeps w0 w2" by (rule keeps_Put [OF g pt])
    show ?thesis using good_end_Put_bad [OF g pt] nxt [OF k]
      by (cases res) (simp_all add: pt)
  qed
  have loop: "?good w0 (get_protocol_loop n m' f' c p w2)" if "keeps w0 w2" for w0 w2 m' f'
    using good_end_later [OF that Suc.IH] .
  show ?case
  proof (cases "isClosed w")
    case True
    then show ?thesis by simp
  next
    case False
    note open_pool = this
    show ?thesis
    proof (cases "chan_recv (idle_of p w)")
      case (Received r ch)
      let ?w1 = "set_idle p ch w"
      have g: "gives w r ?w1" by (rule gives_recv [OF recv_idle_Received [OF Received]])
      show ?thesis
        using open_pool Received put [OF g loop] loop [OF keeps_closing [OF g]]
          good_end_idle(2) [OF g, of "\<lambda>c. GetProtocol c = p"]
        by (simp add: Let_def del: set_idle_fields)
    next
      case RecvZero
      with open_pool loop [OF keeps_refl] show ?thesis by simp
    next
      case RecvBlocked
      obtain res w2 where c: "createConnection c w = (res, w2)" by (cases "createConnection c w")
      have k: "keeps w w2" by (rule keeps_create [OF c])
      show ?thesis
      proof (cases "max_reached w")
        case True
        with open_pool RecvBlocked show ?thesis by simp
      next
        case False
        show ?thesis
        proof (cases res)
          case (Ok x)
          show ?thesis
          proof (cases x)
            case None
            with open_pool RecvBlocked False c k Ok show ?thesis by simp
          next
            case (Some r)
            have g: "gives w r w2" using c Ok Some gives_create by simp
            show ?thesis
            proof (cases "GetProtocol (heap w2 r) = p")
              case True
              with open_pool RecvBlocked False c Ok Some
                good_end_new [of c w r w2 "\<lambda>c. GetProtocol c = p"]
              show ?thesis by simp
            next
              case mis: False
              have "?good w (if Suc m \<ge> 3
                  then (Fails ErrNoConnectionForProtocol, record_all [IncrementFailedGets] w3)
                  else get_protocol_loop n (Suc m) f c p w3)" if "keeps w w3" for w3
                using loop [OF that] that by simp
              from put [OF g this] open_pool RecvBlocked False c Ok Some mis
              show ?thesis by simp
            qed
          qed
        next
          case (Err e)
          obtain b w3 where rd: "retry_delay c w2 = (b, w3)" by (cases "retry_delay c w2")
          have "keeps w w3" using keeps_trans [OF k light_keeps [OF light_retry_delay [OF rd]]] .
          with open_pool RecvBlocked False c k Err rd loop [of w w3 m "Suc f"] show ?thesis
            by (cases b) simp_all
        qed (use open_pool RecvBlocked False c good_end_create_bad [of c w w2] in simp_all)
      qed
    qed
  qed
qed

subsection \<open>When a call waits\<close>

text \<open>The variants with a kind wait only at the limit of connections; \<^verbatim>\<open>GetWithProtocol\<close> only
  with no idle connection of the protocol at hand.\<close>

lemma get_protocol_loop_waits:
  "get_protocol_loop n m f c p w = (Waits k, w') \<Longrightarrow> max_reached w' \<and> buf (idle_of p w') = []"
proof (induction n arbitrary: m f w)
  case (Suc n)
  then show ?case
    by (auto simp: Let_def chan_cases split: if_splits recv_result.splits prod.splits go_result.splits
        option.splits bool.splits)
qed simp

lemma get_version_loop_waits:
  "get_version_loop n m c v w = (Waits k, w') \<Longrightarrow> max_reached w'"
proof (induction n arbitrary: m w)
  case (Suc n)
  then show ?case
    by (auto split: if_splits prod.splits go_result.splits option.splits)
qed simp

subsection \<open>The exported functions\<close>

definition get_ok :: "(connection \<Rightarrow> bool) \<Rightarrow> world \<Rightarrow> get_result \<Rightarrow> world \<Rightarrow> bool" where
  "get_ok want w res w' \<longleftrightarrow>
     (case res of
        GotConn r \<Rightarrow>
          lent r w' \<and> want (heap w' r) \<and> (r < next_ref w \<longrightarrow> isConnectionValid (Some r) w') \<and>
          (honest (cfg w) \<longrightarrow> Conn (heap w' r) \<noteq> None)
      | GotPanic \<Rightarrow> \<not> honest (cfg w)
      | GotHang \<Rightarrow> False
      | _ \<Rightarrow> True)"

definition good_get :: "(connection \<Rightarrow> bool) \<Rightarrow> world \<Rightarrow> get_result \<times> world \<Rightarrow> bool" where
  "good_get want w z \<longleftrightarrow>
     keeps w (snd z) \<and> (pool_inv w \<and> few (snd z) \<longrightarrow> get_ok want w (fst z) (snd z))"

lemma record_get_time_frame [simp]:
  "light w (record_get_time t w') = light w w'" "heap (record_get_time t w') = heap w'"
  "now (record_get_time t w') = now w'" "connections (record_get_time t w') = connections w'"
  "static (record_get_time t w') = static w'" "cfg (record_get_time t w') = cfg w'"
  "next_ref (record_get_time t w') = next_ref w'"
  "waiters (record_get_time t w') = waiters w'" "keeps w (record_get_time t w') = keeps w w'"
  "few (record_get_time t w') = few w'"
  by (simp_all add: record_get_time_def few_def)

lemma isConnectionValid_cong:
  "heap w' r = heap w r \<Longrightarrow> cfg w' = cfg w \<Longrightarrow> now w' = now w \<Longrightarrow>
     isConnectionValid (Some r) w' = isConnectionValid (Some r) w"
  by (simp add: isConnectionValid_def)

lemma record_get_time_valid [simp]:
  "isConnectionValid (Some r) (record_get_time t w) = isConnectionValid (Some r) w"
  by (rule isConnectionValid_cong) simp_all

lemma record_get_time_lent [simp]: "lent r (record_get_time t w) = lent r w"
  by (simp add: lent_def)

text \<open>A new waiting goroutine.\<close>

lemma waiter_inv:
  assumes I: "pool_inv w"
    and a: "i < n \<and> next_wid w \<le> n \<and> chan_cap (w_chan wt) = 1 \<and> (\<forall>r \<in> set (buf (w_chan wt)). r < next_ref w)"
  shows "pool_inv (w\<lparr>waiters := (waiters w)(i \<mapsto> wt), next_wid := n\<rparr>)"
proof -
  let ?w = "w\<lparr>waiters := (waiters w)(i \<mapsto> wt), next_wid := n\<rparr>"
  have q: "queue q ?w = queue q w" for q by (cases q) simp_all
  from I have "waiters_ok w" "queues_ok w" by (simp_all add: pool_invD)
  with a have "waiters_ok ?w" "queues_ok ?w"
    by (auto simp: waiters_ok_def queues_ok_def q) (use a in force)+
  moreover have "ids_ok ?w = ids_ok w" "map_ok ?w = map_ok w" "owned_ok ?w = owned_ok w"
    "closes_ok ?w = closes_ok w" "idle_ok ?w = idle_ok w" "limit_ok ?w = limit_ok w"
    "sem_ok ?w = sem_ok w" "books_ok ?w = books_ok w"
    by (simp_all add: inv_defs)
  ultimately show ?thesis using I by (simp add: pool_inv_def)
qed

lemma keeps_waiter:
  assumes a: "pool_inv w \<Longrightarrow> i < n \<and> next_wid w \<le> n \<and> chan_cap (w_chan wt) = 1 \<and>
      (\<forall>r \<in> set (buf (w_chan wt)). r < next_ref w)"
    and t: "pool_inv w \<Longrightarrow> typed w \<Longrightarrow> waiter_typed w wt \<and>
      (\<forall>q. i \<in> set (buf (queue q w)) \<longrightarrow> standing q wt)"
  shows "keeps w (w\<lparr>waiters := (waiters w)(i \<mapsto> wt), next_wid := n\<rparr>)"
proof -
  let ?w = "w\<lparr>waiters := (waiters w)(i \<mapsto> wt), next_wid := n\<rparr>"
  have q: "queue q ?w = queue q w" for q by (cases q) simp_all
  have "pool_inv ?w" if "pool_inv w" using waiter_inv [OF that a [OF that]] .
  moreover have "abs_pool ?w = abs_pool w" by (rule abs_pool_cong) simp_all
  moreover have "typed ?w" if "pool_inv w" "typed w"
  proof -
    have "waiter_typed ?w = waiter_typed w"
      by (simp add: waiter_typed_def fun_eq_iff cong: wait_phase.case_cong)
    with t [OF that] that(2) show ?thesis by (auto simp: typed_def q)
  qed
  moreover have "aside w ?w" by (simp add: aside_def)
  ultimately show ?thesis by (simp add: keeps_def evolves_same)
qed

lemma enter_wait_keeps: "enter_wait k c start w = (i, w') \<Longrightarrow> keeps w w'"
  using pool_invD(6) [of w]
  by (fastforce simp: enter_wait_def Let_def make_chan_def waiter_typed_def queues_ok_def intro!: keeps_waiter)

lemma finish_get_good:
  assumes "good_end want w z"
  shows "good_get want w (finish_get c t z)"
proof -
  obtain e w1 where z: "z = (e, w1)" by (cases z)
  show ?thesis
  proof (cases e)
    case (Waits k)
    obtain i w2 where ew: "enter_wait k c t w1 = (i, w2)" by (cases "enter_wait k c t w1")
    from assms z Waits have "keeps w w1" by simp
    then have "keeps w w2" using enter_wait_keeps [OF ew] keeps_trans by blast
    then show ?thesis by (simp add: z Waits ew good_get_def get_ok_def)
  qed (use assms in \<open>auto simp: z good_get_def good_end_def end_ok_def get_ok_def\<close>)
qed

lemma good_get_later:
  assumes "light w w1" and "good_get want w1 z"
  shows "good_get want w z"
  using assms keeps_trans [OF light_keeps [OF assms(1)]]
  by (auto simp: good_get_def get_ok_def light_inv lightD [OF assms(1)] split: get_result.splits)

lemma good_get_closed [simp]: "good_get want w (GotErr e, w)"
  by (simp add: good_get_def get_ok_def)

lemma GetWithTimeout_good: "good_get (\<lambda>c. True) w (GetWithTimeout c d w)"
proof -
  have "light w (with_stats IncrementTotalGetRequests w)" by simp
  from good_get_later [OF this finish_get_good [OF get_any_loop_good]] show ?thesis
    by (simp add: GetWithTimeout_def Let_def)
qed

lemma good_get_weaken: "good_get (\<lambda>c. True) w z \<Longrightarrow> (\<And>c. want c) \<Longrightarrow> good_get want w z"
  by (auto simp: good_get_def get_ok_def split: get_result.splits)

lemma GetWithIPVersion_good:
  "good_get (\<lambda>c. v = IPVersionUnknown \<or> GetIPVersion c = v) w (GetWithIPVersion c v d w)"
proof (cases "v = IPVersionUnknown")
  case True
  then show ?thesis
    by (simp add: GetWithIPVersion_def good_get_weaken [OF GetWithTimeout_good])
next
  case False
  have "light w (with_stats IncrementTotalGetRequests w)" by simp
  from good_get_later [OF this finish_get_good [OF get_version_loop_good]] False show ?thesis
    by (simp add: GetWithIPVersion_def Let_def)
qed

lemma GetWithProtocol_good:
  "good_get (\<lambda>c. p = ProtocolUnknown \<or> GetProtocol c = p) w (GetWithProtocol c p d w)"
proof (cases "p = ProtocolUnknown")
  case True
  then show ?thesis
    by (simp add: GetWithProtocol_def good_get_weaken [OF GetWithTimeout_good])
next
  case False
  have "light w (with_stats IncrementTotalGetRequests w)" by simp
  from good_get_later [OF this finish_get_good [OF get_protocol_loop_good]] False show ?thesis
    by (simp add: GetWithProtocol_def Let_def)
qed

text \<open>A call that waits has found the pool at its limit.\<close>

lemma enter_wait_frame:
  "enter_wait k c t w = (i, w') \<Longrightarrow>
     max_reached w' = max_reached w \<and> idle_of p w' = idle_of p w"
  by (auto simp: enter_wait_def Let_def max_reached_def getCurrentConnectionsCount_def idle_of_def)

lemma finish_get_waits:
  assumes "finish_get c t z = (GotWait i, w')"
  shows "\<exists>k w1. z = (Waits k, w1) \<and> max_reached w' = max_reached w1 \<and> idle_of p w' = idle_of p w1"
proof -
  obtain e w1 where z: "z = (e, w1)" by (cases z)
  with assms show ?thesis
    by (cases e) (auto dest: enter_wait_frame [where p = p] split: prod.splits)
qed

lemma GetWithProtocol_waits:
  "p \<noteq> ProtocolUnknown \<Longrightarrow> GetWithProtocol c p d w = (GotWait i, w') \<Longrightarrow>
     max_reached w' \<and> buf (idle_of p w') = []"
  by (auto simp: GetWithProtocol_def Let_def split: if_splits
      dest!: finish_get_waits [where p = p] get_protocol_loop_waits)

lemma GetWithIPVersion_waits:
  "v \<noteq> IPVersionUnknown \<Longrightarrow> GetWithIPVersion c v d w = (GotWait i, w') \<Longrightarrow> max_reached w'"
  by (auto simp: GetWithIPVersion_def Let_def split: if_splits
      dest!: finish_get_waits get_version_loop_waits)

subsection \<open>What is left in the idle channels\<close>

lemma create_publish_idle: "create_publish nc w = (r, w') \<Longrightarrow> idle_of p w' = idle_of p w"
proof -
  assume a: "create_publish nc w = (r, w')"
  then obtain w1 where w1: "allocate nc w = (r, w1)" by (cases "allocate nc w") (auto simp: create_publish_def Let_def)
  have "light w1 (clear_if_udp r w1)" by simp
  note L = lightD [OF this]
  from w1 have "idle_of p w1 = idle_of p w" by (auto simp: allocate_def Let_def idle_of_def)
  with a w1 show ?thesis by (auto simp: create_publish_def Let_def idle_of_def L)
qed

lemma createConnection_idle:
  assumes "sem_ok w" and "createConnection c w = (res, w')"
  shows "idle_of p w' = idle_of p w"
  using assms
proof (cases rule: createConnection_cases)
  case failed
  then show ?thesis by (simp add: idle_of_def lightD)
next
  case (created r nc w1 w2)
  then show ?thesis using create_publish_idle [OF created(4), of p]
    by (cases "p = ProtocolTCP") (simp_all add: idle_of_def lightD [OF created(2)])
qed

lemma recv_idle_open:
  assumes "recv_idle p w = (x, w1)"
  shows "chan_closed (idle_of q w1) = chan_closed (idle_of q w)" "createSemaphore w1 = createSemaphore w"
  using assms by (auto simp: recv_idle_def set_idle_def idle_of_def chan_cases
      split: recv_result.splits if_splits)

lemma recv_idle_any_empty:
  assumes "recv_idle_any w = (None, w1)" and "\<And>p. \<not> chan_closed (idle_of p w)"
  shows "buf (idle_of p w1) = []"
  using assms(1) assms(2) [of ProtocolTCP] assms(2) [of ProtocolUDP]
  by (auto simp: recv_idle_any_def recv_idle_def flip_def Let_def chan_cases idle_of_def
      split: if_splits recv_result.splits)

lemma light_borrows: "light w (borrow_idle r w)" "light w (borrow_new r w)"
  by (simp_all add: borrow_idle_def borrow_new_def count_idle_version_def count_idle_protocol_def Let_def)

lemmas borrows_frame = lightD [OF light_borrows(1)] lightD [OF light_borrows(2)]

text \<open>A new connection is made, and the call waits, only when no idle connection is left.\<close>

lemma get_any_loop_idle:
  assumes "get_any_loop c w = (e, w')" and "sem_ok w" and "\<And>p. \<not> chan_closed (idle_of p w)"
  shows "next_ref w' = next_ref w \<and> (\<forall>k. e \<noteq> Waits k) \<or>
    next_ref w' \<le> Suc (next_ref w) \<and> (\<forall>p. buf (idle_of p w') = [])"
  using assms
proof (induction c w arbitrary: e w' rule: get_any_loop.induct)
  case (1 c w)
  obtain x w1 where rv: "recv_idle_any w = (x, w1)" by (cases "recv_idle_any w")
  show ?case
  proof (cases "isClosed w")
    case True
    with 1(2) show ?thesis by (auto simp: get_any_loop.simps)
  next
    case open_pool: False
    show ?thesis
    proof (cases x)
      case (Some r)
      with rv obtain q n where "recv_idle q (w\<lparr>coins := n\<rparr>) = (Some r, w1)" by (metis recv_idle_any_Some)
      from recv_idle_frame [OF this] recv_idle_open [OF this]
      have f: "next_ref w1 = next_ref w" "createSemaphore w1 = createSemaphore w" "\<not> chan_closed (idle_of p w1)" for p
        using 1(4) by simp_all
      show ?thesis
      proof (cases "isConnectionValid (Some r) w1")
        case True
        with 1(2) rv Some open_pool f(1) show ?thesis
          by (simp add: get_any_loop.simps) (auto simp: borrow_idle_def lightD)
      next
        case False
        obtain res w2 where cc: "closeConnection (Some r) w1 = (res, w2)" by (cases "closeConnection (Some r) w1")
        note F = closeConnection_frame [OF cc]
        from 1(2) rv Some open_pool False cc have "get_any_loop c w2 = (e, w')"
          by (subst (asm) get_any_loop.simps) simp
        note IH = 1(1) [OF open_pool rv [symmetric] Some False, unfolded cc snd_conv, OF this]
        have "idle_of p w2 = idle_of p w1" for p by (simp add: idle_of_def F)
        with IH 1(3) f F(5,8) show ?thesis by (simp add: sem_ok_def)
      qed
    next
      case None
      note E = recv_idle_any_empty [OF rv [unfolded None] 1(4)]
      from rv None obtain n where w1: "w1 = w\<lparr>coins := n\<rparr>" by (auto dest: recv_idle_any_None)
      show ?thesis
      proof (cases "max_reached w1")
        case True
        with 1(2) rv None open_pool E w1 show ?thesis by (simp add: get_any_loop.simps) auto
      next
        case False
        obtain res w2 where c: "createConnection c w1 = (res, w2)" by (cases "createConnection c w1")
        have "sem_ok w1" using 1(3) w1 by (simp add: sem_ok_def)
        note C = createConnection_idle [OF this c] createConnection_next_ref [OF c]
        from 1(2) rv None open_pool False c have "next_ref w' = next_ref w2" "idle_of p w' = idle_of p w2" for p
          by (auto simp: get_any_loop.simps borrow_new_def Let_def idle_of_def lightD
              split: go_result.splits option.splits if_splits)
        then show ?thesis using C E w1 by simp
      qed
    qed
  qed
qed

lemma GetWithTimeout_idle:
  assumes I: "pool_inv w" and g: "GetWithTimeout c d w = (res, w')"
  shows "next_ref w' = next_ref w \<and> (\<forall>i. res \<noteq> GotWait i) \<or>
    next_ref w' \<le> Suc (next_ref w) \<and> (\<forall>p. buf (idle_of p w') = [])"
proof (cases "isClosed w")
  case True
  with g show ?thesis by (auto simp: GetWithTimeout_def)
next
  case False
  let ?w1 = "with_stats IncrementTotalGetRequests w"
  let ?c = "limit_ctx c d ?w1"
  obtain e w2 where e: "get_any_loop ?c ?w1 = (e, w2)" by (cases "get_any_loop ?c ?w1")
  have "sem_ok ?w1" "\<not> chan_closed (idle_of p ?w1)" for p
    using pool_invD(5,10) [OF I] False by (auto simp: sem_ok_def idle_ok_def idle_of_def isClosed_def)
  from get_any_loop_idle [OF e this] have L: "next_ref w2 = next_ref w \<and> (\<forall>k. e \<noteq> Waits k) \<or>
    next_ref w2 \<le> Suc (next_ref w) \<and> (\<forall>p. buf (idle_of p w2) = [])" by simp
  have "next_ref w' = next_ref w2 \<and> (\<forall>p. idle_of p w' = idle_of p w2) \<and> ((\<forall>k. e \<noteq> Waits k) \<longrightarrow> (\<forall>i. res \<noteq> GotWait i))"
    using g False e
    by (cases e) (auto simp: GetWithTimeout_def Let_def enter_wait_def record_get_time_def idle_of_def)
  with L show ?thesis by auto
qed

subsection \<open>By kind\<close>

fun get_kind :: "wait_kind \<Rightarrow> ctx \<Rightarrow> duration \<Rightarrow> world \<Rightarrow> get_result \<times> world" where
  "get_kind WaitAny c d = GetWithTimeout c d"
| "get_kind (WaitProtocol p) c d = GetWithProtocol c p d"
| "get_kind (WaitIPVersion v) c d = GetWithIPVersion c v d"

text \<open>A kind that names a protocol or a version; for the others the functions are \<^verbatim>\<open>GetWithTimeout\<close>.\<close>

definition names_it :: "wait_kind \<Rightarrow> bool" where
  "names_it k \<longleftrightarrow> k \<noteq> WaitProtocol ProtocolUnknown \<and> k \<noteq> WaitIPVersion IPVersionUnknown"

lemma get_kind_good:
  assumes "names_it k"
  shows "good_get (wait_accepts k) w (get_kind k c d w)"
proof (cases k)
  case WaitAny
  have "wait_accepts WaitAny = (\<lambda>c. True)" by (simp add: fun_eq_iff)
  with WaitAny GetWithTimeout_good [of w c d] show ?thesis by simp
next
  case (WaitProtocol p)
  have "wait_accepts (WaitProtocol p) = (\<lambda>c. GetProtocol c = p)" by (simp add: fun_eq_iff)
  with WaitProtocol assms GetWithProtocol_good [of p w c d] show ?thesis by (simp add: names_it_def)
next
  case (WaitIPVersion v)
  have "wait_accepts (WaitIPVersion v) = (\<lambda>c. GetIPVersion c = v)" by (simp add: fun_eq_iff)
  with WaitIPVersion assms GetWithIPVersion_good [of v w c d] show ?thesis by (simp add: names_it_def)
qed

lemma get_kind_waits:
  assumes "pool_inv w" and "names_it k" and "get_kind k c d w = (GotWait i, w')"
  shows "(k \<noteq> WaitAny \<longrightarrow> max_reached w') \<and>
    (\<forall>p. k = WaitAny \<or> k = WaitProtocol p \<longrightarrow> buf (idle_of p w') = [])"
proof (cases k)
  case WaitAny
  with GetWithTimeout_idle [OF assms(1)] assms(3) show ?thesis by fastforce
next
  case (WaitProtocol p)
  with assms(2,3) GetWithProtocol_waits show ?thesis unfolding WaitProtocol names_it_def by fastforce
next
  case (WaitIPVersion v)
  with assms(2,3) GetWithIPVersion_waits show ?thesis unfolding WaitIPVersion names_it_def by fastforce
qed

end
