(* ===== verification/Pool_Wait_Facts.thy ===== *)
theory Pool_Wait_Facts
  imports Pool_Get_Ends
begin

text \<open>
  The steps of the waiting goroutines keep the invariant, and a waiter that returns a
  connection has one that is valid, lent and of the kind it waits for.
\<close>

lemma set_waiter_keeps:
  assumes "pool_inv w \<Longrightarrow> i < next_wid w \<and> chan_cap (w_chan wt) = 1 \<and>
      (\<forall>r \<in> set (buf (w_chan wt)). r < next_ref w)"
    and t: "pool_inv w \<Longrightarrow> \<exists>wt0. waiters w i = Some wt0 \<and> fewer (pool_closed w) wt0 wt"
  shows "keeps w (set_waiter i wt w)"
proof -
  have "keeps w (w\<lparr>waiters := (waiters w)(i \<mapsto> wt), next_wid := next_wid w\<rparr>)"
  proof (rule keeps_waiter)
    assume I: "pool_inv w" and T: "typed w"
    from t [OF I] obtain wt0 where wt0: "waiters w i = Some wt0" "fewer (pool_closed w) wt0 wt" by blast
    have "waiter_typed w wt" by (rule fewer_typed [OF wt0(2) typedD(2) [OF T wt0(1)]]) simp_all
    moreover have "standing q wt" if "i \<in> set (buf (queue q w))" for q
      using typedD(3) [OF T that] wt0 fewer_standing [OF wt0(2)] by auto
    ultimately show "waiter_typed w wt \<and> (\<forall>q. i \<in> set (buf (queue q w)) \<longrightarrow> standing q wt)" by blast
  qed (use assms(1) in simp)
  then show ?thesis by (simp add: set_waiter_def)
qed

lemma set_waiter_frame [simp]:
  "heap (set_waiter i wt w) = heap w" "now (set_waiter i wt w) = now w"
  "static (set_waiter i wt w) = static w" "cfg (set_waiter i wt w) = cfg w"
  "connections (set_waiter i wt w) = connections w"
  "next_ref (set_waiter i wt w) = next_ref w" "next_wid (set_waiter i wt w) = next_wid w"
  "waiters (set_waiter i wt w) = (waiters w)(i \<mapsto> wt)" "trace (set_waiter i wt w) = trace w"
  "pool_closed (set_waiter i wt w) = pool_closed w" "idleTCP (set_waiter i wt w) = idleTCP w"
  "idleUDP (set_waiter i wt w) = idleUDP w" "closeChan_closed (set_waiter i wt w) = closeChan_closed w"
  "collector (set_waiter i wt w) = collector w"
  by (simp_all add: set_waiter_def static_def)

text \<open>Returning, with effects that are light.\<close>

definition plain_waiter :: "world \<Rightarrow> wid \<Rightarrow> waiter \<Rightarrow> bool" where
  "plain_waiter w i wt \<longleftrightarrow>
     i < next_wid w \<and> chan_cap (w_chan wt) = 1 \<and> (\<forall>r \<in> set (buf (w_chan wt)). r < next_ref w) \<and>
     (\<exists>wt0. waiters w i = Some wt0 \<and> fewer (pool_closed w) wt0 wt)"

lemma plain_waiterI: "pool_inv w \<Longrightarrow> waiters w i = Some wt \<Longrightarrow> plain_waiter w i wt"
  using pool_invD(7) [of w] by (auto simp: plain_waiter_def waiters_ok_def)

lemma plain_waiter_light: "light w w' \<Longrightarrow> plain_waiter w' i wt = plain_waiter w i wt"
  by (simp add: plain_waiter_def lightD)

text \<open>A waiter returns: its channel is closed by then.\<close>

lemma plain_waiter_return:
  assumes "plain_waiter w i wt" and "chan_close (w_chan wt) = Some ch \<or> chan_closed (w_chan wt) \<and> ch = w_chan wt"
  shows "plain_waiter w i (wt\<lparr>w_chan := ch, w_phase := Finished res\<rparr>)"
  using assms by (auto simp: chan_close_def plain_waiter_def fewer_def split: if_splits)

lemma plain_waiter_keeps: "(pool_inv w \<Longrightarrow> plain_waiter w i wt) \<Longrightarrow> keeps w (set_waiter i wt w)"
  unfolding plain_waiter_def by (intro set_waiter_keeps) blast+

lemma wait_return_keeps:
  assumes p: "pool_inv w \<Longrightarrow> plain_waiter w i wt" and e: "light w (effects w)"
  shows "keeps w (wait_return i wt res effects w)"
proof -
  let ?ch = "case chan_close (w_chan wt) of None \<Rightarrow> w_chan wt | Some ch \<Rightarrow> ch"
  have ret: "keeps w (set_waiter i (wt\<lparr>w_chan := ?ch, w_phase := Finished res'\<rparr>) w')" if l: "light w w'" for w' res'
  proof -
    have "plain_waiter w' i (wt\<lparr>w_chan := ?ch, w_phase := Finished res'\<rparr>)" if "pool_inv w'"
    proof (rule plain_waiter_return)
      show "plain_waiter w' i wt" using p that by (simp add: plain_waiter_light [OF l] light_inv [OF l])
      show "chan_close (w_chan wt) = Some ?ch \<or> chan_closed (w_chan wt) \<and> ?ch = w_chan wt"
        by (auto simp: chan_close_def)
    qed
    then have "keeps w' (set_waiter i (wt\<lparr>w_chan := ?ch, w_phase := Finished res'\<rparr>) w')"
      by (rule plain_waiter_keeps)
    then show ?thesis by (rule keeps_trans [OF light_keeps [OF l]])
  qed
  have same: "wt\<lparr>w_chan := w_chan wt, w_phase := ph\<rparr> = wt\<lparr>w_phase := ph\<rparr>" for ph by simp
  show ?thesis
    using ret [OF light_refl] ret [OF e] by (cases "chan_close (w_chan wt)") (simp_all add: wait_return_def same)
qed

lemma wait_return_frame:
  assumes "light w (effects w)"
  shows "next_ref (wait_return i wt res effects w) = next_ref w"
    "static (wait_return i wt res effects w) = static w"
  using lightD(6) [OF assms] light_static [OF assms] by (auto simp: wait_return_def split: option.split)

lemma plain_waiter_recv:
  "plain_waiter w i wt \<Longrightarrow> chan_recv (w_chan wt) = Received r ch \<Longrightarrow>
     r < next_ref w \<and> plain_waiter w i (wt\<lparr>w_chan := ch\<rparr>)"
  by (auto simp: plain_waiter_def chan_cases fewer_def)

lemma plain_waiter_drain: "plain_waiter w i wt \<Longrightarrow> plain_waiter w i (drain_own wt)"
  using plain_waiter_recv by (auto simp: drain_own_def split: recv_result.split)

lemma set_queue_frame [simp]:
  "static (set_queue q c w) = static w" "cfg (set_queue q c w) = cfg w"
  "connections (set_queue q c w) = connections w"
  "idleTCP (set_queue q c w) = idleTCP w" "idleUDP (set_queue q c w) = idleUDP w"
  "pool_closed (set_queue q c w) = pool_closed w" "next_ref (set_queue q c w) = next_ref w"
  "next_wid (set_queue q c w) = next_wid w" "heap (set_queue q c w) = heap w"
  "closeChan_closed (set_queue q c w) = closeChan_closed w" "trace (set_queue q c w) = trace w"
  "close_once (set_queue q c w) = close_once w" "now (set_queue q c w) = now w"
  "createSemaphore (set_queue q c w) = createSemaphore w"
  "collector (set_queue q c w) = collector w"
  by (cases q; simp add: static_def)+

lemma queue_set_waiter [simp]: "queue q (set_waiter i wt w) = queue q w"
  by (simp add: set_waiter_def)

lemma join_keeps:
  assumes s: "chan_send i (queue q w) = Sent c" and q: "q = wait_queue_of (w_kind wt)"
    and ph: "w_phase wt = Joining" and p: "pool_inv w \<Longrightarrow> plain_waiter w i wt"
  shows "keeps w (set_waiter i (wt\<lparr>w_phase := Waiting\<rparr>) (set_queue q c w))"
proof -
  let ?w' = "set_waiter i (wt\<lparr>w_phase := Waiting\<rparr>) (set_queue q c w)"
  have oq: "only_queues w (set_queue q c w)" by (simp add: only_queues_set_queue)
  have "pool_inv ?w'" if I: "pool_inv w"
  proof -
    from I have qs: "queues_ok w" and ws: "waiters_ok w" and pw: "plain_waiter w i wt"
      by (simp_all add: pool_invD p)
    from qs s pw have "queues_ok (set_queue q c w)"
      by (auto simp: queues_ok_def chan_cases chan_wf_def plain_waiter_def)
    moreover from ws have "waiters_ok (set_queue q c w)" by (simp add: waiters_ok_def)
    ultimately have Q: "pool_inv (set_queue q c w)"
      using I inv_core_queues [OF oq] by (simp add: pool_inv_core sem_ok_def)
    have same: "v\<lparr>waiters := a, next_wid := next_wid v\<rparr> = v\<lparr>waiters := a\<rparr>" for a and v :: world by simp
    from waiter_inv [OF Q, where n = "next_wid (set_queue q c w)" and i = i and wt = "wt\<lparr>w_phase := Waiting\<rparr>",
        unfolded same] pw show ?thesis
      by (simp add: set_waiter_def plain_waiter_def)
  qed
  moreover have "abs_pool ?w' = abs_pool w" by (rule abs_pool_cong) simp_all
  moreover have "typed ?w'" if I: "pool_inv w" and T: "typed w"
  proof -
    from p [OF I] obtain wt0 where wt0: "waiters w i = Some wt0" "fewer (pool_closed w) wt0 wt"
      by (auto simp: plain_waiter_def)
    have wtT: "waiter_typed w wt" by (rule fewer_typed [OF wt0(2) typedD(2) [OF T wt0(1)]]) simp_all
    have ph0: "w_phase wt0 = Joining" using wt0(2) ph by (auto simp: fewer_def)
    have h: "heap ?w' = heap w" "next_ref ?w' = next_ref w" "pool_closed ?w' = pool_closed w"
      "waiters ?w' = (waiters w)(i \<mapsto> wt\<lparr>w_phase := Waiting\<rparr>)"
      by (simp_all add: waiters_set_queue)
    have out: "i \<notin> set (buf (queue q' w))" for q'
      using typedD(3) [OF T, of i q'] wt0(1) ph0 by (auto simp: standing_def)
    have qs: "buf (queue q' ?w') = (if q' = q then buf (queue q w) @ [i] else buf (queue q' w))"
      for q' using s by (auto simp: queue_set_queue chan_cases)
    have "waiter_typed ?w' wt' = waiter_typed w wt'" for wt'
      by (simp add: waiter_typed_def h cong: wait_phase.case_cong)
    moreover have "waiter_typed w (wt\<lparr>w_phase := Waiting\<rparr>)" and e: "buf (w_chan wt) = []"
      using wtT ph by (simp_all add: waiter_typed_def)
    moreover have "\<exists>wt. waiters ?w' j = Some wt \<and> standing q' wt" if "j \<in> set (buf (queue q' ?w'))" for j q'
      using that [unfolded qs] typedD(3) [OF T, of j q'] out q e
      by (auto simp: h standing_def split: if_splits)
    moreover have "distinct (buf (queue q' ?w'))" for q' using typedD(4) [OF T] out unfolding qs by simp
    ultimately show ?thesis using T unfolding typed_def h(1,2) by (auto simp: h(4))
  qed
  moreover have "aside w ?w'"
    unfolding set_waiter_def by (intro only_queues_aside only_queues_waiters oq)
  ultimately show ?thesis by (simp add: keeps_def few_def evolves_same)
qed

lemma join_step_keeps:
  assumes p: "pool_inv w \<Longrightarrow> plain_waiter w i wt" and ph: "w_phase wt = Joining"
    and s: "join_step i wt choice w = Some w'"
  shows "keeps w w'"
  using s wait_return_keeps [OF p] join_keeps [OF _ refl ph p]
  by (auto simp: join_step_def split: wait_choice.splits send_result.splits if_splits)

lemma gives_waited:
  assumes p: "pool_inv w \<Longrightarrow> plain_waiter w i wt" and r: "chan_recv (w_chan wt) = Received r ch"
  shows "gives w r (set_waiter i (wt\<lparr>w_chan := ch\<rparr>) w)"
proof -
  have "keeps w (set_waiter i (wt\<lparr>w_chan := ch\<rparr>) w)"
    using plain_waiter_recv [OF p r] by (intro plain_waiter_keeps) blast
  then show ?thesis using plain_waiter_recv [OF p r] by (simp add: keeps_def gives_def few_def)
qed

lemma wait_loop_step_keeps:
  assumes p: "pool_inv w \<Longrightarrow> plain_waiter w i wt" and s: "wait_loop_step i wt choice w = Some w'"
  shows "keeps w w'"
proof (cases "\<exists>r ch. choice = TakeConn \<and> chan_recv (w_chan wt) = Received r ch")
  case True
  then obtain r ch where c: "choice = TakeConn" and r: "chan_recv (w_chan wt) = Received r ch"
    by blast
  let ?wt = "wt\<lparr>w_chan := ch\<rparr>"
  let ?w1 = "set_waiter i ?wt w"
  have g: "gives w r ?w1" by (rule gives_waited [OF p r])
  show ?thesis
  proof (cases "wait_accepts (w_kind wt) (heap w r) \<and> isConnectionValid (Some r) ?w1")
    case False
    with s c r have "w' = snd (closeConnection (Some r) ?w1)"
      by (auto simp: wait_loop_step_def Let_def)
    then show ?thesis using keeps_closing [OF g] by simp
  next
    case True
    with s c r have w': "w' = wait_return i ?wt (Ok r) (borrow_waited (w_kind wt) r) ?w1"
      by (simp add: wait_loop_step_def Let_def)
    have l: "light ?w1 (borrow_waited (w_kind wt) r ?w1)" by simp
    note f = wait_return_frame [where effects = "borrow_waited (w_kind wt) r", OF l, of i ?wt "Ok r"]
    have "pool_inv w' \<and> evolves w w'" if I: "pool_inv w" and few: "few w'"
    proof -
      from few f have "few ?w1" by (simp add: w' few_def)
      with g I have g1: "pool_inv ?w1" "evolves w ?w1" by (simp_all add: gives_def)
      have "plain_waiter ?w1 i ?wt"
        using plain_waiter_recv [OF p [OF I] r] by (simp add: plain_waiter_def)
      then have "keeps ?w1 w'" unfolding w'
        by (intro wait_return_keeps [where effects = "borrow_waited (w_kind wt) r", OF _ l])
      with g1 few show ?thesis by (auto simp: keeps_def intro: evolves_trans)
    qed
    then show ?thesis using f by (simp add: keeps_def w')
  qed
next
  case False
  with s wait_return_keeps [OF plain_waiter_drain [OF p]] show ?thesis
    by (auto simp: wait_loop_step_def split: wait_choice.splits recv_result.splits if_splits)
qed

lemma wait_step_keeps:
  assumes "wait_step i choice w = Some w'"
  shows "keeps w w'"
  using assms plain_waiterI [of w i] join_step_keeps [of w i _ choice w']
    wait_loop_step_keeps [of w i _ choice w']
  by (auto simp: wait_step_def split: option.splits wait_phase.splits)

subsection \<open>The result of a waiter\<close>

lemma wait_return_phase:
  "waiters (wait_return i wt res effects w) i = Some wt' \<Longrightarrow>
     w_phase wt' = Finished res \<or> w_phase wt' = Finished Panic"
  by (auto simp: wait_return_def split: option.splits)

lemma wait_return_heap:
  "chan_closed (w_chan wt) = False \<Longrightarrow>
     heap (wait_return i wt res effects w) = heap (effects w) \<and>
     now (wait_return i wt res effects w) = now (effects w) \<and>
     connections (wait_return i wt res effects w) = connections (effects w) \<and>
     cfg (wait_return i wt res effects w) = cfg (effects w)"
  by (simp add: wait_return_def chan_close_def)

lemma closeConnection_waiters: "waiters (snd (closeConnection (Some r) w)) = waiters w"
  by (cases "closeConnection (Some r) w") (simp add: closeConnection_frame)

lemma wait_step_result:
  assumes I: "pool_inv w" and few: "few w" and wt: "waiters w i = Some wt"
    and s: "wait_step i choice w = Some w'" and wt': "waiters w' i = Some wt'"
    and ok: "w_phase wt' = Finished (Ok r)"
  shows "choice = TakeConn" "w_phase wt = Waiting" "buf (w_chan wt) \<noteq> [] \<and> hd (buf (w_chan wt)) = r"
    "wait_accepts (w_kind wt) (heap w' r)" "lent r w'" "isConnectionValid (Some r) w'"
proof -
  have phase: "w_phase wt = Waiting"
    using s wt wt' ok by (auto simp: wait_step_def join_step_def split: wait_phase.splits
        wait_choice.splits send_result.splits if_splits dest!: wait_return_phase)
  with s wt have s': "wait_loop_step i wt choice w = Some w'" by (simp add: wait_step_def)
  have take: "choice = TakeConn" using s' wt' ok
    by (auto simp: wait_loop_step_def split: wait_choice.splits if_splits dest!: wait_return_phase)
  obtain r' ch where rc: "chan_recv (w_chan wt) = Received r' ch"
    and v: "wait_accepts (w_kind wt) (heap w r')"
      "isConnectionValid (Some r') (set_waiter i (wt\<lparr>w_chan := ch\<rparr>) w)"
    and w': "w' = wait_return i (wt\<lparr>w_chan := ch\<rparr>) (Ok r') (borrow_waited (w_kind wt) r')
        (set_waiter i (wt\<lparr>w_chan := ch\<rparr>) w)"
    using s' take wt wt' ok phase
    by (auto simp: wait_loop_step_def Let_def closeConnection_waiters split: recv_result.splits if_splits)
  let ?w1 = "set_waiter i (wt\<lparr>w_chan := ch\<rparr>) w"
  from wt' ok w' have rr: "r' = r" by (auto dest!: wait_return_phase)
  have open_chan: "chan_closed ch = False"
    using wt' ok by (auto simp: w' wait_return_def chan_close_def split: if_splits option.splits)
  then have h: "heap w' = heap (borrow_waited (w_kind wt) r ?w1)" "now w' = now w"
    "connections w' = connections w" "cfg w' = cfg w"
    using wait_return_heap [of "wt\<lparr>w_chan := ch\<rparr>" i "Ok r'" "borrow_waited (w_kind wt) r'" ?w1]
      lightD(1,2) [OF borrow_light(4) [of ?w1 "w_kind wt" r]]
    by (simp_all add: w' rr)
  have r: "r < next_ref w"
    using plain_waiter_recv [OF plain_waiterI [OF I wt] rc] rr by simp
  have "Conn (heap w r) \<noteq> None" using valid_open [OF v(2)] rr by simp
  then have "r \<in> registered w" using pool_invD(3) [OF I] r by (auto simp: owned_ok_def)
  then show "lent r w'" by (simp add: lent_def h)
  show "choice = TakeConn" by (rule take)
  show "w_phase wt = Waiting" by (rule phase)
  show "buf (w_chan wt) \<noteq> [] \<and> hd (buf (w_chan wt)) = r" using rc rr by (auto simp: chan_cases)
  show "wait_accepts (w_kind wt) (heap w' r)" using v(1) rr by (cases "w_kind wt") (simp_all add: h)
  show "isConnectionValid (Some r) w'"
    using valid_borrowed(3) [OF v(2), of "w_kind wt"] rr
      isConnectionValid_cong [of w' r "borrow_waited (w_kind wt) r ?w1"]
      lightD(1) [OF borrow_light(4) [of ?w1 "w_kind wt" r]] by (simp add: h)
qed

subsection \<open>A waiter in no queue is never notified\<close>

definition unqueued :: "wid \<Rightarrow> world \<Rightarrow> bool" where
  "unqueued i w \<longleftrightarrow> (\<forall>q. i \<notin> set (buf (queue q w)))"

lemma offer_other: "offer j r w = (s, w') \<Longrightarrow> j \<noteq> i \<Longrightarrow> waiters w' i = waiters w i"
  by (auto simp: offer_def split: option.splits send_result.splits)

lemma notifySpecific_unqueued:
  assumes "notifySpecificWaitQueue q r w = Some (b, w')"
  shows "unqueued i w \<longrightarrow> waiters w' i = waiters w i \<and> unqueued i w'"
proof -
  have "case (b, w') of (b, w') \<Rightarrow> unqueued i w \<longrightarrow> waiters w' i = waiters w i \<and> unqueued i w'"
  proof (rule notifySpecificWaitQueue.raw_induct
      [where P = "\<lambda>q r w y. case y of (b, w') \<Rightarrow>
          unqueued i w \<longrightarrow> waiters w' i = waiters w i \<and> unqueued i w'", OF _ assms])
    fix f q r w y
    assume IH: "\<And>q r w y. f q r w = Some y \<Longrightarrow>
        (case y of (b, w') \<Rightarrow> unqueued i w \<longrightarrow> waiters w' i = waiters w i \<and> unqueued i w')"
      and eq: "(case chan_recv (queue q w) of Received i q' \<Rightarrow>
            (case offer i r (set_queue q q' w) of (sent, w1) \<Rightarrow>
               if sent then Some (True, w1) else f q r w1)
          | RecvZero \<Rightarrow> f q r w | RecvBlocked \<Rightarrow> Some (False, w)) = Some y"
    show "case y of (b, w') \<Rightarrow> unqueued i w \<longrightarrow> waiters w' i = waiters w i \<and> unqueued i w'"
    proof (cases "chan_recv (queue q w)")
      case (Received j q')
      obtain s w1 where o: "offer j r (set_queue q q' w) = (s, w1)"
        by (cases "offer j r (set_queue q q' w)")
      have "waiters w1 i = waiters w i \<and> unqueued i w1" if u: "unqueued i w"
      proof -
        from Received obtain js where js: "buf (queue q w) = j # js" "q' = (queue q w)\<lparr>buf := js\<rparr>"
          by (auto simp: chan_cases)
        have "i \<notin> set (buf (queue q w))" using u by (simp add: unqueued_def)
        with js have "j \<noteq> i" "i \<notin> set js" by auto
        then show ?thesis using offer_other [OF o] u offer_queue [OF o] js(2)
          by (simp add: unqueued_def)
      qed
      then show ?thesis using eq Received o IH [of q r w1] by (cases s) (auto split: prod.splits)
    qed (use eq IH in auto)
  qed
  then show ?thesis by simp
qed

lemma or_else_unqueued:
  assumes "or_else f g w = Some (b, w')" and "unqueued i w"
    and "\<And>w b w'. f w = Some (b, w') \<Longrightarrow> unqueued i w \<longrightarrow> waiters w' i = waiters w i \<and> unqueued i w'"
    and "\<And>w b w'. g w = Some (b, w') \<Longrightarrow> unqueued i w \<longrightarrow> waiters w' i = waiters w i \<and> unqueued i w'"
  shows "waiters w' i = waiters w i \<and> unqueued i w'"
  using assms(1,2) unfolding or_else_def
  by (auto split: option.splits bool.splits dest!: assms(3,4))

lemma notifyWaitQueue_unqueued:
  assumes "notifyWaitQueue r w = Some (b, w')" and "unqueued i w"
  shows "waiters w' i = waiters w i \<and> unqueued i w'"
proof -
  note step = notifySpecific_unqueued
  let ?ok = "\<lambda>f. \<forall>w b w'. f w = Some (b, w') \<longrightarrow> unqueued i w \<longrightarrow> waiters w' i = waiters w i \<and> unqueued i w'"
  have or: "?ok (or_else f g)" if f: "?ok f" and g: "?ok g" for f g
  proof (intro allI impI)
    fix w b w'
    assume e: "or_else f g w = Some (b, w')" and u: "unqueued i w"
    show "waiters w' i = waiters w i \<and> unqueued i w'"
      by (rule or_else_unqueued [OF e u f [THEN spec, THEN spec, THEN spec, THEN mp]
            g [THEN spec, THEN spec, THEN spec, THEN mp]])
  qed
  have spec: "?ok (notifySpecificWaitQueue q r)" for q using step by blast
  have skip: "?ok (\<lambda>w. Some (False, w))" by simp
  have pick: "?ok (if c then f else g)" if "?ok f" "?ok g" for c f g
    using that by (cases c) (simp_all only: if_True if_False)
  have "?ok (or_else
      (if P = ProtocolTCP then notifySpecificWaitQueue QTCP r
       else if P = ProtocolUDP then notifySpecificWaitQueue QUDP r else (\<lambda>w. Some (False, w)))
      (or_else (if V = IPVersionIPv4 then notifySpecificWaitQueue QIPv4 r
        else if V = IPVersionIPv6 then notifySpecificWaitQueue QIPv6 r else (\<lambda>w. Some (False, w)))
        (notifySpecificWaitQueue QAny r)))" for P V
    by (intro or pick spec skip)
  with assms show ?thesis by (simp add: notifyWaitQueue_def Let_def)
qed

lemma light_unqueued: "light w w' \<Longrightarrow> unqueued i w' = unqueued i w"
  by (simp add: unqueued_def lightD)

lemma Put_unqueued:
  assumes "unqueued i w" and p: "Put (Some r) w = (res, w')"
  shows "waiters w' i = waiters w i \<and> unqueued i w'"
proof -
  have cl: "waiters w2 i = waiters w1 i \<and> (unqueued i w2 = unqueued i w1)"
    if "closeConnection (Some r) w1 = (res, w2)" for w1 res w2
    by (simp add: unqueued_def closeConnection_frame [OF that])
  let ?w1 = "put_prepare r w"
  have L: "light w ?w1" by simp
  have u1: "unqueued i ?w1" "waiters ?w1 = waiters w" using assms(1) light_unqueued [OF L] lightD(8) [OF L] by simp_all
  have pc: "waiters (put_counted r w2) = waiters w2" "unqueued i (put_counted r w2) = unqueued i w2" for w2
    using lightD(8) [of w2 "put_counted r w2"] light_unqueued [of w2 "put_counted r w2"] by simp_all
  have si: "unqueued i (set_idle q ch w2) = unqueued i w2" for q ch w2 by (simp add: unqueued_def)
  show ?thesis
    using p assms(1) u1
    by (auto simp: Put_def put_store_def Let_def pc si split: if_splits send_result.splits option.splits prod.splits
        dest!: cl notifyWaitQueue_unqueued [where i = i])
qed

end
