(* ===== verification/Pool_Lifecycle_Facts.thy ===== *)
theory Pool_Lifecycle_Facts
  imports Pool_Wait_Facts Pool_Lifecycle
begin

text \<open>
  A new pool satisfies the invariant, and \<^verbatim>\<open>Close\<close> ends with every connection closed, every
  channel closed and empty, and the managers stopped.
\<close>

subsection \<open>Making a pool\<close>

lemma fresh_pool_inv: "pool_inv (fresh_pool c w)"
proof -
  have q: "queue q (fresh_pool c w) = make_chan 100" for q
    by (cases q) (simp_all add: fresh_pool_def)
  have m: "buf (make_chan n) = []" "chan_cap (make_chan n) = n" "\<not> chan_closed (make_chan n)" for n
    by (simp_all add: make_chan_def)
  have "queues_ok (fresh_pool c w)"
    by (simp add: queues_ok_def q m) (simp add: fresh_pool_def)
  moreover have "ids_ok (fresh_pool c w)" "map_ok (fresh_pool c w)" "owned_ok (fresh_pool c w)"
    "closes_ok (fresh_pool c w)" "idle_ok (fresh_pool c w)" "waiters_ok (fresh_pool c w)"
    "limit_ok (fresh_pool c w)" "sem_ok (fresh_pool c w)"
    by (simp_all add: ids_ok_def map_ok_def owned_ok_def closes_ok_def idle_ok_def waiters_ok_def
        limit_ok_def sem_ok_def fresh_pool_def m)
  moreover have "class_counter k (NewStatsCollector t) = 0" for k t
    by (cases k) (simp_all add: NewStatsCollector_def zero_stats_def)
  then have "books_ok (fresh_pool c w)"
    by (simp add: books_ok_def class_count_def fresh_pool_def)
      (simp add: NewStatsCollector_def zero_stats_def)
  ultimately show ?thesis by (simp add: pool_inv_def)
qed

definition one_manager_ok :: "bool \<Rightarrow> manager \<Rightarrow> bool" where
  "one_manager_ok shut m \<longleftrightarrow>
     manager_ok m \<and> (\<not> shut \<longrightarrow> \<not> stopChan_closed m) \<and> (shut \<longrightarrow> \<not> running m)"

definition managers_ok :: "world \<Rightarrow> bool" where
  "managers_ok w \<longleftrightarrow>
     one_manager_ok (close_once w) (healthCheckManager w) \<and>
     one_manager_ok (close_once w) (cleanupManager w) \<and>
     one_manager_ok (close_once w) (leakDetector w)"

lemma managers_ok_static: "static w' = static w \<Longrightarrow> managers_ok w' = managers_ok w"
  using staticD [of w' w] by (simp add: managers_ok_def)

lemma fresh_managers_ok: "managers_ok (fresh_pool c w)"
proof -
  have "healthCheckManager (fresh_pool c w) = new_manager" "cleanupManager (fresh_pool c w) = new_manager"
    "leakDetector (fresh_pool c w) = new_manager" "\<not> close_once (fresh_pool c w)"
    by (simp_all add: fresh_pool_def)
  moreover have "one_manager_ok False new_manager"
    by (simp add: one_manager_ok_def) (simp add: new_manager_def)
  ultimately show ?thesis by (simp add: managers_ok_def)
qed

text \<open>Warming up: nothing but creation and \<^verbatim>\<open>Put\<close>.\<close>

lemma warm_loop_good:
  assumes "warm_loop n c w = (res, w')"
  shows "keeps w w' \<and> next_ref w' \<le> next_ref w + n \<and>
     (pool_inv w \<and> few w' \<longrightarrow> (\<forall>e. res \<noteq> Err e) \<and> res \<noteq> Hang \<and> (honest (cfg w) \<longrightarrow> res \<noteq> Panic))"
  using assms
proof (induction n arbitrary: w)
  case 0
  then show ?case by auto
next
  case (Suc n)
  have later: ?case if k: "keeps w w1" and b: "next_ref w1 \<le> Suc (next_ref w)"
    and l: "warm_loop n c w1 = (res, w')" for w1
  proof -
    note IH = Suc.IH [OF l]
    have kk: "keeps w w'" using k IH keeps_trans by blast
    have "pool_inv w1 \<and> cfg w1 = cfg w" if "pool_inv w" "few w'"
    proof -
      from IH that(2) have "few w1" by (auto simp: keeps_def intro: few_mono)
      with k that(1) show ?thesis using staticD(1) [of w1 w] by (simp add: keeps_def)
    qed
    moreover have "next_ref w' \<le> next_ref w + Suc n" using IH b by simp
    moreover note kk conjunct2 [OF conjunct2 [OF IH]]
    ultimately show ?thesis by metis
  qed
  obtain cr w1 where cr: "createConnection c w = (cr, w1)" by (cases "createConnection c w")
  have k1: "keeps w w1" by (rule keeps_create [OF cr])
  have n1: "next_ref w1 \<le> Suc (next_ref w)" using createConnection_next_ref [OF cr] by simp
  have R: "cr \<noteq> Hang \<and> cr \<noteq> Ok None \<and> (honest (cfg w) \<longrightarrow> cr \<noteq> Panic)" if "pool_inv w"
    using createConnection_result [OF _ cr] pool_invD(10) [OF that] by blast
  show ?case
  proof (cases cr)
    case (Err e)
    have "keeps w (with_stats IncrementConnectionErrors w1)" using k1 by simp
    then show ?thesis using later [of "with_stats IncrementConnectionErrors w1"] n1 Suc.prems cr Err
      by simp
  next
    case (Ok x)
    show ?thesis
    proof (cases x)
      case None
      then show ?thesis using later [OF k1 n1] Suc.prems cr Ok by (simp add: Put_def put_store_def)
    next
      case (Some r)
      have g: "gives w r w1" using cr Ok Some gives_create by simp
      obtain pr w2 where p: "Put (Some r) w1 = (pr, w2)" by (cases "Put (Some r) w1")
      have k2: "keeps w w2" by (rule keeps_Put [OF g p])
      have n2: "next_ref w2 \<le> Suc (next_ref w)" using n1 Put_next_ref(1) [of r w1] p by simp
      have pok: "pr \<noteq> Panic \<and> pr \<noteq> Hang" if "pool_inv w" "few w2"
      proof -
        from p that(2) Put_next_ref(1) [of r w1] have "few w1" by (simp add: few_def)
        with g that(1) have "inv_core w1" "r < next_ref w1" by (auto simp: gives_def pool_inv_core)
        from Put_inv_core(2,3) [OF this \<open>few w1\<close> p] show ?thesis by simp
      qed
      show ?thesis using later [OF k2 n2] Suc.prems cr Ok Some p k2 n2 pok
        by (cases pr) auto
    qed
  qed (use Suc.prems cr R k1 n1 in auto)
qed

lemma warmUp_good:
  assumes "warmUp w = (res, w')"
  shows "keeps w w' \<and> next_ref w' \<le> next_ref w + nat (MinConnections (cfg w)) \<and>
     (pool_inv w \<and> few w' \<longrightarrow> (\<forall>e. res \<noteq> Err e) \<and> res \<noteq> Hang \<and> (honest (cfg w) \<longrightarrow> res \<noteq> Panic))"
  using assms warm_loop_good by (auto simp: warmUp_def split: if_splits)

text \<open>Starting the managers.\<close>

lemma one_manager_start:
  "one_manager_ok False m \<Longrightarrow> HealthCheck_Start c m = Ok m' \<Longrightarrow> one_manager_ok False m'"
  "one_manager_ok False m \<Longrightarrow> Cleanup_Start c m = Ok m' \<Longrightarrow> one_manager_ok False m'"
  "one_manager_ok False m \<Longrightarrow> Leak_Start c m = Ok m' \<Longrightarrow> one_manager_ok False m'"
  using hm.start_ok [of m c m'] cm.start_ok [of m c m'] lm.start_ok [of m c m']
  by (simp_all add: one_manager_ok_def)

lemma manager_start_result:
  "HealthCheck_Start c m \<noteq> Err e" "HealthCheck_Start c m \<noteq> Hang"
  "Cleanup_Start c m \<noteq> Err e" "Cleanup_Start c m \<noteq> Hang" "Cleanup_Start c m \<noteq> Panic"
  "Leak_Start c m \<noteq> Err e" "Leak_Start c m \<noteq> Hang" "Leak_Start c m \<noteq> Panic"
  by (auto simp: HealthCheck_Start_def Cleanup_Start_def Leak_Start_def launch_def duration_defs)

definition only_managers :: "world \<Rightarrow> world \<Rightarrow> bool" where
  "only_managers w w' \<longleftrightarrow>
     (\<exists>h c l. w' = w\<lparr>healthCheckManager := h, cleanupManager := c, leakDetector := l\<rparr>)"

lemma only_managers_inv: "only_managers w w' \<Longrightarrow> pool_inv w' = pool_inv w"
proof -
  assume "only_managers w w'"
  then obtain h c l where w': "w' = w\<lparr>healthCheckManager := h, cleanupManager := c, leakDetector := l\<rparr>"
    unfolding only_managers_def by blast
  have "queue q w' = queue q w" for q by (cases q) (simp_all add: w')
  then show ?thesis by (simp add: pool_inv_def inv_defs) (simp add: w')
qed

lemma only_managers_refl: "only_managers w w"
proof -
  have "w = w\<lparr>healthCheckManager := healthCheckManager w, cleanupManager := cleanupManager w,
      leakDetector := leakDetector w\<rparr>" by simp
  then show "only_managers w w" unfolding only_managers_def by blast
qed

lemma only_managers_upd:
  assumes "only_managers w w'"
  shows "only_managers w (w'\<lparr>healthCheckManager := h\<rparr>)" "only_managers w (w'\<lparr>cleanupManager := h\<rparr>)"
    "only_managers w (w'\<lparr>leakDetector := h\<rparr>)"
proof -
  from assms obtain a b d where w': "w' = w\<lparr>healthCheckManager := a, cleanupManager := b,
      leakDetector := d\<rparr>" unfolding only_managers_def by blast
  have "w'\<lparr>healthCheckManager := h\<rparr> =
      w\<lparr>healthCheckManager := h, cleanupManager := b, leakDetector := d\<rparr>"
    "w'\<lparr>cleanupManager := h\<rparr> =
      w\<lparr>healthCheckManager := a, cleanupManager := h, leakDetector := d\<rparr>"
    "w'\<lparr>leakDetector := h\<rparr> =
      w\<lparr>healthCheckManager := a, cleanupManager := b, leakDetector := h\<rparr>"
    by (simp_all add: w')
  then show "only_managers w (w'\<lparr>healthCheckManager := h\<rparr>)"
    "only_managers w (w'\<lparr>cleanupManager := h\<rparr>)" "only_managers w (w'\<lparr>leakDetector := h\<rparr>)"
    unfolding only_managers_def by blast+
qed

lemmas only_managersI = only_managers_refl only_managers_upd

lemma only_managersD:
  assumes "only_managers w w'"
  shows "next_ref w' = next_ref w" "cfg w' = cfg w" "pool_closed w' = pool_closed w"
    "close_once w' = close_once w" "connections w' = connections w" "heap w' = heap w"
    "trace w' = trace w" "idleTCP w' = idleTCP w" "idleUDP w' = idleUDP w" "waiters w' = waiters w"
    "queue q w' = queue q w" "closeChan_closed w' = closeChan_closed w" "collector w' = collector w"
    "next_wid w' = next_wid w" "now w' = now w" "generator w' = generator w"
    "createSemaphore w' = createSemaphore w"
  using assms unfolding only_managers_def by (cases q; auto)+

lemma startBackgroundTasks_good:
  assumes "startBackgroundTasks w = (res, w')"
  shows "only_managers w w' \<and> (\<forall>e. res \<noteq> Err e) \<and> res \<noteq> Hang \<and>
     (res = Panic \<longrightarrow> EnableHealthCheck (cfg w) \<and> HealthCheckInterval (cfg w) \<le> 0) \<and>
     (managers_ok w \<and> \<not> close_once w \<longrightarrow> managers_ok w')"
proof -
  note om = only_managersI
  obtain hs where hs: "hs = (if EnableHealthCheck (cfg w)
      then HealthCheck_Start (cfg w) (healthCheckManager w) else Ok (healthCheckManager w))" by simp
  have first: "(if EnableHealthCheck (cfg w) then on_health (HealthCheck_Start (cfg w))
      else (\<lambda>w. (Ok (), w))) w =
      (case hs of Ok m \<Rightarrow> (Ok (), w\<lparr>healthCheckManager := m\<rparr>) | Err e \<Rightarrow> (Err e, w)
        | Panic \<Rightarrow> (Panic, w) | Hang \<Rightarrow> (Hang, w))"
    by (simp add: hs on_manager_def)
  have hsp: "hs = Panic \<Longrightarrow> EnableHealthCheck (cfg w) \<and> HealthCheckInterval (cfg w) \<le> 0"
    using hm.start_panics_iff [of "cfg w" "healthCheckManager w"] by (auto simp: hs split: if_splits)
  obtain cs where cs: "Cleanup_Start (cfg w) (cleanupManager w) = Ok cs"
    using manager_start_result by (cases "Cleanup_Start (cfg w) (cleanupManager w)") auto
  obtain ls where ls: "Leak_Start (cfg w) (leakDetector w) = Ok ls"
    using manager_start_result by (cases "Leak_Start (cfg w) (leakDetector w)") auto
  show ?thesis
  proof (cases hs)
    case (Ok m)
    with assms first cs ls have w': "res = Ok ()"
      "w' = w\<lparr>healthCheckManager := m, cleanupManager := cs, leakDetector := ls\<rparr>"
      by (auto simp: startBackgroundTasks_def and_then_def on_manager_def)
    have "managers_ok w'" if "managers_ok w" "\<not> close_once w"
      using that Ok hs one_manager_start(1) [of "healthCheckManager w" "cfg w" m]
        one_manager_start(2) [OF _ cs] one_manager_start(3) [OF _ ls]
      by (auto simp: managers_ok_def w' split: if_splits)
    then show ?thesis using w' om by simp
  next
    case Panic
    with assms first hsp om show ?thesis
      by (auto simp: startBackgroundTasks_def and_then_def)
  qed (use hs manager_start_result in \<open>auto split: if_splits\<close>)
qed

text \<open>Warming up a fresh pool ends normally.\<close>

lemma warm_up_fresh:
  assumes "honest c" and "MinConnections c \<le> 2 ^ 64"
  obtains w where "warmUp (fresh_pool c w0) = (Ok (), w)" "few w" "cfg w = c"
    "healthCheckManager w = new_manager" "next_ref w \<le> nat (MinConnections c)"
proof -
  let ?w0 = "fresh_pool c w0"
  have c0: "cfg ?w0 = c" "next_ref ?w0 = 0" "healthCheckManager ?w0 = new_manager"
    by (simp_all add: fresh_pool_def)
  obtain res w where u: "warmUp ?w0 = (res, w)" by (cases "warmUp ?w0")
  note wu = warmUp_good [OF u]
  have n: "next_ref w \<le> nat (MinConnections c)" using wu by (simp add: c0)
  also have "\<dots> \<le> 2 ^ 64" using assms(2) by (simp add: nat_le_iff)
  finally have few: "few w" by (simp add: few_def)
  with wu fresh_pool_inv assms(1) have "res = Ok ()" by (cases res) (auto simp: c0)
  moreover have "static w = static ?w0" using wu by (simp add: keeps_def)
  then have "cfg w = c" "healthCheckManager w = new_manager"
    using staticD(1,5) [of w ?w0] c0 by simp_all
  ultimately show thesis using that u few n by simp
qed


end
