(* ===== verification/Pool_Close_Facts.thy ===== *)
theory Pool_Close_Facts
  imports Pool_Lifecycle_Facts
begin

text \<open>
  \<^verbatim>\<open>Close\<close> on a pool that satisfies the invariant: it ends, closes every connection once,
  empties and closes every channel, stops the managers, and keeps the invariant.
\<close>

subsection \<open>Closing the connections\<close>

text \<open>What closing wrappers leaves alone.\<close>

definition close_frame :: "world \<Rightarrow> world \<Rightarrow> bool" where
  "close_frame w w' \<longleftrightarrow>
     static w' = static w \<and> connections w' = connections w \<and> idleTCP w' = idleTCP w \<and>
     idleUDP w' = idleUDP w \<and> next_ref w' = next_ref w \<and> generator w' = generator w \<and>
     waiters w' = waiters w \<and> createSemaphore w' = createSemaphore w \<and>
     (\<forall>q. queue q w' = queue q w) \<and> next_wid w' = next_wid w \<and> now w' = now w"

lemma close_frame_trans: "close_frame a b \<Longrightarrow> close_frame b c \<Longrightarrow> close_frame a c"
  by (simp add: close_frame_def)

lemma close_wrapper_close_frame: "close_wrapper r w = (e, w') \<Longrightarrow> close_frame w w'"
  by (simp add: close_frame_def static_def close_wrapper_frame)

lemma close_each_frame: "close_each rs err w = (e, w') \<Longrightarrow> close_frame w w'"
proof (induction rs arbitrary: err w)
  case Nil
  then show ?case by (simp add: close_frame_def)
next
  case (Cons r rs)
  obtain e1 w1 where c: "close_wrapper r w = (e1, w1)" by (cases "close_wrapper r w")
  with Cons.prems have "close_frame (with_stats IncrementTotalConnectionsClosed w1) w'"
    by (auto intro: Cons.IH)
  moreover have "close_frame w1 (with_stats IncrementTotalConnectionsClosed w1)"
    by (simp add: close_frame_def)
  ultimately show ?case using close_wrapper_close_frame [OF c] close_frame_trans by blast
qed

lemma Close_closed [simp]: "Conn c = None \<Longrightarrow> fst (Connection_Close c) = c"
  by (simp add: Connection_Close_def)

text \<open>Every wrapper of the list is closed, its underlying connection once.\<close>

lemma close_each_heap:
  assumes "close_each rs err w = (e, w')"
  shows "heap w' r = (if r \<in> set rs then fst (Connection_Close (heap w r)) else heap w r) \<and>
     closes r (trace w') =
       closes r (trace w) + (if r \<in> set rs \<and> Conn (heap w r) \<noteq> None then 1 else 0)"
  using assms
proof (induction rs arbitrary: err w)
  case Nil
  then show ?case by simp
next
  case (Cons r1 rs)
  obtain e1 w1 where c: "close_wrapper r1 w = (e1, w1)" by (cases "close_wrapper r1 w")
  let ?w1 = "with_stats IncrementTotalConnectionsClosed w1"
  have "close_each rs (if e1 \<noteq> None \<and> err = None then e1 else err) ?w1 = (e, w')"
    using Cons.prems c by simp
  from Cons.IH [OF this] show ?case by (auto simp: close_wrapper_frame [OF c])
qed

text \<open>The books: one more closed, one fewer current, for each of the list.\<close>

lemma close_each_books:
  assumes "close_each rs err w = (e, w')"
  shows "case collector w of None \<Rightarrow> collector w' = None
    | Some s \<Rightarrow> \<exists>s'. collector w' = Some s' \<and>
        TotalConnectionsCreated s' = TotalConnectionsCreated s \<and>
        TotalConnectionsClosed s' = TotalConnectionsClosed s + of_nat (length rs) \<and>
        CurrentConnections s' = CurrentConnections s - of_nat (length rs)"
  using assms
proof (induction rs arbitrary: err w)
  case Nil
  then show ?case by (simp split: option.split)
next
  case (Cons r rs)
  obtain e1 w1 where c: "close_wrapper r w = (e1, w1)" by (cases "close_wrapper r w")
  let ?w1 = "with_stats IncrementTotalConnectionsClosed w1"
  have "close_each rs (if e1 \<noteq> None \<and> err = None then e1 else err) ?w1 = (e, w')"
    using Cons.prems c by simp
  from Cons.IH [OF this] show ?case
    by (cases "collector w") (auto simp: close_wrapper_frame [OF c] created_books algebra_simps)
qed

text \<open>The first error in the order of the iteration is the one returned.\<close>

lemma close_wrapper_error:
  "close_wrapper r w = (e, w') \<Longrightarrow> e = snd (snd (Connection_Close (heap w r)))"
  by (auto simp: close_wrapper_def Let_def split: prod.splits)

lemma close_each_error:
  assumes "close_each rs err w = (e, w')" and "distinct rs"
  shows "e = (if err \<noteq> None then err
     else case filter (\<lambda>r. snd (snd (Connection_Close (heap w r))) \<noteq> None) rs of
            [] \<Rightarrow> None | r # _ \<Rightarrow> snd (snd (Connection_Close (heap w r))))"
  using assms
proof (induction rs arbitrary: err w)
  case Nil
  then show ?case by simp
next
  case (Cons r rs)
  obtain e1 w1 where c: "close_wrapper r w = (e1, w1)" by (cases "close_wrapper r w")
  let ?w1 = "with_stats IncrementTotalConnectionsClosed w1"
  have h: "heap ?w1 x = heap w x" if "x \<in> set rs" for x
    using that Cons.prems(2) by (auto simp: close_wrapper_frame [OF c])
  have f: "filter (\<lambda>r. snd (snd (Connection_Close (heap ?w1 r))) \<noteq> None) rs =
      filter (\<lambda>r. snd (snd (Connection_Close (heap w r))) \<noteq> None) rs"
    using h by (intro filter_cong) auto
  let ?F = "filter (\<lambda>r. snd (snd (Connection_Close (heap w r))) \<noteq> None) rs"
  have hd: "(case ?F of [] \<Rightarrow> None | r # _ \<Rightarrow> snd (snd (Connection_Close (heap ?w1 r)))) =
      (case ?F of [] \<Rightarrow> None | r # _ \<Rightarrow> snd (snd (Connection_Close (heap w r))))"
  proof (cases ?F)
    case (Cons x xs)
    then have "x \<in> set rs" by (metis filter_eq_ConsD in_set_conv_decomp)
    then show ?thesis using Cons h by simp
  qed simp
  have "e = (if (if e1 \<noteq> None \<and> err = None then e1 else err) \<noteq> None
      then (if e1 \<noteq> None \<and> err = None then e1 else err)
      else case ?F of [] \<Rightarrow> None | r # _ \<Rightarrow> snd (snd (Connection_Close (heap w r))))"
    using Cons.IH [of "if e1 \<noteq> None \<and> err = None then e1 else err" ?w1] Cons.prems c f hd by simp
  with close_wrapper_error [OF c] show ?case by auto
qed

subsection \<open>Closing the channels\<close>

definition shut :: "waiter \<Rightarrow> waiter" where
  "shut wt = wt\<lparr>w_chan := (w_chan wt)\<lparr>chan_closed := True\<rparr>\<rparr>"

lemma close_waiter_eq:
  "close_waiter i w = w\<lparr>waiters := (waiters w)(i := map_option shut (waiters w i))\<rparr>"
  by (cases "waiters w i") (auto simp: close_waiter_def shut_def chan_close_def fun_upd_idem)

lemma shut_shut [simp]: "map_option shut (map_option shut x) = map_option shut x"
  by (cases x) (simp_all add: shut_def)

definition shut_waiters :: "wid list \<Rightarrow> world \<Rightarrow> world" where
  "shut_waiters ids w =
     w\<lparr>waiters := (\<lambda>i. if i \<in> set ids then map_option shut (waiters w i) else waiters w i)\<rparr>"

lemma set_queue_again:
  "set_queue q a (set_queue q b w\<lparr>waiters := ws\<rparr>) = set_queue q a (w\<lparr>waiters := ws\<rparr>)"
  by (cases q) simp_all

lemma closeWaitQueue_open:
  assumes "\<not> chan_closed (queue q w)"
  shows "closeWaitQueue q w =
    Some (set_queue q \<lparr>buf = [], chan_cap = chan_cap (queue q w), chan_closed = True\<rparr>
      (shut_waiters (buf (queue q w)) w))"
  using assms
proof (induction "buf (queue q w)" arbitrary: w)
  case Nil
  then have "chan_recv (queue q w) = RecvBlocked" by (simp add: chan_cases)
  then have "closeWaitQueue q w = Some (set_queue q ((queue q w)\<lparr>chan_closed := True\<rparr>) w)"
    using Nil.prems by (subst closeWaitQueue.simps) (simp add: chan_close_def)
  moreover have "(queue q w)\<lparr>chan_closed := True\<rparr> =
      \<lparr>buf = [], chan_cap = chan_cap (queue q w), chan_closed = True\<rparr>"
    using Nil.hyps by (cases "queue q w") simp
  ultimately show ?case by (simp add: shut_waiters_def flip: Nil.hyps)
next
  case (Cons i js)
  let ?q' = "(queue q w)\<lparr>buf := js\<rparr>"
  let ?w1 = "close_waiter i (set_queue q ?q' w)"
  have q1: "queue q ?w1 = ?q'" by (simp add: close_waiter_eq)
  have "chan_recv (queue q w) = Received i ?q'"
    using Cons.hyps(2) by (simp add: chan_cases flip: Cons.hyps(2))
  then have "closeWaitQueue q w = closeWaitQueue q ?w1"
    by (subst closeWaitQueue.simps) simp
  also have "\<dots> = Some (set_queue q \<lparr>buf = [], chan_cap = chan_cap (queue q ?w1), chan_closed = True\<rparr>
      (shut_waiters (buf (queue q ?w1)) ?w1))"
    using Cons.prems by (intro Cons.hyps(1)) (simp_all add: q1)
  also have "shut_waiters js ?w1 = set_queue q ?q' w\<lparr>waiters :=
      (\<lambda>x. if x \<in> set (i # js) then map_option shut (waiters w x) else waiters w x)\<rparr>"
  proof -
    have "waiters ?w1 = (waiters w)(i := map_option shut (waiters w i))"
      by (simp add: close_waiter_eq)
    then have "(\<lambda>x. if x \<in> set js then map_option shut (waiters ?w1 x) else waiters ?w1 x) =
        (\<lambda>x. if x \<in> set (i # js) then map_option shut (waiters w x) else waiters w x)"
      by (auto simp: fun_eq_iff)
    moreover have "?w1\<lparr>waiters := ws\<rparr> = set_queue q ?q' w\<lparr>waiters := ws\<rparr>" for ws
      by (simp add: close_waiter_eq)
    ultimately show ?thesis unfolding shut_waiters_def by (rule trans [OF arg_cong])
  qed
  ultimately show ?case
    by (simp add: q1 shut_waiters_def set_queue_again flip: Cons.hyps(2))
qed

lemma closeIdleChan_open:
  assumes "\<not> chan_closed c"
  shows "closeIdleChan c = Some (Some \<lparr>buf = [], chan_cap = chan_cap c, chan_closed = True\<rparr>)"
  using assms
proof (induction "buf c" arbitrary: c)
  case Nil
  then have "chan_recv c = RecvBlocked" by (simp add: chan_cases)
  with Nil have "closeIdleChan c = Some (Some (c\<lparr>chan_closed := True\<rparr>))"
    by (subst closeIdleChan.simps) (simp add: chan_close_def)
  then show ?case using Nil.hyps by (cases c) simp
next
  case (Cons x xs)
  have "chan_recv c = Received x (c\<lparr>buf := xs\<rparr>)" by (simp add: chan_cases flip: Cons.hyps(2))
  then have "closeIdleChan c = closeIdleChan (c\<lparr>buf := xs\<rparr>)"
    by (subst closeIdleChan.simps) simp
  with Cons show ?case by simp
qed

text \<open>On a channel that is closed already neither ends.\<close>

lemma closeWaitQueue_closed:
  assumes "buf (queue q w) = []" and "chan_closed (queue q w)"
  shows "closeWaitQueue q w = None"
proof (rule ccontr)
  assume "closeWaitQueue q w \<noteq> None"
  then obtain y where y: "closeWaitQueue q w = Some y" by blast
  have "\<not> (buf (queue q w) = [] \<and> chan_closed (queue q w))"
  proof (rule closeWaitQueue.raw_induct
      [where P = "\<lambda>q w _. \<not> (buf (queue q w) = [] \<and> chan_closed (queue q w))", OF _ y])
    fix f q w y
    assume IH: "\<And>q w y. f q w = Some y \<Longrightarrow> \<not> (buf (queue q w) = [] \<and> chan_closed (queue q w))"
      and eq: "(case chan_recv (queue q w) of
          Received i q' \<Rightarrow> f q (close_waiter i (set_queue q q' w)) | RecvZero \<Rightarrow> f q w
        | RecvBlocked \<Rightarrow>
            Some (case chan_close (queue q w) of None \<Rightarrow> w | Some q' \<Rightarrow> set_queue q q' w)) = Some y"
    show "\<not> (buf (queue q w) = [] \<and> chan_closed (queue q w))"
    proof
      assume a: "buf (queue q w) = [] \<and> chan_closed (queue q w)"
      then have "chan_recv (queue q w) = RecvZero" by (simp add: chan_cases)
      with eq have "f q w = Some y" by simp
      with IH a show False by blast
    qed
  qed
  with assms show False by blast
qed

subsection \<open>The channels together\<close>

definition emptied :: "'a chan \<Rightarrow> 'a chan" where
  "emptied c = \<lparr>buf = [], chan_cap = chan_cap c, chan_closed = True\<rparr>"

lemma emptied_fields [simp]:
  "buf (emptied c) = []" "chan_cap (emptied c) = chan_cap c" "chan_closed (emptied c)"
  by (simp_all add: emptied_def)

lemma emptied_wf [simp]: "chan_wf (emptied c)"
  by (simp add: chan_wf_def)

lemma only_queues_shut: "only_queues w w' \<Longrightarrow> only_queues w (shut_waiters ids w')"
  unfolding shut_waiters_def by (rule only_queues_waiters)

definition some_shut :: "world \<Rightarrow> world \<Rightarrow> bool" where
  "some_shut w w' \<longleftrightarrow>
     (\<forall>i. waiters w' i = waiters w i \<or> waiters w' i = map_option shut (waiters w i))"

lemma some_shut_trans: "some_shut a b \<Longrightarrow> some_shut b c \<Longrightarrow> some_shut a c"
  unfolding some_shut_def by (metis shut_shut)

lemma close_queue_step_ok:
  assumes "\<not> chan_closed (queue q w)"
  shows "\<exists>w'. close_queue_step q w = (Ok (), w') \<and> only_queues w w' \<and> some_shut w w' \<and>
     (\<forall>q'. queue q' w' = (if q' = q then emptied (queue q w) else queue q' w)) \<and>
     (\<forall>i \<in> set (buf (queue q w)). waiters w' i = map_option shut (waiters w i))"
proof -
  let ?w' = "set_queue q (emptied (queue q w)) (shut_waiters (buf (queue q w)) w)"
  have "queue q' (shut_waiters ids w) = queue q' w" for q' ids
    by (cases q') (simp_all add: shut_waiters_def)
  then have "\<forall>q'. queue q' ?w' = (if q' = q then emptied (queue q w) else queue q' w)" by simp
  moreover have "close_queue_step q w = (Ok (), ?w')"
    by (simp add: close_queue_step_def closeWaitQueue_open [OF assms] emptied_def)
  moreover have "only_queues w ?w'"
    by (intro only_queues_set_queue only_queues_shut only_queues_refl)
  moreover have "some_shut w ?w'" "\<forall>i \<in> set (buf (queue q w)). waiters ?w' i = map_option shut (waiters w i)"
    by (simp_all add: some_shut_def shut_waiters_def)
  ultimately show ?thesis by blast
qed

lemma some_shut_again:
  "some_shut a b \<Longrightarrow> waiters a i = map_option shut x \<Longrightarrow> waiters b i = map_option shut x"
  unfolding some_shut_def by (metis shut_shut)

lemma close_queues:
  assumes "\<forall>q. \<not> chan_closed (queue q w)"
  shows "\<exists>w'. and_then (close_queue_step QAny)
      (and_then (close_queue_step QIPv4) (and_then (close_queue_step QIPv6)
        (and_then (close_queue_step QTCP) (and_then (close_queue_step QUDP) f)))) w = f w' \<and>
     only_queues w w' \<and> some_shut w w' \<and> (\<forall>q. queue q w' = emptied (queue q w)) \<and>
     (\<forall>q. \<forall>i \<in> set (buf (queue q w)). waiters w' i = map_option shut (waiters w i))"
proof -
  have step: "\<exists>w'. close_queue_step q w1 = (Ok (), w') \<and> only_queues w w' \<and> some_shut w w' \<and>
      (\<forall>q'. queue q' w' = (if q' \<in> insert q qs then emptied (queue q' w) else queue q' w)) \<and>
      (\<forall>q' \<in> insert q qs. \<forall>i \<in> set (buf (queue q' w)). waiters w' i = map_option shut (waiters w i))"
    if p: "only_queues w w1" "some_shut w w1"
      "\<forall>q'. queue q' w1 = (if q' \<in> qs then emptied (queue q' w) else queue q' w)" "q \<notin> qs"
      "\<forall>q' \<in> qs. \<forall>i \<in> set (buf (queue q' w)). waiters w1 i = map_option shut (waiters w i)"
    for q qs w1
  proof -
    from p assms have o: "\<not> chan_closed (queue q w1)" by simp
    obtain w' where w': "close_queue_step q w1 = (Ok (), w')" "only_queues w1 w'" "some_shut w1 w'"
      "\<forall>q'. queue q' w' = (if q' = q then emptied (queue q w1) else queue q' w1)"
      "\<forall>i \<in> set (buf (queue q w1)). waiters w' i = map_option shut (waiters w1 i)"
      using close_queue_step_ok [OF o] by blast
    have "waiters w' i = map_option shut (waiters w i)"
      if "i \<in> set (buf (queue q w))" for i
      using w'(5) that p by (metis some_shut_def shut_shut)
    moreover have "waiters w' i = map_option shut (waiters w i)"
      if "q' \<in> qs" "i \<in> set (buf (queue q' w))" for q' i
      using p(5) that some_shut_again [OF w'(3)] by blast
    moreover have "\<forall>q'. queue q' w' = (if q' \<in> insert q qs then emptied (queue q' w) else queue q' w)"
      using w'(4) p(3,4) by simp
    ultimately show ?thesis
      using w'(1) only_queues_trans [OF p(1) w'(2)] some_shut_trans [OF p(2) w'(3)] by blast
  qed
  have s0: "some_shut w w" by (simp add: some_shut_def)
  obtain w1 where 1: "close_queue_step QAny w = (Ok (), w1)" "only_queues w w1" "some_shut w w1"
    "\<forall>q'. queue q' w1 = (if q' \<in> {QAny} then emptied (queue q' w) else queue q' w)"
    "\<forall>q' \<in> {QAny}. \<forall>i \<in> set (buf (queue q' w)). waiters w1 i = map_option shut (waiters w i)"
    using step [of w "{}" QAny] s0 by auto
  obtain w2 where 2: "close_queue_step QIPv4 w1 = (Ok (), w2)" "only_queues w w2" "some_shut w w2"
    "\<forall>q'. queue q' w2 = (if q' \<in> {QIPv4, QAny} then emptied (queue q' w) else queue q' w)"
    "\<forall>q' \<in> {QIPv4, QAny}. \<forall>i \<in> set (buf (queue q' w)). waiters w2 i = map_option shut (waiters w i)"
    using step [OF 1(2-4) _ 1(5), of QIPv4] by auto
  obtain w3 where 3: "close_queue_step QIPv6 w2 = (Ok (), w3)" "only_queues w w3" "some_shut w w3"
    "\<forall>q'. queue q' w3 = (if q' \<in> {QIPv6, QIPv4, QAny} then emptied (queue q' w) else queue q' w)"
    "\<forall>q' \<in> {QIPv6, QIPv4, QAny}.
       \<forall>i \<in> set (buf (queue q' w)). waiters w3 i = map_option shut (waiters w i)"
    using step [OF 2(2-4) _ 2(5), of QIPv6] by auto
  obtain w4 where 4: "close_queue_step QTCP w3 = (Ok (), w4)" "only_queues w w4" "some_shut w w4"
    "\<forall>q'. queue q' w4 = (if q' \<in> {QTCP, QIPv6, QIPv4, QAny} then emptied (queue q' w) else queue q' w)"
    "\<forall>q' \<in> {QTCP, QIPv6, QIPv4, QAny}.
       \<forall>i \<in> set (buf (queue q' w)). waiters w4 i = map_option shut (waiters w i)"
    using step [OF 3(2-4) _ 3(5), of QTCP] by auto
  obtain w5 where 5: "close_queue_step QUDP w4 = (Ok (), w5)" "only_queues w w5" "some_shut w w5"
    "\<forall>q'. queue q' w5 =
       (if q' \<in> {QUDP, QTCP, QIPv6, QIPv4, QAny} then emptied (queue q' w) else queue q' w)"
    "\<forall>q' \<in> {QUDP, QTCP, QIPv6, QIPv4, QAny}.
       \<forall>i \<in> set (buf (queue q' w)). waiters w5 i = map_option shut (waiters w i)"
    using step [OF 4(2-4) _ 4(5), of QUDP] by auto
  have all: "q \<in> {QUDP, QTCP, QIPv6, QIPv4, QAny}" for q by (cases q) simp_all
  have "\<forall>q. queue q w5 = emptied (queue q w)" using 5(4) all by metis
  moreover have "\<forall>q. \<forall>i \<in> set (buf (queue q w)). waiters w5 i = map_option shut (waiters w i)"
    using 5(5) all by blast
  ultimately show ?thesis using 1(1) 2(1) 3(1) 4(1) 5(1-3)
    by (intro exI [of _ w5]) (simp add: and_then_def)
qed

lemma idle_of_queues: "only_queues w w' \<Longrightarrow> idle_of p w' = idle_of p w"
  by (simp add: idle_of_def only_queuesD)

lemma close_channels_ok:
  assumes "\<forall>q. \<not> chan_closed (queue q w)" and "\<not> chan_closed (idleTCP w)" "\<not> chan_closed (idleUDP w)"
  shows "\<exists>w1. close_channels w =
      (Ok (), w1\<lparr>idleTCP := emptied (idleTCP w), idleUDP := emptied (idleUDP w)\<rparr>) \<and>
     only_queues w w1 \<and> some_shut w w1 \<and> (\<forall>q. queue q w1 = emptied (queue q w)) \<and>
     (\<forall>q. \<forall>i \<in> set (buf (queue q w)). waiters w1 i = map_option shut (waiters w i))"
proof -
  obtain w1 where w1: "close_channels w =
      and_then (close_idle_step ProtocolTCP) (close_idle_step ProtocolUDP) w1"
    "only_queues w w1" "some_shut w w1" "\<forall>q. queue q w1 = emptied (queue q w)"
    "\<forall>q. \<forall>i \<in> set (buf (queue q w)). waiters w1 i = map_option shut (waiters w i)"
    using close_queues [OF assms(1), of "and_then (close_idle_step ProtocolTCP) (close_idle_step ProtocolUDP)"]
    unfolding close_channels_def by blast
  have "idleTCP w1 = idleTCP w" "idleUDP w1 = idleUDP w" using w1(2) by (simp_all add: only_queuesD)
  then have "close_channels w =
      (Ok (), w1\<lparr>idleTCP := emptied (idleTCP w), idleUDP := emptied (idleUDP w)\<rparr>)"
    unfolding w1(1) using assms(2,3)
    by (simp add: and_then_def close_idle_step_def idle_of_def closeIdleChan_open emptied_def set_idle_def)
  with w1 show ?thesis by blast
qed

subsection \<open>\<^verbatim>\<open>Close\<close>\<close>

lemma one_manager_stop:
  "one_manager_ok False m \<Longrightarrow> \<exists>m'. manager_Stop m = Ok m' \<and> one_manager_ok True m'"
  by (auto simp: one_manager_ok_def manager_Stop_def manager_ok_def)

lemma close_managers_ok:
  assumes "one_manager_ok False (healthCheckManager w)" "one_manager_ok False (cleanupManager w)"
    "one_manager_ok False (leakDetector w)"
  shows "\<exists>w'. close_managers w = (Ok (), w') \<and> only_managers w w' \<and>
     one_manager_ok True (healthCheckManager w') \<and> one_manager_ok True (cleanupManager w') \<and>
     one_manager_ok True (leakDetector w')"
proof -
  obtain h where h: "manager_Stop (healthCheckManager w) = Ok h" "one_manager_ok True h"
    using one_manager_stop [OF assms(1)] by blast
  obtain c where c: "manager_Stop (cleanupManager w) = Ok c" "one_manager_ok True c"
    using one_manager_stop [OF assms(2)] by blast
  obtain l where l: "manager_Stop (leakDetector w) = Ok l" "one_manager_ok True l"
    using one_manager_stop [OF assms(3)] by blast
  note h c l
  moreover have "only_managers w
      (w\<lparr>healthCheckManager := h, cleanupManager := c, leakDetector := l\<rparr>)"
    unfolding only_managers_def by blast
  ultimately show ?thesis
    by (intro exI [of _ "w\<lparr>healthCheckManager := h, cleanupManager := c, leakDetector := l\<rparr>"])
      (simp add: close_managers_def and_then_def on_manager_def)
qed

text \<open>What a closed pool looks like.\<close>

definition all_closed :: "world \<Rightarrow> bool" where
  "all_closed w \<longleftrightarrow>
     pool_closed w \<and> close_once w \<and> closeChan_closed w \<and> connections w = [] \<and>
     (\<forall>r < next_ref w. Conn (heap w r) = None) \<and>
     (\<forall>q. buf (queue q w) = [] \<and> chan_closed (queue q w)) \<and>
     buf (idleTCP w) = [] \<and> chan_closed (idleTCP w) \<and>
     buf (idleUDP w) = [] \<and> chan_closed (idleUDP w) \<and>
     \<not> running (healthCheckManager w) \<and> \<not> running (cleanupManager w) \<and> \<not> running (leakDetector w)"

text \<open>
  The state \<^verbatim>\<open>Close\<close> ends in: the invariant holds, everything is closed, every connection that
  was open has been closed exactly once, and the channels of the queued waiters are closed.
\<close>

lemma Close_open_core:
  assumes I: "inv_core w" and M: "managers_ok w" and o: "\<not> close_once w" and perm: "permutes_all order"
  obtains w' where "Close order w =
      (error_result (case filter (\<lambda>r. snd (snd (Connection_Close (heap w r))) \<noteq> None)
         (getAllConnections order w) of [] \<Rightarrow> None | r # _ \<Rightarrow> snd (snd (Connection_Close (heap w r)))), w')"
    and "inv_core w'" and "createSemaphore w' = createSemaphore w" and "managers_ok w'" and "all_closed w'" and "next_ref w' = next_ref w"
    and "cfg w' = cfg w"
    and "\<forall>r < next_ref w. heap w' r = fst (Connection_Close (heap w r)) \<and>
       closes r (trace w') = closes r (trace w) + (if Conn (heap w r) \<noteq> None then 1 else 0)"
    and "\<forall>q. \<forall>i \<in> set (buf (queue q w)). waiters w' i = map_option shut (waiters w i)"
    and "typed w \<Longrightarrow> typed w'"
proof -
  from I have qs: "queues_ok w" and idle: "idle_ok w" and own: "owned_ok w" and map: "map_ok w"
    and cl: "closes_ok w" and ids: "ids_ok w" and ws: "waiters_ok w" and bks: "books_ok w"
    by (simp_all add: inv_core_def)
  from qs o have open_pool: "\<not> pool_closed w" "\<not> closeChan_closed w" by (simp_all add: queues_ok_def)
  let ?w0 = "w\<lparr>close_once := True, pool_closed := True, closeChan_closed := True\<rparr>"
  have q0: "queue q ?w0 = queue q w" for q by (cases q) simp_all
  have "one_manager_ok False (healthCheckManager ?w0)" "one_manager_ok False (cleanupManager ?w0)"
    "one_manager_ok False (leakDetector ?w0)"
    using M o by (simp_all add: managers_ok_def)
  from close_managers_ok [OF this] obtain w1 where m: "close_managers ?w0 = (Ok (), w1)"
    and om: "only_managers ?w0 w1"
    and mok: "one_manager_ok True (healthCheckManager w1)" "one_manager_ok True (cleanupManager w1)"
      "one_manager_ok True (leakDetector w1)" by blast
  note omd = only_managersD [OF om]
  have first: "and_then close_signal close_managers (w\<lparr>close_once := True, pool_closed := True\<rparr>) =
      (Ok (), w1)"
    using m open_pool by (simp add: and_then_def close_signal_def)
  let ?rs = "getAllConnections order w1"
  have rs: "?rs = getAllConnections order w" by (simp add: getAllConnections_def omd)
  have reg: "set ?rs = registered w" and dist: "distinct ?rs"
  proof -
    show "set ?rs = registered w"
      unfolding getAllConnections_def permutes_allD(1) [OF perm] by (simp add: omd)
    have "inj_on snd (set (connections w))"
      using map unfolding map_ok_def inj_on_def by (metis prod.collapse)
    then have "distinct (List.map snd (connections w))"
      using map by (simp add: map_ok_def distinct_map)
    then show "distinct ?rs"
      unfolding getAllConnections_def permutes_allD(3) [OF perm] by (simp add: omd)
  qed
  obtain err w2 where c: "close_each ?rs None (w1\<lparr>connections := []\<rparr>) = (err, w2)"
    by (cases "close_each ?rs None (w1\<lparr>connections := []\<rparr>)")
  have len: "length ?rs = length (connections w)"
    unfolding getAllConnections_def permutes_allD(2) [OF perm] by (simp add: omd)
  have bk: "case collector w of None \<Rightarrow> collector w2 = None
    | Some s \<Rightarrow> \<exists>s'. collector w2 = Some s' \<and>
        TotalConnectionsCreated s' = TotalConnectionsCreated s \<and>
        TotalConnectionsClosed s' = TotalConnectionsClosed s + of_nat (length (connections w)) \<and>
        CurrentConnections s' = CurrentConnections s - of_nat (length (connections w))"
    using close_each_books [OF c] unfolding len by (simp add: omd)
  have cc: "close_connections order w1 = (err, w2)" using c by (simp add: close_connections_def)
  have q1: "queue q (w1\<lparr>connections := []\<rparr>) = queue q w" for q
    using omd(11) [of q] q0 by simp
  from close_each_frame [OF c] have fr: "static w2 = static w1" "connections w2 = []"
    "idleTCP w2 = idleTCP w" "idleUDP w2 = idleUDP w" "next_ref w2 = next_ref w"
    "generator w2 = generator w" "waiters w2 = waiters w" "createSemaphore w2 = createSemaphore w"
    "\<forall>q. queue q w2 = queue q w" "next_wid w2 = next_wid w"
    by (simp_all add: close_frame_def omd q1 q0) (simp_all add: static_def)
  have hp: "heap w2 r = (if r \<in> registered w then fst (Connection_Close (heap w r)) else heap w r) \<and>
      closes r (trace w2) =
        closes r (trace w) + (if r \<in> registered w \<and> Conn (heap w r) \<noteq> None then 1 else 0)" for r
    using close_each_heap [OF c, of r] by (simp add: reg omd)
  have hp': "heap w2 r = fst (Connection_Close (heap w r))" "Conn (heap w2 r) = None"
    "closes r (trace w2) = closes r (trace w) + (if Conn (heap w r) \<noteq> None then 1 else 0)"
    if "r < next_ref w" for r
  proof -
    from own that have "r \<in> registered w \<or> Conn (heap w r) = None" by (auto simp: owned_ok_def)
    with hp [of r] show "heap w2 r = fst (Connection_Close (heap w r))" "Conn (heap w2 r) = None"
      "closes r (trace w2) = closes r (trace w) + (if Conn (heap w r) \<noteq> None then 1 else 0)"
      by auto
  qed
  have "\<forall>q. \<not> chan_closed (queue q w2)" "\<not> chan_closed (idleTCP w2)" "\<not> chan_closed (idleUDP w2)"
    using qs idle open_pool by (simp_all add: fr queues_ok_def idle_ok_def)
  from close_channels_ok [OF this] obtain w3 where ch: "close_channels w2 =
      (Ok (), w3\<lparr>idleTCP := emptied (idleTCP w2), idleUDP := emptied (idleUDP w2)\<rparr>)"
    and oq: "only_queues w2 w3" and sh: "some_shut w2 w3" and eq: "\<forall>q. queue q w3 = emptied (queue q w2)"
    and sw: "\<forall>q. \<forall>i \<in> set (buf (queue q w2)). waiters w3 i = map_option shut (waiters w2 i)"
    by blast
  let ?w' = "w3\<lparr>idleTCP := emptied (idleTCP w2), idleUDP := emptied (idleUDP w2)\<rparr>"
  note oqd = only_queuesD [OF oq]
  note std = staticD [OF fr(1)]
  have q': "queue q ?w' = emptied (queue q w)" for q using eq fr(9) by simp
  have res: "Close order w = (error_result err, ?w')"
    using o first cc ch by (simp add: Close_def)
  have wt: "waiters w3 i = waiters w i \<or> waiters w3 i = map_option shut (waiters w i)" for i
    using sh by (simp add: some_shut_def fr)
  have "inv_core ?w'"
    unfolding inv_core_def
  proof (intro conjI)
    show "ids_ok ?w'" using ids hp' by (simp add: ids_ok_def oqd fr)
    show "map_ok ?w'" by (simp add: map_ok_def oqd fr)
    show "owned_ok ?w'" using hp' by (simp add: owned_ok_def oqd fr)
    show "closes_ok ?w'"
      unfolding closes_ok_def
    proof (intro allI conjI impI)
      fix r
      have a: "closes r (trace w) \<le> 1" "next_ref w \<le> r \<or> Conn (heap w r) \<noteq> None \<Longrightarrow> closes r (trace w) = 0"
        using cl by (auto simp: closes_ok_def)
      then have "closes r (trace w2) \<le> 1" using hp [of r] by auto
      then show "closes r (trace ?w') \<le> 1" by (simp add: oqd)
      assume b: "next_ref ?w' \<le> r \<or> Conn (heap ?w' r) \<noteq> None"
      have "r \<notin> registered w" if "next_ref w \<le> r"
        using map that unfolding map_ok_def by fastforce
      moreover have "next_ref w \<le> r"
        using b hp'(2) [of r] by (cases "r < next_ref w") (auto simp: oqd fr)
      ultimately show "closes r (trace ?w') = 0" using a(2) hp [of r] by (simp add: oqd)
    qed
    show "idle_ok ?w'" using idle by (simp add: idle_ok_def oqd fr std omd)
    show "queues_ok ?w'" unfolding queues_ok_def q' by (simp add: oqd std omd)
    show "waiters_ok ?w'" unfolding waiters_ok_def
    proof (intro allI impI)
      fix i wt'
      assume "waiters ?w' i = Some wt'"
      then have "waiters w3 i = Some wt'" by simp
      from wt [of i, unfolded this] obtain wt0
        where "waiters w i = Some wt0" "wt' = wt0 \<or> wt' = shut wt0"
        by (cases "waiters w i") auto
      with ws show "i < next_wid ?w' \<and> chan_cap (w_chan wt') = 1 \<and>
          (\<forall>r\<in>set (buf (w_chan wt')). r < next_ref ?w')"
        by (auto simp: waiters_ok_def shut_def oqd fr)
    qed
    show "limit_ok ?w'" by (simp add: limit_ok_def oqd fr)
    show "books_ok ?w'"
      using bk bks
      by (cases "collector w") (auto simp: books_ok_def oqd fr std omd algebra_simps)
  qed
  moreover have "createSemaphore ?w' = createSemaphore w" by (simp add: oqd fr omd)
  moreover have "managers_ok ?w'" using mok by (simp add: managers_ok_def oqd std omd)
  moreover have "all_closed ?w'"
    unfolding all_closed_def q' using hp' mok
    by (simp add: oqd fr std omd one_manager_ok_def)
  moreover have "err = (case filter (\<lambda>r. snd (snd (Connection_Close (heap w r))) \<noteq> None)
         (getAllConnections order w) of [] \<Rightarrow> None | r # _ \<Rightarrow> snd (snd (Connection_Close (heap w r))))"
  proof -
    have h1: "heap (w1\<lparr>connections := []\<rparr>) = heap w" by (simp add: omd)
    show ?thesis using close_each_error [OF c dist, unfolded h1 rs] by simp
  qed
  moreover have "next_ref ?w' = next_ref w" "cfg ?w' = cfg w" by (simp_all add: oqd fr std omd)
  moreover have "\<forall>r < next_ref w. heap ?w' r = fst (Connection_Close (heap w r)) \<and>
       closes r (trace ?w') = closes r (trace w) + (if Conn (heap w r) \<noteq> None then 1 else 0)"
    using hp' by (simp add: oqd)
  moreover have "\<forall>q. \<forall>i \<in> set (buf (queue q w)). waiters ?w' i = map_option shut (waiters w i)"
    using sw by (simp add: fr)
  moreover have "typed ?w'" if "typed w"
    using that
  proof (rule typed_shrink)
    show "Protocol (heap ?w' r) = Protocol (heap w r) \<and> IPVersion (heap ?w' r) = IPVersion (heap w r) \<and>
        (Conn (heap ?w' r) = None \<or> Conn (heap ?w' r) = Conn (heap w r))" if "r < next_ref w" for r
      using hp'(1,2) [OF that] by (auto simp: oqd Connection_Close_def split: option.splits prod.splits)
    have pc: "pool_closed w3" by (simp add: oqd std omd)
    show "pool_closed w \<longrightarrow> pool_closed ?w'" by (simp add: pc)
    show "rel_option (fewer (pool_closed ?w')) (waiters w i) (waiters ?w' i)" for i
      using wt [of i] by (cases "waiters w i") (auto simp: fewer_def shut_def pc)
    show "distinct (buf (queue q ?w'))" for q unfolding q' by (simp add: emptied_def)
    show "set (buf (queue q ?w')) \<subseteq> set (buf (queue q w))" for q
      unfolding q' by (simp add: emptied_def)
  qed (simp_all add: oqd fr)
  ultimately show thesis using res by (intro that [of ?w']) simp_all
qed

lemma Close_open_pool:
  assumes I: "pool_inv w" and M: "managers_ok w" and o: "\<not> close_once w" and perm: "permutes_all order"
  obtains w' where "Close order w =
      (error_result (case filter (\<lambda>r. snd (snd (Connection_Close (heap w r))) \<noteq> None)
         (getAllConnections order w) of [] \<Rightarrow> None | r # _ \<Rightarrow> snd (snd (Connection_Close (heap w r)))), w')"
    and "pool_inv w'" and "managers_ok w'" and "all_closed w'" and "next_ref w' = next_ref w"
    and "cfg w' = cfg w"
    and "\<forall>r < next_ref w. heap w' r = fst (Connection_Close (heap w r)) \<and>
       closes r (trace w') = closes r (trace w) + (if Conn (heap w r) \<noteq> None then 1 else 0)"
    and "\<forall>q. \<forall>i \<in> set (buf (queue q w)). waiters w' i = map_option shut (waiters w i)"
    and "typed w \<Longrightarrow> typed w'"
proof -
  from I have "inv_core w" and s: "sem_ok w" by (simp_all add: pool_inv_core)
  show thesis
  proof (rule Close_open_core [OF \<open>inv_core w\<close> M o perm], goal_cases)
    case (1 w')
    then have "pool_inv w'" using s by (simp add: pool_inv_core sem_ok_def)
    then show ?case using 1 that by simp
  qed
qed

text \<open>A second call changes nothing.\<close>

lemma Close_again: "close_once w \<Longrightarrow> Close order w = (Ok (), w)"
  by (simp add: Close_def)

end
