(* ===== verification/Pool_Sweep.thy ===== *)
theory Pool_Sweep
  imports Pool_Wait_Facts
begin

text \<open>
  The managers work on a snapshot of the pool's connections: a loop visits them one by one.
  The interface of such a loop is the locale \<open>sweep_task\<close>: what a visit leaves alone and which
  wrappers it skips; \<open>sweep_goal\<close> adds what a visit establishes for good. Both are interpreted
  for the managers in their theories.
\<close>

fun sweep :: "(ref \<Rightarrow> world \<Rightarrow> world) \<Rightarrow> ref list \<Rightarrow> world \<Rightarrow> world" where
  "sweep visit [] w = w"
| "sweep visit (r # rs) w = sweep visit rs (visit r w)"

lemma sweep_append: "sweep visit (rs @ ss) w = sweep visit ss (sweep visit rs w)"
  by (induction rs arbitrary: w) simp_all

text \<open>A snapshot lists wrappers of the pool.\<close>

lemma snapshot_bound:
  assumes "pool_inv w" and "permutes_all order" and "r \<in> set (getAllConnections order w)"
  shows "r < next_ref w" and "r \<in> registered w"
proof -
  show "r \<in> registered w"
    using assms(3) unfolding getAllConnections_def permutes_allD(1) [OF assms(2)] by simp
  then show "r < next_ref w" using pool_invD(2) [OF assms(1)] by (auto simp: map_ok_def)
qed

locale sweep_task =
  fixes visit :: "ref \<Rightarrow> world \<Rightarrow> world"
    and skips :: "connection \<Rightarrow> bool"
  assumes visit_inv: "pool_inv w \<Longrightarrow> few w \<Longrightarrow> r < next_ref w \<Longrightarrow> pool_inv (visit r w)"
    and visit_evolves: "pool_inv w \<Longrightarrow> few w \<Longrightarrow> r < next_ref w \<Longrightarrow> evolves w (visit r w)"
    and visit_next_ref: "next_ref (visit r w) = next_ref w"
    and visit_static: "static (visit r w) = static w"
    and visit_other: "r' \<noteq> r \<Longrightarrow> heap (visit r w) r' = heap w r'"
    and visit_skips: "skips (heap w r) \<Longrightarrow> visit r w = w"
begin

lemma sweep_next_ref: "next_ref (sweep visit rs w) = next_ref w"
  by (induction rs arbitrary: w) (simp_all add: visit_next_ref)

lemma sweep_static: "static (sweep visit rs w) = static w"
  by (induction rs arbitrary: w) (simp_all add: visit_static)

lemma sweep_inv:
  "pool_inv w \<Longrightarrow> few w \<Longrightarrow> \<forall>r \<in> set rs. r < next_ref w \<Longrightarrow> pool_inv (sweep visit rs w)"
  by (induction rs arbitrary: w) (simp_all add: visit_inv visit_next_ref few_def)

lemma sweep_evolves:
  "pool_inv w \<Longrightarrow> few w \<Longrightarrow> \<forall>r \<in> set rs. r < next_ref w \<Longrightarrow> evolves w (sweep visit rs w)"
proof (induction rs arbitrary: w)
  case (Cons r rs)
  have "evolves w (visit r w)" using Cons.prems by (intro visit_evolves) simp_all
  also have "evolves (visit r w) (sweep visit rs (visit r w))"
    using Cons.prems by (intro Cons.IH) (simp_all add: visit_inv visit_next_ref few_def)
  finally show ?case by simp
qed simp

lemma sweep_keeps:
  "(pool_inv w \<Longrightarrow> \<forall>r \<in> set rs. r < next_ref w) \<Longrightarrow> keeps w (sweep visit rs w)"
  using sweep_inv sweep_evolves by (auto simp: keeps_def sweep_next_ref sweep_static few_def)

lemma sweep_all_keeps:
  "permutes_all order \<Longrightarrow> keeps w (sweep visit (getAllConnections order w) w)"
  using snapshot_bound by (auto intro!: sweep_keeps)

lemma sweep_outside: "r \<notin> set rs \<Longrightarrow> heap (sweep visit rs w) r = heap w r"
  by (induction rs arbitrary: w) (simp_all add: visit_other)

text \<open>A wrapper that is skipped stays as it is, whatever happens to the others.\<close>

lemma sweep_skipped: "skips (heap w r) \<Longrightarrow> heap (sweep visit rs w) r = heap w r"
proof (induction rs arbitrary: w)
  case Nil
  then show ?case by simp
next
  case (Cons a rs)
  show ?case
  proof (cases "a = r")
    case True
    with Cons show ?thesis by (simp add: visit_skips)
  next
    case False
    with Cons show ?thesis by (simp add: visit_other)
  qed
qed

end

text \<open>A visit that achieves something the visits of other wrappers do not undo.\<close>

locale sweep_goal = sweep_task +
  fixes goal :: "ref \<Rightarrow> world \<Rightarrow> bool"
  assumes visit_goal: "pool_inv w \<Longrightarrow> few w \<Longrightarrow> r < next_ref w \<Longrightarrow> goal r (visit r w)"
    and goal_stable: "pool_inv w \<Longrightarrow> few w \<Longrightarrow> r < next_ref w \<Longrightarrow> r' < next_ref w \<Longrightarrow> goal r' w \<Longrightarrow>
      goal r' (visit r w)"
begin

lemma goal_kept:
  "pool_inv w \<Longrightarrow> few w \<Longrightarrow> \<forall>r \<in> set rs. r < next_ref w \<Longrightarrow> r' < next_ref w \<Longrightarrow> goal r' w \<Longrightarrow>
     goal r' (sweep visit rs w)"
  by (induction rs arbitrary: w) (simp_all add: visit_inv visit_next_ref few_def goal_stable)

lemma sweep_goals:
  "pool_inv w \<Longrightarrow> few w \<Longrightarrow> \<forall>r \<in> set rs. r < next_ref w \<Longrightarrow> r \<in> set rs \<Longrightarrow>
     goal r (sweep visit rs w)"
proof (induction rs arbitrary: w)
  case Nil
  then show ?case by simp
next
  case (Cons a rs)
  let ?w = "visit a w"
  have w: "pool_inv ?w" "few ?w" "\<forall>r \<in> set rs. r < next_ref ?w" "a < next_ref ?w"
    using Cons.prems by (simp_all add: visit_inv visit_next_ref few_def)
  show ?case
  proof (cases "r \<in> set rs")
    case True
    with Cons.IH w show ?thesis by simp
  next
    case False
    with Cons.prems have "r = a" by simp
    moreover have "goal a ?w" using Cons.prems by (simp add: visit_goal)
    ultimately show ?thesis using goal_kept [OF w] by simp
  qed
qed

end

subsection \<open>The loop goroutine of a manager\<close>

text \<open>
  The \<^verbatim>\<open>select\<close> of a loop goroutine: each tick runs a pass, the closed \<^verbatim>\<open>stopChan\<close> makes it return
  (with both ready either may come first). A tick comes with the orders in which its pass
  iterates over the map. The result: whether the loop has returned, and the state.
\<close>

datatype 'a loop_event = LoopTick 'a | LoopStop

fun manager_loop :: "('a \<Rightarrow> world \<Rightarrow> world) \<Rightarrow> 'a loop_event list \<Rightarrow> world \<Rightarrow> bool \<times> world" where
  "manager_loop pass [] w = (False, w)"
| "manager_loop pass (LoopStop # evs) w = (True, w)"
| "manager_loop pass (LoopTick x # evs) w = manager_loop pass evs (pass x w)"

lemma manager_loop_returns: "fst (manager_loop pass evs w) \<longleftrightarrow> LoopStop \<in> set evs"
  by (induction pass evs w rule: manager_loop.induct) simp_all

lemma manager_loop_stopped: "manager_loop pass (evs @ LoopStop # evs') w = manager_loop pass (evs @ [LoopStop]) w"
  by (induction pass evs w rule: manager_loop.induct) simp_all

end
