(* ===== verification/Pool_Leak.thy ===== *)
theory Pool_Leak
  imports Pool_Sweep
begin

text \<open>
  \<^verbatim>\<open>leak.go\<close>: \<^verbatim>\<open>detectLeaks\<close> marks and counts the connections that have been in use for longer
  than the configured time. It closes nothing.
\<close>

definition leak_visit :: "ref \<Rightarrow> world \<Rightarrow> world" where
  "leak_visit r w =
     (if \<not> IsInUse (heap w r) then w
      else if IsLeaked (ConnectionLeakTimeout (cfg w)) (now w) (heap w r) then
        with_stats IncrementLeakedConnections (upd_conn r (\<lambda>c. c\<lparr>LeakDetected := True\<rparr>) w)
      else w)"

definition detectLeaks :: "(ref list \<Rightarrow> ref list) \<Rightarrow> world \<Rightarrow> world" where
  "detectLeaks order w = sweep leak_visit (getAllConnections order w) w"

definition detectionLoop ::
    "(ref list \<Rightarrow> ref list) loop_event list \<Rightarrow> world \<Rightarrow> bool \<times> world" where
  "detectionLoop = manager_loop detectLeaks"

lemma leak_visit_light [simp]: "light w (leak_visit r w)"
  by (simp add: leak_visit_def)

lemma IsLeaked_mark [simp]: "IsLeaked d t (c\<lparr>LeakDetected := b\<rparr>) = IsLeaked d t c"
  by (simp add: IsLeaked_def)

lemma leak_visit_now [simp]: "now (leak_visit r w) = now w"
  by (simp add: leak_visit_def)

lemma leak_visit_heap:
  "heap (leak_visit r w) =
     (heap w)(r := (if IsLeaked (ConnectionLeakTimeout (cfg w)) (now w) (heap w r)
                    then (heap w r)\<lparr>LeakDetected := True\<rparr> else heap w r))"
  by (auto simp: leak_visit_def IsLeaked_def)

definition leak_seen :: "ref \<Rightarrow> world \<Rightarrow> bool" where
  "leak_seen r w \<longleftrightarrow>
     (IsLeaked (ConnectionLeakTimeout (cfg w)) (now w) (heap w r) \<longrightarrow> LeakDetected (heap w r))"

interpretation leak: sweep_goal leak_visit "\<lambda>c. \<not> IsInUse c" leak_seen
proof
  fix w r r'
  note L = leak_visit_light [of w r]
  show "pool_inv w \<Longrightarrow> pool_inv (leak_visit r w)" by (simp add: light_inv [OF L])
  show "evolves w (leak_visit r w)" by (rule light_evolves [OF L])
  show "next_ref (leak_visit r w) = next_ref w" by (rule lightD(6) [OF L])
  show "static (leak_visit r w) = static w" by (rule light_static [OF L])
  show "r' \<noteq> r \<Longrightarrow> heap (leak_visit r w) r' = heap w r'" by (simp add: leak_visit_heap)
  show "\<not> IsInUse (heap w r) \<Longrightarrow> leak_visit r w = w" by (simp add: leak_visit_def)
  show "leak_seen r (leak_visit r w)"
    by (auto simp: leak_seen_def leak_visit_heap lightD(1) [OF L])
  show "leak_seen r' w \<Longrightarrow> leak_seen r' (leak_visit r w)"
    by (auto simp: leak_seen_def leak_visit_heap lightD(1) [OF L])
qed

subsection \<open>What a pass does\<close>

lemma sweep_leak_light: "light w (sweep leak_visit rs w)"
proof (induction rs arbitrary: w)
  case (Cons r rs)
  from light_trans [OF leak_visit_light this [of "leak_visit r w"]] show ?case by simp
qed simp

text \<open>Exactly the leaked connections of the pool get the mark.\<close>

lemma leak_heap:
  assumes "distinct rs"
  shows "heap (sweep leak_visit rs w) r =
     (if r \<in> set rs \<and> IsLeaked (ConnectionLeakTimeout (cfg w)) (now w) (heap w r)
      then (heap w r)\<lparr>LeakDetected := True\<rparr> else heap w r)"
  using assms
proof (induction rs arbitrary: w)
  case (Cons a rs)
  have "heap (sweep leak_visit rs (leak_visit a w)) r =
     (if r \<in> set rs \<and> IsLeaked (ConnectionLeakTimeout (cfg w)) (now w) (heap (leak_visit a w) r)
      then (heap (leak_visit a w) r)\<lparr>LeakDetected := True\<rparr> else heap (leak_visit a w) r)"
    using Cons by (simp add: lightD(1) [OF leak_visit_light])
  then show ?case using Cons.prems by (auto simp: leak_visit_heap)
qed simp

text \<open>The counter rises by one for each of them, on every pass.\<close>

lemma leak_count:
  assumes "distinct rs" and "collector w = Some s"
  shows "\<exists>s'. collector (sweep leak_visit rs w) = Some s' \<and>
     LeakedConnections s' = LeakedConnections s +
       of_nat (length (filter (\<lambda>r. IsLeaked (ConnectionLeakTimeout (cfg w)) (now w) (heap w r)) rs))"
  using assms
proof (induction rs arbitrary: w s)
  case Nil
  then show ?case by simp
next
  case (Cons a rs)
  let ?w = "leak_visit a w"
  let ?L = "IsLeaked (ConnectionLeakTimeout (cfg w)) (now w)"
  have c: "cfg ?w = cfg w" by (rule lightD(1) [OF leak_visit_light])
  let ?s1 = "if ?L (heap w a) then IncrementLeakedConnections (now w) s else s"
  have "?L (heap w a) \<Longrightarrow> IsInUse (heap w a)" by (simp add: IsLeaked_def split: if_splits)
  then have s1: "collector ?w = Some ?s1" using Cons.prems(2) by (simp add: leak_visit_def)
  have n: "LeakedConnections (IncrementLeakedConnections (now w) s) = LeakedConnections s + 1"
    by (simp add: stats_defs)
  have "filter (\<lambda>r. ?L (heap ?w r)) rs = filter (\<lambda>r. ?L (heap w r)) rs"
    using Cons.prems(1) by (intro filter_cong) (auto simp: leak_visit_heap)
  with Cons.IH [of ?w ?s1] Cons.prems s1 show ?case
    by (cases "?L (heap w a)") (auto simp: c n algebra_simps)
qed

lemma sweep_leak_now [simp]: "now (sweep leak_visit rs w) = now w"
  by (induction rs arbitrary: w) simp_all

end
