(* ===== verification/Pool_Cleanup.thy ===== *)
theory Pool_Cleanup
  imports Pool_Sweep
begin

text \<open>
  \<^verbatim>\<open>cleanup.go\<close>: \<^verbatim>\<open>performCleanup\<close> closes the connections that are not in use and have expired,
  been idle too long or turned unhealthy, and \<^verbatim>\<open>enforceMaxIdleConnections\<close> then closes the
  longest idle ones beyond the limit.
\<close>

subsection \<open>The visit\<close>

text \<open>It cannot take the wrapper out of an idle channel; it marks it and answers \<^term>\<open>False\<close>.\<close>

definition removeFromIdlePool :: "ref \<Rightarrow> world \<Rightarrow> bool \<times> world" where
  "removeFromIdlePool r w = (False, upd_conn r (UpdateHealth False (now w)) w)"

definition should_close :: "config \<Rightarrow> instant \<Rightarrow> connection \<Rightarrow> bool" where
  "should_close c t conn =
     (let s1 = IsExpired (MaxLifetime c) t conn;
          s2 = (if \<not> s1 \<and> IsIdleTooLong (IdleTimeout c) t conn then True else s1)
      in if \<not> s2 \<and> EnableHealthCheck c \<and> \<not> GetHealthStatus conn then True else s2)"

definition cleanup_visit :: "ref \<Rightarrow> world \<Rightarrow> world" where
  "cleanup_visit r w =
     (if IsInUse (heap w r) then w
      else if should_close (cfg w) (now w) (heap w r) then
        (case removeFromIdlePool r w of
           (removed, w1) \<Rightarrow>
             if removed \<or> \<not> IsInUse (heap w1 r) then snd (closeConnection (Some r) w1) else w1)
      else w)"

subsection \<open>The limit on idle connections\<close>

text \<open>The inner loop: the index of the longest idle time, the first of them on a tie.\<close>

fun longest_from :: "(ref \<Rightarrow> duration) \<Rightarrow> ref list \<Rightarrow> nat \<Rightarrow> nat \<Rightarrow> duration \<Rightarrow> nat" where
  "longest_from idle [] i maxIdx maxIdleTime = maxIdx"
| "longest_from idle (r # rs) i maxIdx maxIdleTime =
     (if idle r > maxIdleTime then longest_from idle rs (Suc i) i (idle r)
      else longest_from idle rs (Suc i) maxIdx maxIdleTime)"

definition longest_index :: "(ref \<Rightarrow> duration) \<Rightarrow> ref list \<Rightarrow> nat" where
  "longest_index idle rs = longest_from idle (tl rs) 1 0 (idle (hd rs))"

text \<open>The outer loop: pick the longest idle one, remove it, go on.\<close>

fun pick_longest :: "(ref \<Rightarrow> duration) \<Rightarrow> nat \<Rightarrow> ref list \<Rightarrow> ref list" where
  "pick_longest idle 0 rs = []"
| "pick_longest idle (Suc n) [] = []"
| "pick_longest idle (Suc n) (r # rs) =
     (let k = longest_index idle (r # rs)
      in (r # rs) ! k # pick_longest idle n (take k (r # rs) @ drop (Suc k) (r # rs)))"

text \<open>The closing loop, with the number of connections closed without an error.\<close>

fun close_picked :: "ref list \<Rightarrow> nat \<Rightarrow> world \<Rightarrow> nat \<times> world" where
  "close_picked [] n w = (n, w)"
| "close_picked (r # rs) n w =
     (if \<not> IsInUse (heap w r) then
        (case closeConnection (Some r) (upd_conn r (UpdateHealth False (now w)) w) of
           (res, w1) \<Rightarrow> close_picked rs (if is_Ok res then Suc n else n) w1)
      else close_picked rs n w)"

definition idle_snapshot :: "(ref list \<Rightarrow> ref list) \<Rightarrow> world \<Rightarrow> ref list" where
  "idle_snapshot order w = filter (\<lambda>r. \<not> IsInUse (heap w r)) (getAllConnections order w)"

definition enforceMaxIdleConnections :: "(ref list \<Rightarrow> ref list) \<Rightarrow> world \<Rightarrow> world" where
  "enforceMaxIdleConnections order w =
     (if collector w = None then w
      else
        (let idleConns = idle_snapshot order w; idleCount = int (length idleConns)
         in if idleCount \<le> MaxIdleConnections (cfg w) then w
            else
              (let excess0 = idleCount - MaxIdleConnections (cfg w);
                   excess = (if excess0 > idleCount then idleCount else excess0);
                   toClose = pick_longest (\<lambda>r. GetIdleTime (now w) (heap w r)) (nat excess) idleConns
               in case close_picked toClose 0 w of
                    (closedCount, w1) \<Rightarrow>
                      if closedCount > 0 then
                        with_stats (IncrementCurrentIdleConnections (- of_nat closedCount)) w1
                      else w1)))"

text \<open>The two snapshots are taken separately, each in an order of its own.\<close>

definition performCleanup ::
    "(ref list \<Rightarrow> ref list) \<Rightarrow> (ref list \<Rightarrow> ref list) \<Rightarrow> world \<Rightarrow> world" where
  "performCleanup order order' w =
     enforceMaxIdleConnections order' (sweep cleanup_visit (getAllConnections order w) w)"

definition cleanupLoop ::
    "((ref list \<Rightarrow> ref list) \<times> (ref list \<Rightarrow> ref list)) loop_event list \<Rightarrow> world \<Rightarrow> bool \<times> world" where
  "cleanupLoop = manager_loop (\<lambda>(order, order'). performCleanup order order')"

subsection \<open>The visit closes what is stale\<close>

lemma should_close_iff:
  "should_close c t conn \<longleftrightarrow>
     IsExpired (MaxLifetime c) t conn \<or> IsIdleTooLong (IdleTimeout c) t conn \<or>
     (EnableHealthCheck c \<and> \<not> GetHealthStatus conn)"
  by (auto simp: should_close_def Let_def)

definition cleaned :: "ref \<Rightarrow> world \<Rightarrow> bool" where
  "cleaned r w \<longleftrightarrow>
     r \<in> registered w \<longrightarrow> IsInUse (heap w r) \<or> \<not> should_close (cfg w) (now w) (heap w r)"

lemma cleanup_visit_cases:
  obtains (left) "cleanup_visit r w = w" "IsInUse (heap w r) \<or> \<not> should_close (cfg w) (now w) (heap w r)"
  | (closed) w1 res where "\<not> IsInUse (heap w r)" "should_close (cfg w) (now w) (heap w r)"
      "light w w1" "w1 = upd_conn r (UpdateHealth False (now w)) w"
      "closeConnection (Some r) w1 = (res, cleanup_visit r w)"
proof (cases "IsInUse (heap w r) \<or> \<not> should_close (cfg w) (now w) (heap w r)")
  case True
  then show thesis by (intro left) (auto simp: cleanup_visit_def)
next
  case False
  let ?w1 = "upd_conn r (UpdateHealth False (now w)) w"
  obtain res w2 where c: "closeConnection (Some r) ?w1 = (res, w2)"
    by (cases "closeConnection (Some r) ?w1")
  with False have "cleanup_visit r w = w2"
    by (simp add: cleanup_visit_def removeFromIdlePool_def)
  with False c show thesis by (intro closed [of ?w1 res]) simp_all
qed

lemma cleanup_visit_now [simp]: "now (cleanup_visit r w) = now w"
  by (cases rule: cleanup_visit_cases [of r w]) (simp_all add: closeConnection_frame)

lemma cleanup_visit_closes:
  assumes "\<not> IsInUse (heap w r)" and "should_close (cfg w) (now w) (heap w r)"
  shows "Conn (heap (cleanup_visit r w) r) = None"
    and "closes r (trace (cleanup_visit r w)) =
      closes r (trace w) + (if Conn (heap w r) \<noteq> None then 1 else 0)"
proof -
  have "Conn (heap (cleanup_visit r w) r) = None \<and> closes r (trace (cleanup_visit r w)) =
      closes r (trace w) + (if Conn (heap w r) \<noteq> None then 1 else 0)"
  proof (cases rule: cleanup_visit_cases [of r w])
    case (closed w1 res)
    then show ?thesis by (simp add: closeConnection_frame [OF closed(5)] lightD [OF closed(3)])
  qed (use assms in simp)
  then show "Conn (heap (cleanup_visit r w) r) = None"
    and "closes r (trace (cleanup_visit r w)) =
      closes r (trace w) + (if Conn (heap w r) \<noteq> None then 1 else 0)" by simp_all
qed

lemma cleanup_visit_registered:
  assumes I: "pool_inv w" and few: "few w" and r: "r < next_ref w"
  shows "registered (cleanup_visit r w) =
    (if IsInUse (heap w r) \<or> \<not> should_close (cfg w) (now w) (heap w r) then registered w
     else registered w - {r})"
proof (cases rule: cleanup_visit_cases [of r w])
  case left
  then show ?thesis by simp
next
  case (closed w1 res)
  note L = lightD [OF closed(3)]
  have "ids_ok w1" "map_ok w1" "few w1" "r < next_ref w1"
    using light_inv [OF closed(3)] I few r pool_invD [of w1] by (simp_all add: few_def L)
  from closeConnection_registered [OF this closed(5)] closed show ?thesis by (simp add: L)
qed

interpretation clean: sweep_goal cleanup_visit IsInUse cleaned
proof
  fix w r r'
  show inv: "pool_inv (cleanup_visit r w)" if "pool_inv w" "few w" "r < next_ref w"
  proof (cases rule: cleanup_visit_cases [of r w])
    case (closed w1 res)
    note L = lightD [OF closed(3)]
    from that closeConnection_inv [OF _ _ _ closed(5)] show ?thesis
      by (simp add: light_inv [OF closed(3)] few_def L)
  qed (use that in simp)
  show "evolves w (cleanup_visit r w)" if "pool_inv w" "few w" "r < next_ref w"
  proof (cases rule: cleanup_visit_cases [of r w])
    case (closed w1 res)
    note L = lightD [OF closed(3)]
    have "pool_inv w1" using that(1) by (simp add: light_inv [OF closed(3)])
    then have "evolves w1 (cleanup_visit r w)"
      using evolves_close [OF _ _ _ _ closed(5)] that by (simp add: pool_invD few_def L)
    then show ?thesis by (rule evolves_trans [OF light_evolves [OF closed(3)]])
  qed simp
  show "next_ref (cleanup_visit r w) = next_ref w"
    by (cases rule: cleanup_visit_cases [of r w]) (simp_all add: closeConnection_frame)
  show st: "static (cleanup_visit r w) = static w"
    by (cases rule: cleanup_visit_cases [of r w]) (simp_all add: closeConnection_static)
  show other: "r' \<noteq> r \<Longrightarrow> heap (cleanup_visit r w) r' = heap w r'"
    by (cases rule: cleanup_visit_cases [of r w]) (simp_all add: closeConnection_frame)
  show "IsInUse (heap w r) \<Longrightarrow> cleanup_visit r w = w" by (simp add: cleanup_visit_def)
  show goal: "cleaned r (cleanup_visit r w)" if "pool_inv w" "few w" "r < next_ref w"
  proof (cases rule: cleanup_visit_cases [of r w])
    case left
    then show ?thesis by (simp add: cleaned_def)
  next
    case (closed w1 res)
    with cleanup_visit_registered [OF that] have "r \<notin> registered (cleanup_visit r w)" by simp
    then show ?thesis by (simp only: cleaned_def not_False_eq_True simp_thms)
  qed
  show "cleaned r' (cleanup_visit r w)" if "pool_inv w" "few w" "r < next_ref w" "cleaned r' w"
  proof (cases "r' = r")
    case True
    with goal that show ?thesis by simp
  next
    case False
    from cleanup_visit_registered [OF that(1-3)] that(4) show ?thesis
      using staticD(1) [OF st] by (auto simp: cleaned_def other [OF False] split: if_splits)
  qed
qed

subsection \<open>Picking the longest idle\<close>

lemma longest_from_spec:
  assumes "xs = ys @ rs" and "i = length ys" and "m < length ys" and "t = idle (xs ! m)"
    and "\<forall>j < length ys. idle (xs ! j) \<le> t"
  shows "longest_from idle rs i m t < length xs \<and>
    (\<forall>j < length xs. idle (xs ! j) \<le> idle (xs ! longest_from idle rs i m t))"
  using assms
proof (induction rs arbitrary: ys i m t)
  case Nil
  then show ?case by auto
next
  case (Cons r rs)
  have x: "xs ! length ys = r" using Cons.prems(1) by simp
  show ?case
  proof (cases "idle r > t")
    case True
    have "longest_from idle rs (Suc i) i (idle r) < length xs \<and>
      (\<forall>j < length xs. idle (xs ! j) \<le> idle (xs ! longest_from idle rs (Suc i) i (idle r)))"
      using Cons.prems x True by (intro Cons.IH [of "ys @ [r]"]) (fastforce simp: less_Suc_eq)+
    with True show ?thesis by simp
  next
    case False
    have "longest_from idle rs (Suc i) m t < length xs \<and>
      (\<forall>j < length xs. idle (xs ! j) \<le> idle (xs ! longest_from idle rs (Suc i) m t))"
      using Cons.prems x False by (intro Cons.IH [of "ys @ [r]"]) (auto simp: less_Suc_eq)
    with False show ?thesis by simp
  qed
qed

lemma longest_index_spec:
  assumes "rs \<noteq> []"
  shows "longest_index idle rs < length rs"
    and "\<forall>x \<in> set rs. idle x \<le> idle (rs ! longest_index idle rs)"
proof -
  from assms obtain r rs' where rs: "rs = r # rs'" by (cases rs) auto
  have "longest_from idle rs' 1 0 (idle r) < length rs \<and>
    (\<forall>j < length rs. idle (rs ! j) \<le> idle (rs ! longest_from idle rs' 1 0 (idle r)))"
    by (rule longest_from_spec [where ys = "[r]"]) (simp_all add: rs)
  then have "longest_index idle rs < length rs \<and>
    (\<forall>j < length rs. idle (rs ! j) \<le> idle (rs ! longest_index idle rs))"
    by (simp add: longest_index_def rs)
  then show "longest_index idle rs < length rs"
    and "\<forall>x \<in> set rs. idle x \<le> idle (rs ! longest_index idle rs)"
    by (simp_all add: all_set_conv_all_nth)
qed

lemma mset_remove_nth:
  "k < length rs \<Longrightarrow> mset rs = add_mset (rs ! k) (mset (take k rs @ drop (Suc k) rs))"
proof -
  assume "k < length rs"
  then have "rs = take k rs @ rs ! k # drop (Suc k) rs" by (rule id_take_nth_drop)
  then have "mset rs = mset (take k rs @ rs ! k # drop (Suc k) rs)" by simp
  then show ?thesis by simp
qed

text \<open>
  The picked and the rest make up the list; no picked one has been idle for less than one that
  is left; the picked come in the order of their idle times.
\<close>

lemma pick_longest_spec:
  "\<exists>rest. mset rs = mset (pick_longest idle n rs) + mset rest \<and>
     length (pick_longest idle n rs) = min n (length rs) \<and>
     (\<forall>x \<in> set (pick_longest idle n rs). \<forall>y \<in> set rest. idle y \<le> idle x) \<and>
     sorted_wrt (\<lambda>x y. idle y \<le> idle x) (pick_longest idle n rs)"
proof (induction n arbitrary: rs)
  case 0
  show ?case by (intro exI [of _ rs]) simp
next
  case (Suc n)
  show ?case
  proof (cases rs)
    case Nil
    then show ?thesis by simp
  next
    case (Cons r rs')
    let ?k = "longest_index idle rs"
    let ?rest = "take ?k rs @ drop (Suc ?k) rs"
    have k: "?k < length rs" "\<forall>x \<in> set rs. idle x \<le> idle (rs ! ?k)"
      using longest_index_spec [of rs idle] Cons by simp_all
    have m: "mset rs = add_mset (rs ! ?k) (mset ?rest)" by (rule mset_remove_nth [OF k(1)])
    have p: "pick_longest idle (Suc n) rs = rs ! ?k # pick_longest idle n ?rest"
      using Cons by (simp add: Let_def)
    from Suc.IH [of ?rest] obtain rest where r: "mset ?rest = mset (pick_longest idle n ?rest) + mset rest"
      "length (pick_longest idle n ?rest) = min n (length ?rest)"
      "\<forall>x \<in> set (pick_longest idle n ?rest). \<forall>y \<in> set rest. idle y \<le> idle x"
      "sorted_wrt (\<lambda>x y. idle y \<le> idle x) (pick_longest idle n ?rest)" by blast
    have sub: "set (pick_longest idle n ?rest) \<union> set rest \<subseteq> set rs"
      using m r(1) by (metis set_mset_mset set_mset_union set_mset_add_mset_insert subset_insertI)
    have len: "length ?rest = length rs - 1" using k(1) by auto
    show ?thesis unfolding p
      using m r k sub len Cons
      by (intro exI [of _ rest]) (auto simp: subset_iff)
  qed
qed

subsection \<open>Enforcing the limit\<close>

lemma close_picked_spec:
  assumes "pool_inv w" "few w" "\<forall>r \<in> set rs. r < next_ref w" "close_picked rs n w = (k, w')"
  shows "pool_inv w' \<and> next_ref w' = next_ref w \<and> static w' = static w \<and>
     registered w' = registered w - {r \<in> set rs. \<not> InUse (heap w r)} \<and>
     (\<forall>r. InUse (heap w' r) = InUse (heap w r)) \<and>
     (\<forall>r. r \<notin> set rs \<or> InUse (heap w r) \<longrightarrow> heap w' r = heap w r) \<and> now w' = now w"
  using assms
proof (induction rs arbitrary: n w)
  case Nil
  then show ?case by simp
next
  case (Cons r rs)
  show ?case
  proof (cases "InUse (heap w r)")
    case True
    with Cons.prems have "close_picked rs n w = (k, w')" by simp
    from Cons.IH [OF Cons.prems(1,2) _ this] Cons.prems(3) True show ?thesis by auto
  next
    case False
    let ?w0 = "upd_conn r (UpdateHealth False (now w)) w"
    obtain res w1 where c: "closeConnection (Some r) ?w0 = (res, w1)"
      by (cases "closeConnection (Some r) ?w0")
    have l: "light w ?w0" by simp
    note L = lightD [OF l] and f = closeConnection_frame [OF c]
    have I0: "pool_inv ?w0" "few ?w0" "r < next_ref ?w0"
      using Cons.prems light_inv [OF l] by (simp_all add: few_def)
    have I1: "pool_inv w1" by (rule closeConnection_inv [OF I0 c])
    have reg: "registered w1 = registered w - {r}"
      using closeConnection_registered [OF pool_invD(1,2) [OF I0(1)] I0(2,3) c] by simp
    have h: "InUse (heap w1 x) = InUse (heap w x)" "x \<noteq> r \<Longrightarrow> heap w1 x = heap w x" for x
      by (simp_all add: f)
    from Cons.prems(4) False c have "close_picked rs (if is_Ok res then Suc n else n) w1 = (k, w')"
      by simp
    from Cons.IH [OF I1 _ _ this] have "pool_inv w' \<and> next_ref w' = next_ref w1 \<and> static w' = static w1 \<and>
       registered w' = registered w1 - {r \<in> set rs. \<not> InUse (heap w1 r)} \<and>
       (\<forall>r. InUse (heap w' r) = InUse (heap w1 r)) \<and>
       (\<forall>r. r \<notin> set rs \<or> InUse (heap w1 r) \<longrightarrow> heap w' r = heap w1 r) \<and> now w' = now w1"
      using Cons.prems(2,3) by (simp add: few_def f)
    moreover have "static w1 = static w" using closeConnection_static [OF c] by simp
    moreover have "next_ref w1 = next_ref w" "now w1 = now w" by (simp_all add: f)
    moreover have "InUse (heap w x) \<Longrightarrow> heap w1 x = heap w x" for x using h(2) [of x] False by auto
    ultimately show ?thesis using reg h False by auto
  qed
qed

text \<open>The wrappers the pool holds that nobody uses, and what the limit leaves of them.\<close>

definition idle_set :: "world \<Rightarrow> ref set" where
  "idle_set w = {r \<in> registered w. \<not> InUse (heap w r)}"

lemma snapshot_distinct:
  assumes "pool_inv w" and "permutes_all order"
  shows "distinct (getAllConnections order w)"
proof -
  have map: "map_ok w" using assms(1) by (rule pool_invD)
  have "inj_on snd (set (connections w))"
    using map unfolding map_ok_def inj_on_def by (metis prod.collapse)
  then have "distinct (List.map snd (connections w))"
    using map by (simp add: map_ok_def distinct_map)
  then show ?thesis unfolding getAllConnections_def permutes_allD(3) [OF assms(2)] .
qed

lemma idle_snapshot_set:
  assumes "permutes_all order"
  shows "set (idle_snapshot order w) = idle_set w"
  unfolding idle_snapshot_def idle_set_def getAllConnections_def set_filter permutes_allD(1) [OF assms]
  by auto

lemma enforce_spec:
  assumes I: "pool_inv w" and few: "few w" and perm: "permutes_all order"
    and max: "0 \<le> MaxIdleConnections (cfg w)"
  defines "w' \<equiv> enforceMaxIdleConnections order w"
  shows "pool_inv w'" "next_ref w' = next_ref w" "static w' = static w"
    and "\<forall>r. InUse (heap w r) \<or> r \<in> registered w' \<longrightarrow> heap w' r = heap w r" and "now w' = now w"
    and "idle_set w' \<subseteq> idle_set w" and "registered w' = registered w - (idle_set w - idle_set w')"
    and "collector w \<noteq> None \<Longrightarrow>
      int (card (idle_set w')) = min (int (card (idle_set w))) (MaxIdleConnections (cfg w))"
    and "\<forall>x \<in> idle_set w - idle_set w'. \<forall>y \<in> idle_set w'.
      GetIdleTime (now w) (heap w y) \<le> GetIdleTime (now w) (heap w x)"
proof -
  let ?ids = "idle_snapshot order w" and ?idle = "\<lambda>r. GetIdleTime (now w) (heap w r)"
  have dist: "distinct ?ids" using snapshot_distinct [OF I perm] by (simp add: idle_snapshot_def)
  have set: "set ?ids = idle_set w" by (rule idle_snapshot_set [OF perm])
  have card: "length ?ids = card (idle_set w)" using distinct_card [OF dist] set by simp
  let ?goal = "pool_inv w' \<and> next_ref w' = next_ref w \<and> static w' = static w \<and>
    (\<forall>r. InUse (heap w r) \<or> r \<in> registered w' \<longrightarrow> heap w' r = heap w r) \<and> now w' = now w \<and>
    idle_set w' \<subseteq> idle_set w \<and>
    registered w' = registered w - (idle_set w - idle_set w') \<and>
    (collector w \<noteq> None \<longrightarrow>
      int (card (idle_set w')) = min (int (card (idle_set w))) (MaxIdleConnections (cfg w))) \<and>
    (\<forall>x \<in> idle_set w - idle_set w'. \<forall>y \<in> idle_set w'. ?idle y \<le> ?idle x)"
  have ?goal
  proof (cases "collector w = None \<or> int (card (idle_set w)) \<le> MaxIdleConnections (cfg w)")
    case True
    then have "w' = w" by (auto simp: w'_def enforceMaxIdleConnections_def Let_def card)
    with True I show ?thesis by auto
  next
    case False
    define n where "n = card (idle_set w) - nat (MaxIdleConnections (cfg w))"
    define picked where "picked = pick_longest ?idle n ?ids"
    obtain rest where rest: "mset ?ids = mset picked + mset rest" "length picked = min n (length ?ids)"
      "\<forall>x \<in> set picked. \<forall>y \<in> set rest. ?idle y \<le> ?idle x"
      using pick_longest_spec [of ?ids ?idle n] unfolding picked_def by blast
    have dpr: "distinct (picked @ rest)"
      using dist rest(1) by (metis mset_append mset_eq_imp_distinct_iff)
    have un: "set picked \<union> set rest = idle_set w" using rest(1) set by (metis set_mset_mset set_mset_union)
    have pb: "\<forall>r \<in> set picked. r < next_ref w"
    proof
      fix r
      assume "r \<in> set picked"
      with un have "r \<in> registered w" by (auto simp: idle_set_def)
      then show "r < next_ref w" using pool_invD(2) [OF I] by (auto simp: map_ok_def)
    qed
    obtain k w1 where cp: "close_picked picked 0 w = (k, w1)" by (cases "close_picked picked 0 w")
    have ex: "nat (if int (card (idle_set w)) - MaxIdleConnections (cfg w) > int (card (idle_set w))
        then int (card (idle_set w)) else int (card (idle_set w)) - MaxIdleConnections (cfg w)) = n"
      using max by (simp add: n_def)
    have w': "w' = (if k > 0 then with_stats (IncrementCurrentIdleConnections (- of_nat k)) w1 else w1)"
    proof -
      from False have c: "(collector w = None) = False"
        "(int (card (idle_set w)) \<le> MaxIdleConnections (cfg w)) = False" by simp_all
      show ?thesis
        by (simp only: w'_def enforceMaxIdleConnections_def Let_def card c if_False ex
            picked_def [symmetric] cp prod.case)
    qed
    have l: "light w1 w'" and h: "heap w' = heap w1" and r: "registered w' = registered w1"
      by (simp_all add: w')
    note S = close_picked_spec [OF I few pb cp]
    have idle': "idle_set w' = set rest"
    proof -
      have "idle_set w' = idle_set w - set picked"
        using S un by (auto simp: idle_set_def h r)
      then show ?thesis using un dpr by auto
    qed
    have "card (idle_set w') = card (idle_set w) - n"
    proof -
      have "card (idle_set w) = length picked + length rest"
        using distinct_card [OF dpr] un by simp
      moreover have "card (set rest) = length rest" using dpr by (simp add: distinct_card)
      ultimately show ?thesis using rest(2) card n_def idle' by simp
    qed
    then have cnt: "int (card (idle_set w')) = min (int (card (idle_set w))) (MaxIdleConnections (cfg w))"
      using False max unfolding n_def by linarith
    have "registered w' = registered w - (idle_set w - idle_set w')"
      using S un dpr unfolding idle' r by (auto simp: idle_set_def)
    moreover have "pool_inv w'" using S light_inv [OF l] by simp
    moreover have "next_ref w' = next_ref w" "static w' = static w"
      using S lightD(6) [OF l] light_static [OF l] by simp_all
    moreover have "\<forall>r. InUse (heap w r) \<or> r \<in> registered w' \<longrightarrow> heap w' r = heap w r"
    proof (intro allI impI)
      fix x
      assume "InUse (heap w x) \<or> x \<in> registered w'"
      then have "InUse (heap w x) \<or> x \<notin> set picked" using S un unfolding r by (auto simp: idle_set_def)
      then show "heap w' x = heap w x" using S by (auto simp: h)
    qed
    moreover have "now w' = now w" using S w' by auto
    moreover have "\<forall>x \<in> idle_set w - idle_set w'. \<forall>y \<in> idle_set w'. ?idle y \<le> ?idle x"
      using rest(3) un unfolding idle' by blast
    moreover have "idle_set w' \<subseteq> idle_set w" using un idle' by blast
    ultimately show ?thesis using cnt by (intro conjI impI) assumption+
  qed
  then show "pool_inv w'" "next_ref w' = next_ref w" "static w' = static w"
    and "\<forall>r. InUse (heap w r) \<or> r \<in> registered w' \<longrightarrow> heap w' r = heap w r" and "now w' = now w"
    and "idle_set w' \<subseteq> idle_set w" and "registered w' = registered w - (idle_set w - idle_set w')"
    and "collector w \<noteq> None \<Longrightarrow>
      int (card (idle_set w')) = min (int (card (idle_set w))) (MaxIdleConnections (cfg w))"
    and "\<forall>x \<in> idle_set w - idle_set w'. \<forall>y \<in> idle_set w'. ?idle y \<le> ?idle x"
    by blast+
qed

subsection \<open>A whole pass\<close>

lemma close_picked_keeps:
  "\<forall>r \<in> set rs. r < next_ref w \<Longrightarrow> close_picked rs n w = (k, w') \<Longrightarrow> keeps w w'"
proof (induction rs arbitrary: n w)
  case (Cons r rs)
  let ?w0 = "upd_conn r (UpdateHealth False (now w)) w"
  obtain res w1 where c: "closeConnection (Some r) ?w0 = (res, w1)"
    by (cases "closeConnection (Some r) ?w0")
  have l: "light w ?w0" by simp
  have "gives w r w" using Cons.prems(1) by (simp add: gives_def)
  then have k: "keeps w w1" by (rule keeps_close [OF gives_light [OF _ l] c])
  show ?case
  proof (cases "InUse (heap w r)")
    case True
    then show ?thesis using Cons by simp
  next
    case False
    have "keeps w1 w'" using Cons False c
      by (intro Cons.IH [of _ "if is_Ok res then Suc n else n"]) (simp_all add: closeConnection_frame [OF c])
    then show ?thesis by (rule keeps_trans [OF k])
  qed
qed simp

lemma enforce_frame:
  "next_ref (enforceMaxIdleConnections order w) = next_ref w"
  "static (enforceMaxIdleConnections order w) = static w"
proof -
  have cp: "next_ref w1 = next_ref w \<and> static w1 = static w"
    if "close_picked rs n w = (k, w1)" for rs n w k w1
    using that
  proof (induction rs arbitrary: n w)
    case (Cons r rs)
    let ?w0 = "upd_conn r (UpdateHealth False (now w)) w"
    obtain res w2 where c: "closeConnection (Some r) ?w0 = (res, w2)"
      by (cases "closeConnection (Some r) ?w0")
    show ?case
    proof (cases "InUse (heap w r)")
      case True
      then show ?thesis using Cons by simp
    next
      case False
      then have "close_picked rs (if is_Ok res then Suc n else n) w2 = (k, w1)"
        using Cons.prems c by simp
      from Cons.IH [OF this] show ?thesis
        using closeConnection_static [OF c] by (simp add: closeConnection_frame [OF c])
    qed
  qed simp
  then show "next_ref (enforceMaxIdleConnections order w) = next_ref w"
    "static (enforceMaxIdleConnections order w) = static w"
    by (auto simp: enforceMaxIdleConnections_def Let_def dest!: cp split: prod.split)
qed

lemma enforce_keeps:
  assumes perm: "permutes_all order"
  shows "keeps w (enforceMaxIdleConnections order w)"
proof -
  have inv: "keeps w (enforceMaxIdleConnections order w)" if I: "pool_inv w"
  proof (cases "collector w = None \<or> int (length (idle_snapshot order w)) \<le> MaxIdleConnections (cfg w)")
    case True
    then show ?thesis by (auto simp: enforceMaxIdleConnections_def Let_def)
  next
    case False
    define picked where "picked = (\<lambda>n. pick_longest (\<lambda>r. GetIdleTime (now w) (heap w r)) n (idle_snapshot order w))"
    have "set (picked n) \<subseteq> set (idle_snapshot order w)" for n
      using pick_longest_spec [of "idle_snapshot order w" "\<lambda>r. GetIdleTime (now w) (heap w r)" n]
      unfolding picked_def by (metis set_mset_mset set_mset_union sup_ge1)
    then have b: "\<forall>r \<in> set (picked n). r < next_ref w" for n
      using snapshot_bound(1) [OF I perm] by (auto simp: idle_snapshot_def)
    have p: "keeps w w1" if "close_picked (pick_longest (\<lambda>r. GetIdleTime (now w) (heap w r)) n
        (idle_snapshot order w)) 0 w = (k, w1)" for n k w1
      by (rule close_picked_keeps [OF b [unfolded picked_def] that])
    show ?thesis unfolding enforceMaxIdleConnections_def Let_def
      by (auto dest: p split: prod.split)
  qed
  with enforce_frame show ?thesis by (auto simp: keeps_def few_def)
qed

lemma performCleanup_keeps:
  assumes "permutes_all order" "permutes_all order'"
  shows "keeps w (performCleanup order order' w)"
  unfolding performCleanup_def
  using keeps_trans [OF clean.sweep_all_keeps [OF assms(1)] enforce_keeps [OF assms(2)]] .

text \<open>What the visits of a pass leave alone.\<close>

lemma sweep_cleanup_in_use:
  assumes "pool_inv w" and "few w" and "\<forall>r \<in> set rs. r < next_ref w"
    and "InUse (heap w r)" and "r \<in> registered w"
  shows "r \<in> registered (sweep cleanup_visit rs w)"
  using assms
proof (induction rs arbitrary: w)
  case (Cons a rs)
  have v: "pool_inv (cleanup_visit a w)" "next_ref (cleanup_visit a w) = next_ref w"
    using Cons.prems by (simp_all add: clean.visit_inv clean.visit_next_ref)
  have h: "heap (cleanup_visit a w) r = heap w r"
    using Cons.prems(4) clean.visit_other [of r a w] clean.visit_skips [of w a] by (cases "r = a") simp_all
  have "r \<in> registered (cleanup_visit a w)"
    using cleanup_visit_registered [OF Cons.prems(1,2), of a] Cons.prems(3-5)
    by (auto split: if_splits)
  then have "r \<in> registered (sweep cleanup_visit rs (cleanup_visit a w))"
    using Cons.prems(2-4) v h by (intro Cons.IH) (simp_all add: few_def)
  then show ?case by simp
qed simp

lemma sweep_cleanup_now [simp]: "now (sweep cleanup_visit rs w) = now w"
  by (induction rs arbitrary: w) simp_all

text \<open>
  C29. The selection loop of \<^verbatim>\<open>enforceMaxIdleConnections\<close>, which scans for a maximum and removes
  it again and again, computes what sorting would: the idle times of what it picks are the \<open>n\<close>
  greatest, in descending order.
\<close>

theorem pick_longest_sorts:
  "map idle (pick_longest idle n rs) = take n (rev (sort (map idle rs)))"
proof -
  let ?P = "pick_longest idle n rs"
  obtain rest where m: "mset rs = mset ?P + mset rest" and l: "length ?P = min n (length rs)"
    and ge: "\<forall>x \<in> set ?P. \<forall>y \<in> set rest. idle y \<le> idle x"
    and s: "sorted_wrt (\<lambda>x y. idle y \<le> idle x) ?P"
    using pick_longest_spec [of rs idle n] by blast
  let ?xs = "sort (map idle rest) @ rev (map idle ?P)"
  have "sorted ?xs" using s ge by (auto simp: sorted_append sorted_wrt_rev sorted_wrt_map)
  moreover have "mset ?xs = mset (map idle rs)" using m by (simp add: union_commute)
  ultimately have "sort (map idle rs) = ?xs" by (rule properties_for_sort [rotated])
  then have eq: "rev (sort (map idle rs)) = map idle ?P @ rev (sort (map idle rest))" by simp
  show ?thesis
  proof (cases "n \<le> length rs")
    case True
    then have "length (map idle ?P) = n" using l by simp
    then show ?thesis unfolding eq by simp
  next
    case False
    then have "length (map idle ?P) \<le> n" "length rest = 0"
      using l arg_cong [OF m, of size] by simp_all
    then show ?thesis unfolding eq by simp
  qed
qed

end
