(* ===== verification/Pool_Health.thy ===== *)
theory Pool_Health
  imports Pool_Sweep
begin

text \<open>
  \<^verbatim>\<open>health.go\<close>: \<^verbatim>\<open>performCheck\<close> and \<^verbatim>\<open>readProbeCheck\<close> probe one connection,
  \<^verbatim>\<open>checkConnection\<close> runs the probe in a goroutine under a time limit, and
  \<^verbatim>\<open>performHealthCheck\<close> checks all connections. Here the goroutines of a pass are taken
  one after the other, in any order; \<open>Pool_Health_Pass\<close> interleaves them.
\<close>

subsection \<open>The probes\<close>

text \<open>A read from a nil connection panics; the goroutine of the check recovers that.\<close>

definition readProbeCheck :: "duration \<Rightarrow> net_conn option \<Rightarrow> nat \<Rightarrow> check_outcome" where
  "readProbeCheck timeout conn k =
     (case conn of
        None \<Rightarrow> Panics 0
      | Some nc \<Rightarrow>
          (case read_answer nc k timeout of
             ReadErr e d \<Rightarrow>
               if e = IoEOF then Reports False d
               else if is_net_timeout e then Reports True d
               else Reports False d
           | ReadData _ d \<Rightarrow> Reports True d))"

definition udpProbeCheck :: "net_conn \<Rightarrow> nat \<Rightarrow> check_outcome" where
  "udpProbeCheck nc k =
     (case read_answer nc k (1 * Millisecond) of
        ReadErr e d \<Rightarrow>
          if is_net_timeout e then Reports True d
          else if e = IoEOF then Reports False d
          else Reports False d
      | ReadData _ d \<Rightarrow> Reports True d)"

definition performCheck :: "config \<Rightarrow> net_conn option \<Rightarrow> nat \<Rightarrow> check_outcome" where
  "performCheck c conn k =
     (case HealthChecker c of
        Some f \<Rightarrow> f conn
      | None \<Rightarrow>
          (case conn of
             Some nc \<Rightarrow>
               if is_UDPConn nc then udpProbeCheck nc k
               else readProbeCheck (HealthCheckTimeout c) conn k
           | None \<Rightarrow> readProbeCheck (HealthCheckTimeout c) conn k))"

fun check_time :: "check_outcome \<Rightarrow> nat" where
  "check_time (Reports _ d) = d"
| "check_time (Panics d) = d"

text \<open>What the goroutine sends: a panic counts as unhealthy.\<close>

fun check_verdict :: "check_outcome \<Rightarrow> bool" where
  "check_verdict (Reports b _) = b"
| "check_verdict (Panics _) = False"

subsection \<open>One check\<close>

definition check_done :: "ref \<Rightarrow> bool \<Rightarrow> world \<Rightarrow> world" where
  "check_done r healthy w =
     (let w1 = with_stats IncrementHealthCheckAttempts (upd_conn r (UpdateHealth healthy (now w)) w)
      in if healthy then w1
         else with_stats IncrementUnhealthyConnections (with_stats IncrementHealthCheckFailures w1))"

definition check_timeout :: "ref \<Rightarrow> world \<Rightarrow> world" where
  "check_timeout r w =
     with_stats IncrementHealthCheckFailures
       (with_stats IncrementHealthCheckAttempts (upd_conn r (UpdateHealth False (now w)) w))"

text \<open>
  With a verdict before the limit it is recorded; past the limit the check counts as failed, and
  the caller waits up to 100 ms more for the goroutine. At the limit either may win. When the
  limit is not positive the goroutine returns at once.
\<close>

definition checkConnection :: "ref \<Rightarrow> world \<Rightarrow> world" where
  "checkConnection r w =
     (if IsInUse (heap w r) then w
      else if HealthCheckTimeout (cfg w) \<le> 0 then check_timeout r w
      else
        (let limit = now w + HealthCheckTimeout (cfg w);
             out = performCheck (cfg w) (GetConn (heap w r)) (ext_calls w);
             t = now w + int (check_time out);
             w1 = external w
         in if t < limit then check_done r (check_verdict out) (pass_until t w1)
            else if t = limit then
              (case flip (pass_until t w1) of
                 (True, w2) \<Rightarrow> check_done r (check_verdict out) w2
               | (False, w2) \<Rightarrow> check_timeout r w2)
            else pass_until (min t (limit + 100 * Millisecond)) (check_timeout r (pass_until limit w1))))"

definition performHealthCheck :: "(ref list \<Rightarrow> ref list) \<Rightarrow> world \<Rightarrow> world" where
  "performHealthCheck order w = sweep checkConnection (getAllConnections order w) w"

definition healthCheckLoop ::
    "(ref list \<Rightarrow> ref list) loop_event list \<Rightarrow> world \<Rightarrow> bool \<times> world" where
  "healthCheckLoop = manager_loop performHealthCheck"

subsection \<open>A check is a light step\<close>

lemma check_light [simp]:
  "light w w' \<Longrightarrow> light w (check_done r b w')" "light w w' \<Longrightarrow> light w (check_timeout r w')"
  by (simp_all add: check_done_def check_timeout_def Let_def)

lemma checkConnection_light [simp]: "light w (checkConnection r w)"
  by (simp add: checkConnection_def Let_def flip_def split: bool.split)

text \<open>Only the checked wrapper changes, and of it only its health.\<close>

lemma time_heap [simp]:
  "heap (pass_until t w) = heap w" "heap (external w) = heap w"
  "cfg (pass_until t w) = cfg w" "cfg (external w) = cfg w"
  by (simp_all add: pass_until_def external_def)

lemma check_heap:
  "\<exists>b t. heap (check_done r v w) = (heap w)(r := UpdateHealth b t (heap w r))"
  "\<exists>b t. heap (check_timeout r w) = (heap w)(r := UpdateHealth b t (heap w r))"
  by (auto simp: check_done_def check_timeout_def Let_def)

lemma checkConnection_heap:
  "heap (checkConnection r w) = heap w \<or>
   (\<not> InUse (heap w r) \<and> (\<exists>b t. heap (checkConnection r w) = (heap w)(r := UpdateHealth b t (heap w r))))"
proof -
  have coins: "heap (w\<lparr>coins := n\<rparr>) = heap w" for w :: world and n by simp
  have "\<not> InUse (heap w r) \<Longrightarrow>
      \<exists>b t. heap (checkConnection r w) = (heap w)(r := UpdateHealth b t (heap w r))"
    by (auto simp: checkConnection_def Let_def flip_def check_done_def check_timeout_def
        split: bool.split)
  moreover have "InUse (heap w r) \<Longrightarrow> heap (checkConnection r w) = heap w"
    by (simp add: checkConnection_def)
  ultimately show ?thesis by blast
qed

interpretation health: sweep_task checkConnection IsInUse
proof
  fix w r r'
  note L = checkConnection_light [of w r]
  show "pool_inv w \<Longrightarrow> pool_inv (checkConnection r w)" by (simp add: light_inv [OF L])
  show "evolves w (checkConnection r w)" by (rule light_evolves [OF L])
  show "next_ref (checkConnection r w) = next_ref w" by (rule lightD(6) [OF L])
  show "static (checkConnection r w) = static w" by (rule light_static [OF L])
  show "r' \<noteq> r \<Longrightarrow> heap (checkConnection r w) r' = heap w r'"
    using checkConnection_heap [of r w] by auto
  show "IsInUse (heap w r) \<Longrightarrow> checkConnection r w = w" by (simp add: checkConnection_def)
qed

lemma sweep_health_light: "light w (sweep checkConnection rs w)"
proof (induction rs arbitrary: w)
  case (Cons r rs)
  from light_trans [OF checkConnection_light this [of "checkConnection r w"]] show ?case by simp
qed simp

lemma sweep_health_heap:
  "heap (sweep checkConnection rs w) r = heap w r \<or>
   (\<not> InUse (heap w r) \<and> (\<exists>b t. heap (sweep checkConnection rs w) r = UpdateHealth b t (heap w r)))"
proof (induction rs arbitrary: w)
  case (Cons a rs)
  have twice: "UpdateHealth b t (UpdateHealth b' t' c) = UpdateHealth b t c" for b t b' t' c
    by (simp add: UpdateHealth_def)
  from checkConnection_heap [of a w] Cons.IH [of "checkConnection a w"] show ?case
    by (cases "r = a") (fastforce simp: twice)+
qed simp

lemma check_health:
  "IsHealthy (heap (check_done r b w) r) = b" "\<not> IsHealthy (heap (check_timeout r w) r)"
  by (simp_all add: check_done_def check_timeout_def Let_def UpdateHealth_def)

end
