(* ===== verification/Pool_System.thy ===== *)
theory Pool_System
  imports Pool_Close_Facts Pool_Leak Pool_Cleanup Pool_Health
begin

text \<open>
  The pool as a whole: a step relation over its operations, in any order and with any arguments,
  interleaved with the steps of the waiting goroutines, the passes of the managers, the passing
  of time, and an application that closes a borrowed connection itself. Reachable states start
  at a pool \<^verbatim>\<open>NewPool\<close> has made. Identifiers are 64 bits wide: a history stays within \<open>few\<close>.
\<close>

inductive step :: "world \<Rightarrow> world \<Rightarrow> bool" where
  step_get: "GetWithTimeout c d w = (res, w') \<Longrightarrow> step w w'"
| step_get_protocol: "GetWithProtocol c p d w = (res, w') \<Longrightarrow> step w w'"
| step_get_version: "GetWithIPVersion c v d w = (res, w') \<Longrightarrow> step w w'"
| step_put: "r < next_ref w \<Longrightarrow> Put (Some r) w = (pres, w') \<Longrightarrow> step w w'"
| step_wait: "wait_step i choice w = Some w' \<Longrightarrow> step w w'"
| step_cleanup: "permutes_all order \<Longrightarrow> permutes_all order' \<Longrightarrow> step w (performCleanup order order' w)"
| step_leaks: "permutes_all order \<Longrightarrow> step w (detectLeaks order w)"
| step_health: "permutes_all order \<Longrightarrow> step w (performHealthCheck order w)"
| step_udp_done: "step w (udp_cleanup_done w)"
| step_time: "step w (pass_time n w)"
| step_app_close: "r < next_ref w \<Longrightarrow> close_wrapper r w = (e, w') \<Longrightarrow> step w w'"
| step_close: "permutes_all order \<Longrightarrow> Close order w = (cres, w') \<Longrightarrow> step w w'"

inductive reachable :: "config \<Rightarrow> world \<Rightarrow> bool" for c :: config where
  started: "NewPool c w0 = (Ok (), w) \<Longrightarrow> few w \<Longrightarrow> reachable c w"
| moved: "reachable c w \<Longrightarrow> step w w' \<Longrightarrow> few w' \<Longrightarrow> reachable c w'"

inductive_cases stepE: "step w w'"

subsection \<open>Every operation but \<^verbatim>\<open>Close\<close> keeps the contract\<close>

lemma app_close_keeps:
  assumes "r < next_ref w" and c: "close_wrapper r w = (e, w')"
  shows "keeps w w'"
proof -
  note f = close_wrapper_frame [OF c]
  have inv: "pool_inv w'" if I: "pool_inv w"
  proof (rule pool_invI)
    have core: "ID (heap w' x) = ID (heap w x)" "Protocol (heap w' x) = Protocol (heap w x)"
      "IPVersion (heap w' x) = IPVersion (heap w x)" "Conn (heap w' x) \<noteq> None \<Longrightarrow> Conn (heap w x) \<noteq> None"
      for x by (simp_all add: f split: if_splits)
    show "ids_ok w'" using pool_invD(1) [OF I] by (simp add: ids_ok_def core f(6,7))
    show "map_ok w'" using pool_invD(2) [OF I] by (simp add: map_ok_def core f(2,6))
    show "owned_ok w'" using pool_invD(3) [OF I] core(4) by (simp add: owned_ok_def f(2,6))
    show "closes_ok w'" using pool_invD(4) [OF I] assms(1) by (auto simp: closes_ok_def f)
    show "idle_ok w'" using pool_invD(5) [OF I] by (simp add: idle_ok_def core f(1,3,4,5,6))
    show "queues_ok w'" using pool_invD(6) [OF I] by (simp add: queues_ok_def f)
    show "waiters_ok w'" using pool_invD(7) [OF I] by (simp add: waiters_ok_def f)
    show "limit_ok w'" using pool_invD(8) [OF I] by (simp add: limit_ok_def f)
    show "books_ok w'" using pool_invD(9) [OF I]
      by (simp add: books_ok_def class_count_def core f(2,5,14))
    show "sem_ok w'" using pool_invD(10) [OF I] by (simp add: sem_ok_def f)
  qed
  moreover have "abs_pool w' = abs_pool w" by (rule abs_pool_cong) (simp_all add: f)
  ultimately show ?thesis
    using close_wrapper_typed [OF c] app_closes [OF assms(1) c]
    by (simp add: keeps_def f static_def evolves_def r_into_rtranclp)
qed

lemma detectLeaks_light: "light w (detectLeaks order w)"
  by (simp add: detectLeaks_def sweep_leak_light)

lemma performHealthCheck_light: "light w (performHealthCheck order w)"
  by (simp add: performHealthCheck_def sweep_health_light)

lemma udp_cleanup_done_light: "light w (udp_cleanup_done w)"
  by (simp add: udp_cleanup_done_def split: recv_result.split)

lemma get_keeps:
  "GetWithTimeout c d w = (res, w') \<Longrightarrow> keeps w w'"
  "GetWithProtocol c p d w = (res, w') \<Longrightarrow> keeps w w'"
  "GetWithIPVersion c v d w = (res, w') \<Longrightarrow> keeps w w'"
  using GetWithTimeout_good [of w c d] GetWithProtocol_good [of p w c d] GetWithIPVersion_good [of v w c d]
  by (simp_all add: good_get_def)

lemma step_keeps:
  assumes "step w w'" and I: "pool_inv w"
  shows "keeps w w' \<or> (\<exists>order res. permutes_all order \<and> Close order w = (res, w'))"
  using assms(1)
proof cases
  case (step_put r pres)
  then have "gives w r w" by (simp add: gives_def)
  then show ?thesis using step_put keeps_Put by blast
qed (use get_keeps wait_step_keeps performCleanup_keeps light_keeps detectLeaks_light
      performHealthCheck_light udp_cleanup_done_light app_close_keeps in \<open>fastforce+\<close>)

subsection \<open>A closed pool stays closed\<close>

lemma light_all_closed: "light w w' \<Longrightarrow> all_closed w' = all_closed w"
  by (simp add: all_closed_def lightD)

lemma closeConnection_all_closed:
  "closeConnection (Some r) w = (res, w') \<Longrightarrow> all_closed w \<Longrightarrow> all_closed w'"
  by (auto simp: all_closed_def closeConnection_frame)

lemma close_wrapper_all_closed:
  "close_wrapper r w = (e, w') \<Longrightarrow> all_closed w \<Longrightarrow> all_closed w'"
  by (auto simp: all_closed_def close_wrapper_frame)

lemma set_waiter_all_closed [simp]: "all_closed (set_waiter i wt w) = all_closed w"
  by (simp add: all_closed_def staticD [OF set_waiter_frame(3)])

lemma record_get_time_all_closed [simp]: "all_closed (record_get_time t w) = all_closed w"
  by (rule light_all_closed) simp

lemma wait_return_all_closed:
  assumes "light w (effects w)" and "all_closed w"
  shows "all_closed (wait_return i wt res effects w)"
  using assms light_all_closed [OF assms(1)] by (simp add: wait_return_def split: option.split)

lemma wait_step_all_closed:
  assumes I: "pool_inv w" and A: "all_closed w" and s: "wait_step i choice w = Some w'"
  shows "all_closed w'"
proof -
  from s obtain wt where wt: "waiters w i = Some wt" by (auto simp: wait_step_def split: option.splits)
  from plain_waiterI [OF I wt] have p: "plain_waiter w i wt" .
  have q: "chan_send i (queue (wait_queue_of (w_kind wt)) w) = SendPanic"
    using A by (simp add: all_closed_def chan_cases)
  have invalid: "\<not> isConnectionValid (Some r) (set_waiter i wt1 w)"
    if "chan_recv (w_chan wt) = Received r ch" for r ch wt1
    using plain_waiter_recv [OF p that] A
    by (simp add: isConnectionValid_def all_closed_def)
  note ret = wait_return_all_closed [OF _ A, of "\<lambda>w. w"]
    wait_return_all_closed [OF _ A, of "with_stats IncrementTimeoutGets"]
  have cc: "all_closed (snd (closeConnection (Some r) (set_waiter i wt1 w)))" for r wt1
    using closeConnection_all_closed [of r "set_waiter i wt1 w"] A
    by (cases "closeConnection (Some r) (set_waiter i wt1 w)") auto
  show ?thesis
    using s wt q A ret invalid cc
    by (auto simp: wait_step_def join_step_def wait_loop_step_def Let_def
        split: wait_phase.splits wait_choice.splits recv_result.splits if_splits)
qed

lemma get_closed:
  "pool_closed w \<Longrightarrow> GetWithTimeout c d w = (GotErr ErrPoolClosed, w)"
  "pool_closed w \<Longrightarrow> GetWithProtocol c p d w = (GotErr ErrPoolClosed, w)"
  "pool_closed w \<Longrightarrow> GetWithIPVersion c v d w = (GotErr ErrPoolClosed, w)"
  by (simp_all add: GetWithTimeout_def GetWithProtocol_def GetWithIPVersion_def isClosed_def)

lemma Put_closed: "pool_closed w \<Longrightarrow> Put (Some r) w = closeConnection (Some r) w"
  by (simp add: Put_def put_store_def isClosed_def)

lemma snapshot_empty:
  "permutes_all order \<Longrightarrow> connections w = [] \<Longrightarrow> getAllConnections order w = []"
  using permutes_allD(2) [of order "[]"] by (simp add: getAllConnections_def)

lemma performCleanup_empty:
  assumes "permutes_all order" "permutes_all order'" "connections w = []" "0 < MaxIdleConnections (cfg w)"
  shows "performCleanup order order' w = w"
  using assms by (simp add: performCleanup_def snapshot_empty enforceMaxIdleConnections_def
      idle_snapshot_def Let_def)

definition system_inv :: "world \<Rightarrow> bool" where
  "system_inv w \<longleftrightarrow>
     pool_inv w \<and> managers_ok w \<and> few w \<and> corrected (cfg w) \<and> (pool_closed w \<longrightarrow> all_closed w)"

lemma corrected_max_idle: "corrected c \<Longrightarrow> 0 < MaxIdleConnections c"
  by (simp add: corrected_def acceptable_def)

lemma step_all_closed:
  assumes S: "system_inv w" and cl: "pool_closed w" and st: "step w w'"
  shows "all_closed w'"
proof -
  from S cl have A: "all_closed w" and I: "pool_inv w" and mi: "0 < MaxIdleConnections (cfg w)"
    by (simp_all add: system_inv_def corrected_max_idle)
  from A have once: "close_once w" and none: "connections w = []" by (simp_all add: all_closed_def)
  note l = light_all_closed [THEN iffD2, OF _ A]
  from st show ?thesis
  proof cases
    case (step_put r pres)
    then show ?thesis using Put_closed [OF cl] closeConnection_all_closed A by simp
  next
    case (step_close order cres)
    then show ?thesis using Close_again [OF once] A by simp
  next
    case (step_cleanup order order')
    then show ?thesis using performCleanup_empty [OF _ _ none mi] A by simp
  qed (use get_closed [OF cl] A wait_step_all_closed [OF I A] close_wrapper_all_closed
        l detectLeaks_light performHealthCheck_light udp_cleanup_done_light in \<open>auto\<close>)
qed

lemma keeps_system:
  assumes k: "keeps w w'" and S: "system_inv w" and few: "few w'"
    and closed: "pool_closed w \<Longrightarrow> all_closed w'"
  shows "system_inv w'"
proof -
  from k have st: "static w' = static w" by (simp add: keeps_def)
  show ?thesis
    using k S few closed managers_ok_static [OF st] staticD(1,2) [OF st]
    by (simp add: system_inv_def keeps_def)
qed

lemma step_system:
  assumes S: "system_inv w" and st: "step w w'" and few: "few w'"
  shows "system_inv w'"
proof -
  from S have I: "pool_inv w" and M: "managers_ok w" by (simp_all add: system_inv_def)
  from step_keeps [OF st I] show ?thesis
  proof (elim disjE exE conjE)
    assume k: "keeps w w'"
    then show ?thesis using keeps_system [OF k S few] step_all_closed [OF S _ st] by blast
  next
    fix order res
    assume p: "permutes_all order" and c: "Close order w = (res, w')"
    show ?thesis
    proof (cases "close_once w")
      case True
      with c S show ?thesis by (simp add: Close_again)
    next
      case False
      from Close_open_pool [OF I M False p] obtain w1 res' where
        "Close order w = (res', w1)" "pool_inv w1" "managers_ok w1" "all_closed w1" "cfg w1 = cfg w"
        by metis
      with c S few show ?thesis by (auto simp: system_inv_def)
    qed
  qed
qed

lemma NewPool_cases:
  assumes "NewPool c w0 = (Ok (), w)"
  obtains c' w1 where "Validate c = (Ok (), c')" "corrected c'"
    "warmUp (fresh_pool c' w0) = (Ok (), w1)" "startBackgroundTasks w1 = (Ok (), w)"
proof -
  obtain v c' where v: "Validate c = (v, c')" by (cases "Validate c")
  from assms v have vo: "v = Ok ()" by (cases v) (auto simp: NewPool_def)
  obtain u w1 where u: "warmUp (fresh_pool c' w0) = (u, w1)" by (cases "warmUp (fresh_pool c' w0)")
  from assms v vo u have "u = Ok ()" "startBackgroundTasks w1 = (Ok (), w)"
    by (cases u; simp add: NewPool_def and_then_def)+
  with v vo u Validate_corrected [of c "()" c'] that show thesis by blast
qed

lemma NewPool_system:
  assumes n: "NewPool c w0 = (Ok (), w)" and few: "few w"
  shows "system_inv w" and "\<not> pool_closed w" and "cfg w = snd (Validate c)"
proof -
  from n show "system_inv w" and "\<not> pool_closed w" and "cfg w = snd (Validate c)"
  proof (atomize (full), cases rule: NewPool_cases)
    case (1 c' w1)
    let ?w = "fresh_pool c' w0"
    note wu = warmUp_good [OF 1(3)] and sb = startBackgroundTasks_good [OF 1(4)]
    from sb have om: "only_managers w1 w" by simp
    note omd = only_managersD [OF om]
    from few have few1: "few w1" by (simp add: few_def omd)
    with wu fresh_pool_inv [of c' w0] have I1: "pool_inv w1" and st: "static w1 = static ?w"
      by (auto simp: keeps_def)
    note sd = staticD [OF st]
    have "managers_ok w1" using managers_ok_static [OF st] fresh_managers_ok by simp
    moreover have fp: "\<not> pool_closed ?w" "\<not> close_once ?w" "cfg ?w = c'" by (simp_all add: fresh_pool_def)
    ultimately have "managers_ok w" using sb sd by simp
    moreover have "pool_inv w" using I1 only_managers_inv [OF om] by simp
    ultimately show "system_inv w \<and> \<not> pool_closed w \<and> cfg w = snd (Validate c)"
      using few 1(1,2) fp by (simp add: system_inv_def omd sd)
  qed
qed

lemma reachable_system: "reachable c w \<Longrightarrow> system_inv w"
  by (induction rule: reachable.induct) (auto intro: NewPool_system step_system)

text \<open>What the properties take from a reachable state.\<close>

lemma reachableD:
  assumes "reachable c w"
  shows "pool_inv w" "managers_ok w" "few w" "corrected (cfg w)" "pool_closed w \<Longrightarrow> all_closed w"
    "close_once w = pool_closed w"
  using reachable_system [OF assms] pool_invD(6) [of w] by (simp_all add: system_inv_def queues_ok_def)

lemma Close_open_state:
  assumes "reachable c w" and "\<not> pool_closed w" and "permutes_all order"
  shows "all_closed (snd (Close order w)) \<and>
    (\<forall>q. \<forall>i \<in> set (buf (queue q w)). waiters (snd (Close order w)) i = map_option shut (waiters w i))"
proof -
  note R = reachableD [OF assms(1)]
  have "\<not> close_once w" using R(6) assms(2) by simp
  then show ?thesis by (rule Close_open_pool [OF R(1,2) _ assms(3)]) simp
qed


subsection \<open>The system refines its specification\<close>

lemma step_evolves:
  assumes S: "system_inv w" and st: "step w w'" and few: "few w'"
  shows "evolves w w'"
proof -
  from S have I: "pool_inv w" and M: "managers_ok w" by (simp_all add: system_inv_def)
  from step_keeps [OF st I] show ?thesis
  proof (elim disjE exE conjE)
    assume "keeps w w'"
    with I few show ?thesis by (simp add: keeps_def)
  next
    fix order res
    assume p: "permutes_all order" and c: "Close order w = (res, w')"
    show ?thesis
    proof (cases "close_once w")
      case True
      with c show ?thesis by (simp add: Close_again)
    next
      case False
      from Close_open_pool [OF I M False p] c obtain e where "res = error_result e" by (metis prod.inject)
      then have "res \<noteq> Panic \<and> res \<noteq> Hang" by (simp add: error_result_def split: option.split)
      with p c have runs: "isteps (w, N) (w', N)" for N using Close_isteps by blast
      from Close_open_pool [OF I M False p] c have cl: "all_closed w'" "next_ref w' = next_ref w"
        "cfg w' = cfg w" "typed w \<Longrightarrow> typed w'"
        by (metis prod.inject)+
      then have "abs_pool w' = (abs_pool w)\<lparr>spec_open := {}, spec_shut := True\<rparr>"
        by (simp add: abs_pool_def all_closed_def)
      then show ?thesis using spec_shuts [of "abs_pool w"] cl(4) runs by (simp add: evolves_def r_into_rtranclp)
    qed
  qed
qed

text \<open>The typing holds in every reachable state.\<close>

lemma NewPool_typed:
  assumes n: "NewPool c w0 = (Ok (), w)" and few: "few w"
  shows "typed w"
  using n
proof (cases rule: NewPool_cases)
  case (1 c' w1)
  from startBackgroundTasks_good [OF 1(4)] have om: "only_managers w1 w" by simp
  note omd = only_managersD [OF om]
  have "few w1" using few by (simp add: few_def omd)
  moreover have "typed (fresh_pool c' w0)"
  proof -
    have "buf (queue q (fresh_pool c' w0)) = []" for q by (cases q) (simp_all add: fresh_pool_def make_chan_def)
    then show ?thesis by (simp add: typed_def) (simp add: fresh_pool_def)
  qed
  ultimately have "typed w1"
    using warmUp_good [OF 1(3)] fresh_pool_inv [of c' w0] by (simp add: keeps_def evolves_def)
  then show ?thesis by (rule typed_same) (simp_all add: omd)
qed

lemma reachable_typed: "reachable c w \<Longrightarrow> typed w"
proof (induction rule: reachable.induct)
  case (moved w w')
  from step_evolves [OF reachable_system [OF moved(1)] moved(2,3)] moved(4) show ?case
    by (simp add: evolves_def)
qed (rule NewPool_typed)

abbreviation runs :: "world \<Rightarrow> world \<Rightarrow> bool" where
  "runs \<equiv> (\<lambda>a b. step a b \<and> few b)\<^sup>*\<^sup>*"

lemma runs_reachable: "runs w w' \<Longrightarrow> reachable c w \<Longrightarrow> reachable c w'"
  by (induction rule: rtranclp_induct) (auto intro: moved)

lemma runs_evolves: "runs w w' \<Longrightarrow> reachable c w \<Longrightarrow> evolves w w'"
proof (induction rule: rtranclp_induct)
  case (step a b)
  have "system_inv a" by (rule reachable_system [OF runs_reachable [OF step(1,4)]])
  from step_evolves [OF this] step show ?case by (auto intro: evolves_trans)
qed simp

subsection \<open>The managers' loops are sequences of steps\<close>

lemma manager_loop_runs:
  assumes "\<And>x w. LoopTick x \<in> set evs \<Longrightarrow> step w (pass x w) \<and> next_ref (pass x w) = next_ref w"
    and "few w"
  shows "runs w (snd (manager_loop pass evs w))"
  using assms
proof (induction evs arbitrary: w)
  case (Cons e evs)
  show ?case
  proof (cases e)
    case (LoopTick x)
    with Cons.prems have s: "step w (pass x w)" "few (pass x w)" by (auto simp: few_def)
    then have "runs (pass x w) (snd (manager_loop pass evs (pass x w)))"
      using Cons.prems by (intro Cons.IH) auto
    with s LoopTick show ?thesis by (simp add: converse_rtranclp_into_rtranclp)
  qed simp
qed simp

lemma pass_next_ref:
  "next_ref (performCleanup order order' w) = next_ref w"
  "next_ref (detectLeaks order w) = next_ref w" "next_ref (performHealthCheck order w) = next_ref w"
  using lightD(6) [OF detectLeaks_light] lightD(6) [OF performHealthCheck_light]
  by (simp_all add: performCleanup_def enforce_frame clean.sweep_next_ref)

lemma loops_run:
  "\<forall>o1 o2. LoopTick (o1, o2) \<in> set evs \<longrightarrow> permutes_all o1 \<and> permutes_all o2 \<Longrightarrow> few w \<Longrightarrow>
     runs w (snd (cleanupLoop evs w))"
  "\<forall>o1. LoopTick o1 \<in> set evs' \<longrightarrow> permutes_all o1 \<Longrightarrow> few w \<Longrightarrow> runs w (snd (healthCheckLoop evs' w))"
  "\<forall>o1. LoopTick o1 \<in> set evs' \<longrightarrow> permutes_all o1 \<Longrightarrow> few w \<Longrightarrow> runs w (snd (detectionLoop evs' w))"
  unfolding cleanupLoop_def healthCheckLoop_def detectionLoop_def
  by (intro manager_loop_runs; auto simp: pass_next_ref intro: step.intros)+

end
