(* ===== verification/Pool_Threads_Inv.thy ===== *)
theory Pool_Threads_Inv
  imports Pool_Threads
begin

text \<open>
  The invariant of the interleaved operations. What the pool's bookkeeping says of the state
  between operations holds at every point, once what the goroutines under way hold or owe is
  added: an open connection is in the map or in the hands of a goroutine, and the statistics
  differ from the map by what the goroutines have yet to count.
\<close>

subsection \<open>What a goroutine holds and owes\<close>

fun refs_of :: "activity \<Rightarrow> ref list" where
  "refs_of (Clearing r) = [r]"
| "refs_of (Entering r) = [r]"
| "refs_of (Counting r) = [r]"
| "refs_of (Unlinking r) = [r]"
| "refs_of (Shutting r ex) = [r]"
| "refs_of (Uncounting r ex) = [r]"
| "refs_of (Sweeping rs) = rs"
| "refs_of (Tallying rs) = rs"
| "refs_of _ = []"

text \<open>The connections that may be open because of it.\<close>

fun carried :: "activity \<Rightarrow> ref list" where
  "carried (Clearing r) = [r]"
| "carried (Entering r) = [r]"
| "carried (Shutting r ex) = [r]"
| "carried (Sweeping rs) = rs"
| "carried (Tallying rs) = rs"
| "carried _ = []"

fun makes :: "ref \<Rightarrow> activity \<Rightarrow> bool" where
  "makes r (Clearing r') = (r = r')"
| "makes r (Entering r') = (r = r')"
| "makes r _ = False"

fun in_flight :: "activity \<Rightarrow> bool" where
  "in_flight (Dialing c) = True"
| "in_flight (Wrapping nc) = True"
| "in_flight (Clearing r) = True"
| "in_flight (Entering r) = True"
| "in_flight _ = False"

fun has_slot :: "activity \<Rightarrow> bool" where
  "has_slot (Checking c) = True"
| "has_slot (Limiting c) = True"
| "has_slot (Counting r) = True"
| "has_slot Releasing = True"
| "has_slot a = in_flight a"

text \<open>What it has yet to add to the statistics: in all, and for a class of connections.\<close>

fun owes :: "activity \<Rightarrow> int64" where
  "owes (Counting r) = 1"
| "owes (Shutting r ex) = (if ex then - 1 else 0)"
| "owes (Uncounting r ex) = (if ex then - 1 else 0)"
| "owes (Sweeping rs) = - of_nat (length rs)"
| "owes (Tallying rs) = - of_nat (Suc (length rs))"
| "owes _ = 0"

definition of_class :: "conn_class \<Rightarrow> connection \<Rightarrow> bool" where
  "of_class k c = in_class k (Protocol c) (IPVersion c)"

fun owes_class :: "conn_class \<Rightarrow> (ref \<Rightarrow> connection) \<Rightarrow> activity \<Rightarrow> int64" where
  "owes_class k h (Counting r) = (if of_class k (h r) then 1 else 0)"
| "owes_class k h (Shutting r ex) = (if ex \<and> of_class k (h r) then - 1 else 0)"
| "owes_class k h (Uncounting r ex) = (if ex \<and> of_class k (h r) then - 1 else 0)"
| "owes_class k h _ = 0"

fun past_flag :: "activity \<Rightarrow> bool" where
  "past_flag Signalling = True"
| "past_flag Stopping = True"
| "past_flag Snapshotting = True"
| "past_flag (Sweeping rs) = True"
| "past_flag (Tallying rs) = True"
| "past_flag Draining = True"
| "past_flag _ = False"

subsection \<open>The invariant\<close>

definition number :: "(activity \<Rightarrow> bool) \<Rightarrow> activity multiset \<Rightarrow> nat" where
  "number P M = size (filter_mset P M)"

lemma number_simps [simp]:
  "number P {#} = 0" "number P (add_mset a M) = (if P a then 1 else 0) + number P M"
  by (simp_all add: number_def)

lemma number_0: "number P M = 0 \<longleftrightarrow> (\<forall>a \<in># M. \<not> P a)"
  by (simp add: number_def filter_mset_eq_conv)

definition known :: "threads \<Rightarrow> bool" where
  "known z \<longleftrightarrow> (\<forall>a \<in># snd z. \<forall>r \<in> set (refs_of a). r < next_ref (fst z))"

definition made_once :: "threads \<Rightarrow> bool" where
  "made_once z \<longleftrightarrow> (\<forall>r. number (makes r) (snd z) +
     (if r \<in> registered (fst z) then 1 else 0) \<le> 1)"

definition held :: "threads \<Rightarrow> bool" where
  "held z \<longleftrightarrow> (\<forall>r < next_ref (fst z). Conn (heap (fst z) r) \<noteq> None \<longrightarrow>
     r \<in> registered (fst z) \<or> (\<exists>a \<in># snd z. r \<in> set (carried a)))"

definition slots_ok :: "threads \<Rightarrow> bool" where
  "slots_ok z \<longleftrightarrow>
     chan_cap (createSemaphore (fst z)) = 5 \<and> \<not> chan_closed (createSemaphore (fst z)) \<and>
     chan_wf (createSemaphore (fst z)) \<and>
     length (buf (createSemaphore (fst z))) = number has_slot (snd z)"

definition room_ok :: "threads \<Rightarrow> bool" where
  "room_ok z \<longleftrightarrow> (0 < MaxConnections (cfg (fst z)) \<longrightarrow>
     int (length (connections (fst z))) + int (number in_flight (snd z))
       \<le> MaxConnections (cfg (fst z)) + 4)"

definition flagged :: "threads \<Rightarrow> bool" where
  "flagged z \<longleftrightarrow> ((\<exists>a \<in># snd z. past_flag a) \<longrightarrow> pool_closed (fst z))"

definition tally_ok :: "threads \<Rightarrow> bool" where
  "tally_ok z \<longleftrightarrow> (\<forall>s. collector (fst z) = Some s \<longrightarrow>
     CurrentConnections s + sum_mset (image_mset owes (snd z)) = of_nat (length (connections (fst z))) \<and>
     TotalConnectionsCreated s - TotalConnectionsClosed s = CurrentConnections s \<and>
     (\<not> pool_closed (fst z) \<longrightarrow> (\<forall>k.
        class_counter k s + sum_mset (image_mset (owes_class k (heap (fst z))) (snd z)) =
        of_nat (class_count k (fst z)))))"

text \<open>All of it but the slots of the semaphore, and with them.\<close>

definition iinv_core :: "threads \<Rightarrow> bool" where
  "iinv_core z \<longleftrightarrow>
     ids_ok (fst z) \<and> map_ok (fst z) \<and> closes_ok (fst z) \<and>
     known z \<and> made_once z \<and> held z \<and> room_ok z \<and> flagged z \<and> tally_ok z"

definition iinv :: "threads \<Rightarrow> bool" where
  "iinv z \<longleftrightarrow> iinv_core z \<and> slots_ok z"

lemma iinvD:
  assumes "iinv z"
  shows "ids_ok (fst z)" "map_ok (fst z)" "closes_ok (fst z)" "known z" "made_once z" "held z"
    "slots_ok z" "room_ok z" "flagged z" "tally_ok z"
  using assms by (simp_all add: iinv_def iinv_core_def)

lemmas iinv_parts = known_def made_once_def held_def slots_ok_def room_ok_def flagged_def tally_ok_def

text \<open>Between operations it is the invariant of the pool.\<close>

lemma pool_inv_iinv:
  assumes "pool_inv w"
  shows "iinv (w, {#})"
  using assms by (auto simp: pool_inv_def iinv_def iinv_core_def iinv_parts owned_ok_def limit_ok_def books_ok_def
      sem_ok_def make_chan_def chan_wf_def)

subsection \<open>Steps aside\<close>

lemma asideD:
  assumes "aside w w'"
  shows "cfg w' = cfg w" "connections w' = connections w" "pool_closed w' = pool_closed w"
    "close_once w' = close_once w" "closeChan_closed w' = closeChan_closed w"
    "createSemaphore w' = createSemaphore w" "next_ref w' = next_ref w" "generator w' = generator w"
    "ID (heap w' r) = ID (heap w r)" "Conn (heap w' r) = Conn (heap w r)"
    "Protocol (heap w' r) = Protocol (heap w r)" "IPVersion (heap w' r) = IPVersion (heap w r)"
    "closes r (trace w') = closes r (trace w)"
  using assms by (simp_all add: aside_def)

lemma owes_class_labels:
  "(\<And>r. r \<in> set (refs_of a) \<Longrightarrow> of_class k (h' r) = of_class k (h r)) \<Longrightarrow> owes_class k h' a = owes_class k h a"
  by (cases a) auto

lemma class_count_of: "class_count k w = length (filter (\<lambda>p. of_class k (heap w (snd p))) (connections w))"
  by (simp add: class_count_def of_class_def case_prod_unfold)

lemma tally_cong:
  assumes "tally_ok (w, M)" and "connections w' = connections w" and "pool_closed w' = pool_closed w"
    and "books_agree (collector w') (collector w)"
    and l: "\<And>k r. r < next_ref w \<Longrightarrow> of_class k (heap w' r) = of_class k (heap w r)"
    and "known (w, M)" and "map_ok w"
  shows "tally_ok (w', M)"
proof -
  have "owes_class k (heap w') a = owes_class k (heap w) a" if "a \<in># M" for k a
    using assms(6) that by (intro owes_class_labels l) (auto simp: known_def)
  then have o: "image_mset (owes_class k (heap w')) M = image_mset (owes_class k (heap w)) M" for k
    by (intro image_mset_cong) simp
  have c: "class_count k w' = class_count k w" for k
    unfolding class_count_of assms(2) using assms(7)
    by (intro arg_cong [where f = length] filter_cong refl l) (auto simp: map_ok_def)
  show ?thesis unfolding tally_ok_def fst_conv snd_conv
  proof (intro allI impI)
    fix s' assume s': "collector w' = Some s'"
    with assms(4) obtain s where s: "collector w = Some s" and b: "same_books s' s"
      by (auto simp: books_agree_def split: option.splits)
    from assms(1) s have t: "CurrentConnections s + sum_mset (image_mset owes M) = of_nat (length (connections w)) \<and>
       TotalConnectionsCreated s - TotalConnectionsClosed s = CurrentConnections s \<and>
       (\<not> pool_closed w \<longrightarrow> (\<forall>k. class_counter k s + sum_mset (image_mset (owes_class k (heap w)) M) =
          of_nat (class_count k w)))"
      by (simp add: tally_ok_def)
    from b have e: "CurrentConnections s' = CurrentConnections s"
      "TotalConnectionsCreated s' = TotalConnectionsCreated s"
      "TotalConnectionsClosed s' = TotalConnectionsClosed s" "class_counter k s' = class_counter k s" for k
      by (simp_all add: same_books_def)
    from t show "CurrentConnections s' + sum_mset (image_mset owes M) = of_nat (length (connections w')) \<and>
       TotalConnectionsCreated s' - TotalConnectionsClosed s' = CurrentConnections s' \<and>
       (\<not> pool_closed w' \<longrightarrow> (\<forall>k. class_counter k s' + sum_mset (image_mset (owes_class k (heap w')) M) =
          of_nat (class_count k w')))"
      unfolding e o c assms(2,3) .
  qed
qed

text \<open>When the books change, the map may and the goroutines may: what remains to be checked.\<close>

lemma tally_step:
  assumes T: "tally_ok (w, M)" and c: "collector w' = map_option f (collector w)"
    and p: "\<not> pool_closed w' \<longrightarrow> \<not> pool_closed w"
    and b: "\<And>s. TotalConnectionsCreated (f s) - TotalConnectionsClosed (f s) - CurrentConnections (f s) =
      TotalConnectionsCreated s - TotalConnectionsClosed s - CurrentConnections s"
    and n: "\<And>s. CurrentConnections (f s) + sum_mset (image_mset owes M') - of_nat (length (connections w')) =
      CurrentConnections s + sum_mset (image_mset owes M) - of_nat (length (connections w))"
    and k: "\<And>s k. \<not> pool_closed w' \<Longrightarrow>
      class_counter k (f s) + sum_mset (image_mset (owes_class k (heap w')) M') - of_nat (class_count k w') =
      class_counter k s + sum_mset (image_mset (owes_class k (heap w)) M) - of_nat (class_count k w)"
  shows "tally_ok (w', M')"
  unfolding tally_ok_def fst_conv snd_conv
proof (intro allI impI)
  fix s' assume "collector w' = Some s'"
  with c obtain s where s: "collector w = Some s" "s' = f s" by (cases "collector w") auto
  with T have t: "CurrentConnections s + sum_mset (image_mset owes M) - of_nat (length (connections w)) = 0"
    "TotalConnectionsCreated s - TotalConnectionsClosed s - CurrentConnections s = 0"
    "\<not> pool_closed w \<Longrightarrow> class_counter k s + sum_mset (image_mset (owes_class k (heap w)) M) -
       of_nat (class_count k w) = 0" for k
    by (simp_all add: tally_ok_def)
  from t(1) n [of s] have "CurrentConnections s' + sum_mset (image_mset owes M') = of_nat (length (connections w'))"
    unfolding s(2) by (metis eq_iff_diff_eq_0)
  moreover from t(2) b [of s] have "TotalConnectionsCreated s' - TotalConnectionsClosed s' = CurrentConnections s'"
    unfolding s(2) by (metis eq_iff_diff_eq_0)
  moreover have "class_counter k s' + sum_mset (image_mset (owes_class k (heap w')) M') = of_nat (class_count k w')"
    if "\<not> pool_closed w'" for k
    using t(3) [of k] k [OF that, where s = s and k = k] p that unfolding s(2) by (metis eq_iff_diff_eq_0)
  ultimately show "CurrentConnections s' + sum_mset (image_mset owes M') = of_nat (length (connections w')) \<and>
      TotalConnectionsCreated s' - TotalConnectionsClosed s' = CurrentConnections s' \<and>
      (\<not> pool_closed w' \<longrightarrow> (\<forall>k. class_counter k s' +
         sum_mset (image_mset (owes_class k (heap w')) M') = of_nat (class_count k w')))"
    by blast
qed

lemma aside_iinv:
  assumes a: "aside w w'" and I: "iinv (w, M)"
  shows "iinv (w', M)"
proof -
  note A = asideD [OF a]
  have "tally_ok (w', M)"
  proof (rule tally_cong)
    show "tally_ok (w, M)" "known (w, M)" "map_ok w" using iinvD [OF I] by simp_all
    show "books_agree (collector w') (collector w)" using a by (simp add: aside_def)
  qed (simp_all add: A of_class_def)
  moreover have "ids_ok w' = ids_ok w" "map_ok w' = map_ok w" "closes_ok w' = closes_ok w"
    by (simp_all only: ids_ok_def map_ok_def closes_ok_def A)
  moreover have "known (w', M) = known (w, M)" "made_once (w', M) = made_once (w, M)"
    "held (w', M) = held (w, M)" "slots_ok (w', M) = slots_ok (w, M)" "room_ok (w', M) = room_ok (w, M)"
    "flagged (w', M) = flagged (w, M)"
    by (simp_all only: known_def made_once_def held_def slots_ok_def room_ok_def flagged_def fst_conv snd_conv A)
  ultimately show ?thesis using I by (simp add: iinv_def iinv_core_def)
qed

subsection \<open>Steps that change only the point of one goroutine\<close>

definition succeeds :: "activity \<Rightarrow> activity \<Rightarrow> bool" where
  "succeeds a a' \<longleftrightarrow>
     refs_of a' = refs_of a \<and> carried a' = carried a \<and> (\<forall>r. makes r a' = makes r a) \<and>
     has_slot a' = has_slot a \<and> owes a' = owes a \<and> (\<forall>k h. owes_class k h a' = owes_class k h a) \<and>
     (in_flight a' \<longrightarrow> in_flight a) \<and> (past_flag a' \<longrightarrow> past_flag a)"

lemma succeeds_iinv:
  assumes s: "succeeds a a'" and I: "iinv (w, add_mset a M)"
  shows "iinv (w, add_mset a' M)"
proof -
  have "known (w, add_mset a' M)" "held (w, add_mset a' M)" "made_once (w, add_mset a' M)"
    "slots_ok (w, add_mset a' M)" "tally_ok (w, add_mset a' M)"
    using iinvD [OF I] s by (simp_all add: succeeds_def known_def held_def made_once_def slots_ok_def tally_ok_def)
  moreover have "room_ok (w, add_mset a' M)" "flagged (w, add_mset a' M)"
    using iinvD(8,9) [OF I] s by (auto simp: succeeds_def room_ok_def flagged_def)
  ultimately show ?thesis using I by (simp add: iinv_def iinv_core_def)
qed

lemma succeeds_steps [simp]:
  "succeeds (Checking c) Releasing" "succeeds (Checking c) (Limiting c)" "succeeds (Limiting c) Releasing"
  "succeeds (Dialing c) (Wrapping nc)" "succeeds (Dialing c) Releasing"
  "succeeds (Clearing r) (Entering r)" "succeeds Signalling Stopping" "succeeds Stopping Snapshotting"
  "succeeds (Sweeping []) Draining"
  by (simp_all add: succeeds_def)

lemma drained_iinv: "iinv (w, add_mset Draining M) \<Longrightarrow> iinv (w, M)"
  by (simp add: iinv_def iinv_core_def iinv_parts)

subsection \<open>Creation\<close>

text \<open>The semaphore matters only for the slots.\<close>

lemma iinv_core_semaphore [simp]: "iinv_core (w\<lparr>createSemaphore := s\<rparr>, M) = iinv_core (w, M)"
proof -
  let ?w = "w\<lparr>createSemaphore := s\<rparr>"
  have "ids_ok ?w = ids_ok w" "map_ok ?w = map_ok w" "closes_ok ?w = closes_ok w"
    by (simp_all add: inv_defs)
  moreover have "known (?w, M) = known (w, M)" "made_once (?w, M) = made_once (w, M)" "held (?w, M) = held (w, M)"
    "room_ok (?w, M) = room_ok (w, M)" "flagged (?w, M) = flagged (w, M)" "tally_ok (?w, M) = tally_ok (w, M)"
    by (simp_all add: known_def made_once_def held_def room_ok_def flagged_def tally_ok_def class_count_def)
  ultimately show ?thesis by (simp add: iinv_core_def)
qed

text \<open>A goroutine that has a slot, or nothing.\<close>

definition bare :: "activity \<Rightarrow> bool" where
  "bare a \<longleftrightarrow> refs_of a = [] \<and> carried a = [] \<and> (\<forall>r. \<not> makes r a) \<and> owes a = 0 \<and>
     (\<forall>k h. owes_class k h a = 0) \<and> \<not> in_flight a"

lemma bare_core:
  "bare a \<Longrightarrow> (past_flag a \<longrightarrow> pool_closed w) \<Longrightarrow> iinv_core (w, add_mset a M) = iinv_core (w, M)"
  by (auto simp: iinv_core_def bare_def known_def made_once_def held_def room_ok_def flagged_def tally_ok_def)

lemma bare_activities [simp]:
  "bare (Checking c)" "bare Releasing" "bare Flagging" "bare Signalling" "bare Stopping" "bare Snapshotting"
  "bare Draining" "bare (Sweeping [])"
  by (simp_all add: bare_def)

lemma acquires_iinv:
  assumes I: "iinv (w, M)" and a: "create_acquire c w = (Ok u, w')"
  shows "iinv (w', add_mset (Checking c) M)"
proof -
  let ?w1 = "if ctx_done c (now w) then w\<lparr>coins := Suc (coins w)\<rparr> else w"
  have l: "light w ?w1" by simp
  from a obtain sem where s: "chan_send () (createSemaphore w) = Sent sem"
    and w': "w' = ?w1\<lparr>createSemaphore := sem\<rparr>"
    by (cases "coin w (coins w)")
      (auto simp: create_acquire_def flip_def split: send_result.splits if_splits option.splits)
  have "iinv (?w1, M)" using aside_iinv [OF light_aside [OF l] I] .
  moreover have "slots_ok (w', add_mset (Checking c) M)"
    using iinvD(7) [OF I] s by (auto simp: slots_ok_def w' chan_cases chan_wf_def)
  ultimately show ?thesis by (simp add: iinv_def w' bare_core)
qed

lemma releases_iinv:
  assumes I: "iinv (w, add_mset Releasing M)"
  shows "iinv (create_release w, M)"
proof -
  have s: "slots_ok (w, add_mset Releasing M)" by (rule iinvD [OF I])
  then obtain x xs where b: "buf (createSemaphore w) = x # xs"
    by (cases "buf (createSemaphore w)") (auto simp: slots_ok_def)
  then have r: "create_release w = w\<lparr>createSemaphore := (createSemaphore w)\<lparr>buf := xs\<rparr>\<rparr>"
    by (simp add: create_release_def chan_recv_def)
  have "slots_ok (create_release w, M)" using s b by (simp add: slots_ok_def r chan_wf_def)
  then show ?thesis using I by (simp add: iinv_def r bare_core)
qed

lemma number_mono: "(\<And>a. P a \<Longrightarrow> Q a) \<Longrightarrow> number P M \<le> number Q M"
  by (induction M) auto

lemma in_flight_slot: "in_flight a \<Longrightarrow> has_slot a"
  by (cases a) simp_all

lemma passes_iinv:
  assumes I: "iinv (w, add_mset (Limiting c) M)" and room: "has_room w"
  shows "iinv (w, add_mset (Dialing c) M)"
proof -
  have "number in_flight (add_mset (Dialing c) M) \<le> number has_slot (add_mset (Dialing c) M)"
    by (rule number_mono) (rule in_flight_slot)
  moreover have "number has_slot (add_mset (Dialing c) M) \<le> 5"
    using iinvD(7) [OF I] by (auto simp: slots_ok_def chan_wf_def)
  ultimately have "room_ok (w, add_mset (Dialing c) M)"
    using room by (auto simp: room_ok_def has_room_def)
  moreover have "slots_ok (w, add_mset (Dialing c) M)" using iinvD(7) [OF I] by (simp add: slots_ok_def)
  ultimately show ?thesis
    using I by (simp add: iinv_def iinv_core_def known_def made_once_def held_def flagged_def tally_ok_def)
qed

lemma wraps_iinv:
  assumes I: "iinv (w, add_mset (Wrapping nc) M)" and a: "allocate nc w = (r, w')"
  shows "iinv (w', add_mset (Clearing r) M)"
proof -
  let ?c = "NewConnection (generator w) (now w) nc (map_option (createCloseFunc (cfg w)) nc)"
  from a have r: "r = next_ref w" and w': "w' = w\<lparr>heap := (heap w)(r := ?c),
      next_ref := Suc r, generator := generator w + 1\<rparr>"
    by (auto simp: allocate_def Let_def)
  note D = iinvD [OF I]
  have ids: "ids_ok w'"
    using D(1) by (auto simp: ids_ok_def w' r less_Suc_eq NewConnection_def algebra_simps)
  have map: "map_ok w'" using D(2) by (auto simp: map_ok_def w' r intro: less_SucI)
  have cl: "closes_ok w'" using D(3) by (auto simp: closes_ok_def w' r)
  have k: "known (w, M)" using D(4) by (simp add: known_def)
  then have k': "known (w', add_mset (Clearing r) M)" by (auto simp: known_def w' r intro: less_SucI)
  have "r \<notin> registered w" using D(2) by (fastforce simp: map_ok_def r)
  moreover have "number (makes r) M = 0"
    using k unfolding number_0 by (auto simp: known_def r elim!: makes.elims)
  ultimately have m: "made_once (w', add_mset (Clearing r) M)"
    unfolding made_once_def
  proof (intro allI)
    fix r' show "number (makes r') (snd (w', add_mset (Clearing r) M)) +
        (if r' \<in> registered (fst (w', add_mset (Clearing r) M)) then 1 else 0) \<le> 1"
      using spec [OF D(5) [unfolded made_once_def], of r'] \<open>r \<notin> registered w\<close> \<open>number (makes r) M = 0\<close>
      by (cases "r' = r") (auto simp: w' split: if_splits)
  qed
  have h: "held (w', add_mset (Clearing r) M)"
    using D(6) by (auto simp: held_def w' r less_Suc_eq)
  have "tally_ok (w', M)"
  proof (rule tally_cong)
    show "tally_ok (w, M)" using D(10) by (simp add: tally_ok_def)
    show "known (w, M)" "map_ok w" using k D(2) by simp_all
  qed (simp_all add: w' r)
  then have t: "tally_ok (w', add_mset (Clearing r) M)" by (simp add: tally_ok_def)
  have "room_ok (w', add_mset (Clearing r) M)" "flagged (w', add_mset (Clearing r) M)"
    "slots_ok (w', add_mset (Clearing r) M)"
    using D(7,8,9) by (simp_all add: room_ok_def flagged_def slots_ok_def w')
  with ids map cl k' m h t show ?thesis by (simp add: iinv_def iinv_core_def)
qed

lemma enters_iinv:
  assumes I: "iinv (w, add_mset (Entering r) M)" and few: "few w"
  shows "iinv (enter r w, add_mset (Counting r) M)"
proof -
  note D = iinvD [OF I, unfolded fst_conv]
  have r: "r < next_ref w" using D(4) by (simp add: known_def)
  have new: "r \<notin> registered w" using spec [OF D(5) [unfolded made_once_def], of r] by (simp split: if_splits)
  then have "map_of (connections w) (ID (heap w r)) = None"
    using map_of_ID [OF D(1,2) few r] by simp
  then have fresh: "ID (heap w r) \<notin> fst ` set (connections w)" by (simp add: map_of_eq_None_iff)
  then have w': "enter r w = w\<lparr>connections := connections w @ [(ID (heap w r), r)]\<rparr>"
    by (simp add: enter_def set_update_new)
  have "ids_ok (enter r w)" "closes_ok (enter r w)" using D(1,3) by (simp_all add: ids_ok_def closes_ok_def w')
  moreover have "map_ok (enter r w)" using D(2) fresh r by (auto simp: map_ok_def w')
  moreover have "known (enter r w, add_mset (Counting r) M)" using D(4) by (simp add: known_def w')
  moreover have "made_once (enter r w, add_mset (Counting r) M)"
    unfolding made_once_def
  proof
    fix r' show "number (makes r') (snd (enter r w, add_mset (Counting r) M)) +
        (if r' \<in> registered (fst (enter r w, add_mset (Counting r) M)) then 1 else 0) \<le> 1"
      using spec [OF D(5) [unfolded made_once_def], of r'] new by (cases "r' = r") (auto simp: w' split: if_splits)
  qed
  moreover have "held (enter r w, add_mset (Counting r) M)" using D(6) by (auto simp: held_def w')
  moreover have "room_ok (enter r w, add_mset (Counting r) M)" "flagged (enter r w, add_mset (Counting r) M)"
    "slots_ok (enter r w, add_mset (Counting r) M)"
    using D(7,8,9) by (auto simp: room_ok_def flagged_def slots_ok_def w')
  moreover have "class_count k (enter r w) = class_count k w + (if of_class k (heap w r) then 1 else 0)" for k
    by (simp add: class_count_of w')
  then have "tally_ok (enter r w, add_mset (Counting r) M)"
    using D(10) by (auto simp: tally_ok_def w' algebra_simps)
  ultimately show ?thesis by (simp add: iinv_def iinv_core_def)
qed

lemma counts_iinv:
  assumes I: "iinv (w, add_mset (Counting r) M)"
  shows "iinv (count_new r w, add_mset Releasing M)"
proof -
  note D = iinvD [OF I, unfolded fst_conv]
  let ?w = "count_new r w"
  have f: "connections ?w = connections w" "heap ?w = heap w" "next_ref ?w = next_ref w"
    "generator ?w = generator w" "trace ?w = trace w" "cfg ?w = cfg w" "pool_closed ?w = pool_closed w"
    "createSemaphore ?w = createSemaphore w" by (simp_all add: count_new_def)
  have "tally_ok (?w, add_mset Releasing M)"
    by (rule tally_step [OF D(10), where
          f = "count_live 1 (heap w r) (now w) \<circ> IncrementTotalConnectionsCreated (now w)"])
      (simp_all add: f class_count_of count_live_books created_books of_class_def,
        simp_all add: count_new_def option.map_comp)
  moreover have "ids_ok ?w = ids_ok w" "map_ok ?w = map_ok w" "closes_ok ?w = closes_ok w"
    by (simp_all only: ids_ok_def map_ok_def closes_ok_def f)
  moreover have "known (?w, add_mset Releasing M)" "made_once (?w, add_mset Releasing M)"
    "held (?w, add_mset Releasing M)" "room_ok (?w, add_mset Releasing M)" "flagged (?w, add_mset Releasing M)"
    "slots_ok (?w, add_mset Releasing M)"
    using D(4-9) by (simp_all add: known_def made_once_def held_def room_ok_def flagged_def slots_ok_def f)
  ultimately show ?thesis using D(1-3) by (simp add: iinv_def iinv_core_def)
qed

subsection \<open>Closing a connection\<close>

text \<open>A change of \<^verbatim>\<open>closeOnce\<close> or \<^verbatim>\<open>closeChan\<close> does not matter.\<close>

lemma iinv_flags [simp]:
  "iinv (w\<lparr>close_once := b\<rparr>, M) = iinv (w, M)" "iinv (w\<lparr>closeChan_closed := b\<rparr>, M) = iinv (w, M)"
  by (simp_all add: iinv_def iinv_core_def known_def made_once_def held_def room_ok_def flagged_def
      tally_ok_def slots_ok_def class_count_def ids_ok_def map_ok_def closes_ok_def)

lemma marks_iinv:
  assumes I: "iinv (w, M)" and r: "r < next_ref w"
  shows "iinv (mark_closing r w, add_mset (Unlinking r) M)"
proof -
  have l: "light w (mark_closing r w)" by (simp add: mark_closing_def)
  have "iinv (mark_closing r w, M)" by (rule aside_iinv [OF light_aside [OF l] I])
  then show ?thesis using r
    by (simp add: iinv_def iinv_core_def known_def made_once_def held_def room_ok_def flagged_def
        tally_ok_def slots_ok_def lightD(6) [OF l])
qed

lemma unlinks_iinv:
  assumes I: "iinv (w, add_mset (Unlinking r) M)" and few: "few w" and u: "unlink r w = (ex, w')"
  shows "iinv (w', add_mset (Shutting r ex) M)"
proof -
  note D = iinvD [OF I, unfolded fst_conv]
  have r: "r < next_ref w" using D(4) by (simp add: known_def)
  note m = map_of_ID [OF D(1,2) few r]
  show ?thesis
  proof (cases "r \<in> registered w")
    case False
    with u m have "ex = False" "w' = w" by (auto simp: unlink_def Let_def)
    then show ?thesis using I
      by (simp add: iinv_def iinv_core_def known_def made_once_def room_ok_def flagged_def tally_ok_def slots_ok_def)
        (auto simp: held_def)
  next
    case True
    let ?del = "AList.delete (ID (heap w r)) (connections w)"
    from True u m have ex: "ex = True" and w': "w' = w\<lparr>connections := ?del\<rparr>"
      by (auto simp: unlink_def Let_def)
    have reg: "registered w' = registered w - {r}"
      using registered_delete [OF D(1,2) few r] by (simp add: w')
    from m True have k: "(ID (heap w r), r) \<in> set (connections w)" by (auto dest: map_of_SomeD)
    have d: "distinct (map fst (connections w))" using D(2) by (simp add: map_ok_def)
    have len: "length (connections w) = Suc (length ?del)"
      using length_filter_delete [OF d k, of "\<lambda>_. True"] by simp
    have cc: "class_count k w = class_count k w' + (if of_class k (heap w r) then 1 else 0)" for k
      using length_filter_delete [OF d k, of "\<lambda>p. of_class k (heap w (snd p))"]
      by (simp add: class_count_of w')
    have "ids_ok w'" "closes_ok w'" using D(1,3) by (simp_all add: ids_ok_def closes_ok_def w')
    moreover have "map_ok w'" using D(2) by (auto simp: map_ok_def w' AList.delete_eq distinct_map_filter)
    moreover have "known (w', add_mset (Shutting r ex) M)" using D(4) by (simp add: known_def w')
    moreover have "made_once (w', add_mset (Shutting r ex) M)"
      unfolding made_once_def
    proof
      fix x show "number (makes x) (snd (w', add_mset (Shutting r ex) M)) +
          (if x \<in> registered (fst (w', add_mset (Shutting r ex) M)) then 1 else 0) \<le> 1"
        using spec [OF D(5) [unfolded made_once_def], of x] by (auto simp: reg split: if_splits)
    qed
    moreover have "held (w', add_mset (Shutting r ex) M)"
      using D(6) unfolding held_def fst_conv snd_conv reg by (auto simp: w')
    moreover have "room_ok (w', add_mset (Shutting r ex) M)" "flagged (w', add_mset (Shutting r ex) M)"
      "slots_ok (w', add_mset (Shutting r ex) M)"
      using D(7,8,9) len by (auto simp: room_ok_def flagged_def slots_ok_def w')
    moreover have "tally_ok (w', add_mset (Shutting r ex) M)"
      by (rule tally_step [OF D(10), where f = "\<lambda>s. s"])
        (simp_all add: cc ex, simp_all add: w' len option.map_ident)
    ultimately show ?thesis by (simp add: iinv_def iinv_core_def)
  qed
qed

lemma close_wrapper_iinv:
  assumes I: "iinv (w, M)" and r: "r < next_ref w" and c: "close_wrapper r w = (e, w')"
  shows "iinv (w', M)" "Conn (heap w' r) = None"
proof -
  note D = iinvD [OF I, unfolded fst_conv] and f = close_wrapper_frame [OF c]
  have core: "ID (heap w' x) = ID (heap w x)" "Protocol (heap w' x) = Protocol (heap w x)"
    "IPVersion (heap w' x) = IPVersion (heap w x)" "Conn (heap w' x) \<noteq> None \<Longrightarrow> Conn (heap w x) \<noteq> None"
    for x by (simp_all add: f split: if_splits)
  show "Conn (heap w' r) = None" by (simp add: f)
  have "ids_ok w' = ids_ok w" "map_ok w' = map_ok w"
    by (simp_all only: ids_ok_def map_ok_def core f(2,6,7))
  moreover have "closes_ok w'" using D(3) r by (auto simp: closes_ok_def f)
  moreover have "known (w', M) = known (w, M)" "made_once (w', M) = made_once (w, M)"
    "slots_ok (w', M) = slots_ok (w, M)" "room_ok (w', M) = room_ok (w, M)" "flagged (w', M) = flagged (w, M)"
    by (simp_all only: known_def made_once_def slots_ok_def room_ok_def flagged_def fst_conv snd_conv f)
  moreover have "held (w', M)" using D(6) core(4) by (simp add: held_def f(2,6))
  moreover have "tally_ok (w', M)"
  proof (rule tally_cong)
    show "tally_ok (w, M)" "known (w, M)" "map_ok w" using D by simp_all
  qed (simp_all add: f(2,5,14) core of_class_def)
  ultimately show "iinv (w', M)" using D by (simp add: iinv_def iinv_core_def)
qed

lemma shuts_iinv:
  assumes I: "iinv (w, add_mset (Shutting r ex) M)" and c: "close_wrapper r w = (e, w')"
  shows "iinv (w', add_mset (Uncounting r ex) M)"
proof -
  have r: "r < next_ref w" using iinvD(4) [OF I] by (simp add: known_def)
  note D = iinvD [OF close_wrapper_iinv(1) [OF I r c], unfolded fst_conv]
  have "held (w', add_mset (Uncounting r ex) M)"
    using D(6) close_wrapper_iinv(2) [OF I r c] by (auto simp: held_def)
  with D show ?thesis
    by (simp add: iinv_def iinv_core_def known_def made_once_def room_ok_def flagged_def tally_ok_def slots_ok_def)
qed

lemma uncounts_iinv:
  assumes I: "iinv (w, add_mset (Uncounting r ex) M)"
  shows "iinv (uncount r ex w, M)"
proof -
  note D = iinvD [OF I, unfolded fst_conv]
  let ?w = "uncount r ex w"
  have f: "connections ?w = connections w" "heap ?w = heap w" "next_ref ?w = next_ref w"
    "generator ?w = generator w" "trace ?w = trace w" "cfg ?w = cfg w" "pool_closed ?w = pool_closed w"
    "createSemaphore ?w = createSemaphore w" by (simp_all add: uncount_def)
  have "tally_ok (?w, M)"
  proof (cases ex)
    case True
    show ?thesis
      by (rule tally_step [OF D(10), where
            f = "count_live (- 1) (heap w r) (now w) \<circ> IncrementTotalConnectionsClosed (now w)"])
        (simp_all add: f class_count_of count_live_books created_books of_class_def True,
          simp_all add: uncount_def option.map_comp True)
  qed (use D(10) in \<open>simp add: tally_ok_def uncount_def\<close>)
  moreover have "ids_ok ?w = ids_ok w" "map_ok ?w = map_ok w" "closes_ok ?w = closes_ok w"
    by (simp_all only: ids_ok_def map_ok_def closes_ok_def f)
  moreover have "known (?w, M)" "made_once (?w, M)" "held (?w, M)" "room_ok (?w, M)" "flagged (?w, M)"
    "slots_ok (?w, M)"
    using D(4-9) by (simp_all add: known_def made_once_def held_def room_ok_def flagged_def slots_ok_def f)
  ultimately show ?thesis using D(1-3) by (simp add: iinv_def iinv_core_def)
qed

subsection \<open>Closing the pool\<close>

lemma flags_iinv:
  assumes I: "iinv (w, add_mset Flagging M)"
  shows "iinv (w\<lparr>pool_closed := True\<rparr>, add_mset Signalling M)"
proof -
  let ?w = "w\<lparr>pool_closed := True\<rparr>" and ?M = "add_mset Signalling M"
  note D = iinvD [OF I, unfolded fst_conv]
  have "ids_ok ?w = ids_ok w" "map_ok ?w = map_ok w" "closes_ok ?w = closes_ok w"
    by (simp_all add: ids_ok_def map_ok_def closes_ok_def)
  moreover have "known (?w, ?M)" "made_once (?w, ?M)" "held (?w, ?M)" "room_ok (?w, ?M)" "flagged (?w, ?M)"
    "slots_ok (?w, ?M)" "tally_ok (?w, ?M)"
    using D(4-10) by (simp_all add: known_def made_once_def held_def room_ok_def flagged_def slots_ok_def tally_ok_def)
  ultimately show ?thesis using D(1-3) by (simp add: iinv_def iinv_core_def)
qed

lemma getAllConnections_registered:
  assumes "permutes_all order"
  shows "set (getAllConnections order w) = registered w"
    and "length (getAllConnections order w) = length (connections w)"
  using permutes_allD(1,2) [OF assms, of "map snd (connections w)"] by (simp_all add: getAllConnections_def)

lemma snapshots_iinv:
  assumes I: "iinv (w, add_mset Snapshotting M)" and o: "permutes_all order"
  shows "iinv (w\<lparr>connections := []\<rparr>, add_mset (Sweeping (getAllConnections order w)) M)"
proof -
  note D = iinvD [OF I, unfolded fst_conv] and g = getAllConnections_registered [OF o, of w]
  let ?w = "w\<lparr>connections := []\<rparr>" and ?M = "add_mset (Sweeping (getAllConnections order w)) M"
  have closed: "pool_closed w" using D(9) by (simp add: flagged_def)
  have "registered w \<subseteq> {..<next_ref w}" using D(2) by (auto simp: map_ok_def)
  then have "known (?w, ?M)" using D(4) g(1) by (auto simp: known_def)
  moreover have "made_once (?w, ?M)" unfolding made_once_def
  proof
    fix x show "number (makes x) (snd (?w, ?M)) + (if x \<in> registered (fst (?w, ?M)) then 1 else 0) \<le> 1"
      using spec [OF D(5) [unfolded made_once_def], of x] by (simp split: if_splits)
  qed
  moreover have "held (?w, ?M)" using D(6) by (auto simp: held_def g(1))
  moreover have "room_ok (?w, ?M)" "flagged (?w, ?M)" "slots_ok (?w, ?M)"
    using D(7,8) closed by (auto simp: room_ok_def flagged_def slots_ok_def)
  moreover have "tally_ok (?w, ?M)"
    by (rule tally_step [OF D(10), where f = "\<lambda>s. s"]) (simp_all add: g(2) closed option.map_ident)
  ultimately show ?thesis
    using D(1,3) by (simp add: iinv_def iinv_core_def ids_ok_def map_ok_def closes_ok_def)
qed

lemma sweeps_iinv:
  assumes I: "iinv (w, add_mset (Sweeping (r # rs)) M)" and c: "close_wrapper r w = (e, w')"
  shows "iinv (w', add_mset (Tallying rs) M)"
proof -
  have r: "r < next_ref w" using iinvD(4) [OF I] by (simp add: known_def)
  note D = iinvD [OF close_wrapper_iinv(1) [OF I r c], unfolded fst_conv]
  have "held (w', add_mset (Tallying rs) M)"
    using D(6) close_wrapper_iinv(2) [OF I r c] by (auto simp: held_def)
  with D show ?thesis
    by (simp add: iinv_def iinv_core_def known_def made_once_def room_ok_def flagged_def tally_ok_def slots_ok_def)
qed

lemma tallies_iinv:
  assumes I: "iinv (w, add_mset (Tallying rs) M)"
  shows "iinv (with_stats IncrementTotalConnectionsClosed w, add_mset (Sweeping rs) M)"
proof -
  note D = iinvD [OF I, unfolded fst_conv]
  let ?w = "with_stats IncrementTotalConnectionsClosed w" and ?M = "add_mset (Sweeping rs) M"
  have closed: "pool_closed w" using D(9) by (simp add: flagged_def)
  have "tally_ok (?w, ?M)"
    by (rule tally_step [OF D(10), where f = "IncrementTotalConnectionsClosed (now w)"])
      (simp_all add: created_books closed)
  moreover have "ids_ok ?w = ids_ok w" "map_ok ?w = map_ok w" "closes_ok ?w = closes_ok w"
    by (simp_all add: ids_ok_def map_ok_def closes_ok_def)
  moreover have "known (?w, ?M)" "made_once (?w, ?M)" "held (?w, ?M)" "room_ok (?w, ?M)" "flagged (?w, ?M)"
    "slots_ok (?w, ?M)"
    using D(4-9) by (simp_all add: known_def made_once_def held_def room_ok_def flagged_def slots_ok_def)
  ultimately show ?thesis using D(1-3) by (simp add: iinv_def iinv_core_def)
qed

definition asides :: "(world \<Rightarrow> unit result \<times> world) \<Rightarrow> bool" where
  "asides f \<longleftrightarrow> (\<forall>w u w'. f w = (Ok u, w') \<longrightarrow> aside w w')"

lemma asides_and_then: "asides f \<Longrightarrow> asides g \<Longrightarrow> asides (and_then f g)"
  unfolding asides_def and_then_Ok by (blast intro: aside_trans)

lemma close_managers_aside: "asides close_managers"
  unfolding close_managers_def
  by (intro asides_and_then) (auto simp: asides_def on_manager_def aside_def split: go_result.splits)

lemma close_waiter_only_queues: "only_queues w w' \<Longrightarrow> only_queues w (close_waiter i w')"
  by (auto simp: close_waiter_def only_queues_waiters split: option.split)

lemma closeWaitQueue_only_queues:
  assumes "closeWaitQueue q w = Some w'"
  shows "only_queues w w'"
proof (rule closeWaitQueue.raw_induct [where P = "\<lambda>q w w'. only_queues w w'", OF _ assms])
  fix f q w w'
  assume IH: "\<And>q w w'. f q w = Some w' \<Longrightarrow> only_queues w w'"
    and eq: "(case chan_recv (queue q w) of Received i q' \<Rightarrow> f q (close_waiter i (set_queue q q' w))
        | RecvZero \<Rightarrow> f q w
        | RecvBlocked \<Rightarrow> Some (case chan_close (queue q w) of None \<Rightarrow> w | Some q' \<Rightarrow> set_queue q q' w)) = Some w'"
  have start: "only_queues w (close_waiter i (set_queue q c w))" for i c
    by (intro close_waiter_only_queues only_queues_set_queue only_queues_refl)
  from eq show "only_queues w w'"
    by (auto split: recv_result.splits option.splits dest!: IH intro: only_queues_trans [OF start]
        only_queues_set_queue)
qed

lemma close_channels_aside: "asides close_channels"
proof -
  have "asides (close_queue_step q)" for q
    by (auto simp: asides_def close_queue_step_def split: option.splits
        dest!: closeWaitQueue_only_queues only_queues_aside)
  moreover have "asides (close_idle_step p)" for p
    by (auto simp: asides_def close_idle_step_def set_idle_def aside_def split: option.splits if_splits)
  ultimately show ?thesis unfolding close_channels_def by (intro asides_and_then)
qed

subsection \<open>Every step\<close>

lemma pieces_next_ref [simp]:
  "next_ref (clear_if_udp r w) = next_ref w" "next_ref (enter r w) = next_ref w"
  "next_ref (count_new r w) = next_ref w" "next_ref (create_release w) = next_ref w"
  "next_ref (mark_closing r w) = next_ref w" "next_ref (uncount r ex w) = next_ref w"
  using lightD(6) [OF iffD2 [OF light_clear_if_udp light_refl], of r w]
  by (simp_all add: enter_def count_new_def mark_closing_def uncount_def create_release_def split: recv_result.split)

lemma istep_next_ref:
  assumes "istep z z'"
  shows "next_ref (fst z) \<le> next_ref (fst z')"
  using assms
proof cases
  case (acquires c w u w' M)
  then show ?thesis
    by (auto simp: create_acquire_def flip_def split: send_result.splits if_splits option.splits bool.splits)
next
  case (dials c w nc w' M)
  then show ?thesis using lightD(6) [OF create_dial_light] by fastforce
next
  case (dial_fails c w res w' M)
  then show ?thesis using lightD(6) [OF create_dial_light] by fastforce
next
  case (stops w u w' M)
  then show ?thesis using close_managers_aside asideD(7) by (fastforce simp: asides_def)
next
  case (drains w u w' M)
  then show ?thesis using close_channels_aside asideD(7) by (fastforce simp: asides_def)
qed (auto simp: asideD(7) close_wrapper_frame(6) allocate_def unlink_def close_signal_def Let_def split: if_splits)

lemma istep_iinv:
  assumes s: "istep z z'" and few: "few (fst z')" and I: "iinv z"
  shows "iinv z'"
proof -
  have fw: "few (fst z)" using few istep_next_ref [OF s] by (simp add: few_def)
  note go = succeeds_iinv and al = aside_iinv [OF light_aside]
  from s show ?thesis
  proof cases
    case (elsewhere w w' M)
    with I show ?thesis by (simp add: aside_iinv)
  next
    case (app_closes r w e w' M)
    with I show ?thesis by (simp add: close_wrapper_iinv(1))
  next
    case (looks w c M)
    with I go [of "Checking c" "Limiting c" w M] show ?thesis by simp
  next
    case (finds_closed w c M)
    with I go [of "Checking c" Releasing w M] show ?thesis by simp
  next
    case (finds_full w c M)
    with I go [of "Limiting c" Releasing w M] show ?thesis by simp
  next
    case (dials c w nc w' M)
    with I go [of "Dialing c" "Wrapping nc" w' M] al [OF create_dial_light] show ?thesis by simp
  next
    case (dial_fails c w res w' M)
    with I go [of "Dialing c" Releasing w' M] al [OF create_dial_light] show ?thesis by simp
  next
    case (clears w r M)
    with I go [of "Clearing r" "Entering r" "clear_if_udp r w" M]
      al [OF iffD2 [OF light_clear_if_udp light_refl]] show ?thesis by simp
  next
    case (begins_close w M)
    then have "iinv (w\<lparr>close_once := True\<rparr>, M)" using I by simp
    then show ?thesis by (simp add: begins_close iinv_def bare_core slots_ok_def)
  next
    case (signals w u w' M)
    with I go [of Signalling Stopping w M] show ?thesis by (auto simp: close_signal_def split: if_splits)
  next
    case (stops w u w' M)
    then have "aside w w'" using close_managers_aside by (simp add: asides_def)
    from stops I go [of Stopping Snapshotting w' M] aside_iinv [OF this] show ?thesis by simp
  next
    case (swept w M)
    with I go [of "Sweeping []" Draining w M] show ?thesis by simp
  next
    case (drains w u w' M)
    then have "aside w w'" using close_channels_aside by (simp add: asides_def)
    from drains I drained_iinv [of w M] aside_iinv [OF this] show ?thesis by simp
  qed (use I fw in \<open>simp_all add: acquires_iinv passes_iinv wraps_iinv enters_iinv counts_iinv releases_iinv
     marks_iinv unlinks_iinv shuts_iinv uncounts_iinv flags_iinv snapshots_iinv sweeps_iinv tallies_iinv\<close>)
qed

end
