(* ===== verification/Pool_Concurrent.thy ===== *)
theory Pool_Concurrent
  imports Pool_System Pool_Threads_Inv
begin

text \<open>
  The pool with its operations interleaved lock by lock: the states a new pool can come to under
  the steps of \<open>Pool_Threads\<close>. They include the states \<open>Pool_System\<close> reaches with whole
  operations, which are runs of single goroutines.
\<close>

subsection \<open>The states\<close>

inductive concurrent :: "config \<Rightarrow> threads \<Rightarrow> bool" for c :: config where
  boots: "NewPool c w0 = (Ok (), w) \<Longrightarrow> few w \<Longrightarrow> concurrent c (w, {#})"
| goes_on: "concurrent c z \<Longrightarrow> istep z z' \<Longrightarrow> few (fst z') \<Longrightarrow> concurrent c z'"

lemma isteps_next_ref: "isteps z z' \<Longrightarrow> next_ref (fst z) \<le> next_ref (fst z')"
  by (induction rule: rtranclp_induct) (auto dest: istep_next_ref intro: order_trans)

lemma isteps_concurrent: "isteps z z' \<Longrightarrow> concurrent c z \<Longrightarrow> few (fst z') \<Longrightarrow> concurrent c z'"
proof (induction rule: rtranclp_induct)
  case (step y z')
  have "few (fst y)" using istep_next_ref [OF step(2)] step(5) by (simp add: few_def)
  with step show ?case by (blast intro: goes_on)
qed

lemma reachable_concurrent: "reachable c w \<Longrightarrow> concurrent c (w, {#})"
proof (induction rule: reachable.induct)
  case (started w0 w)
  then show ?case by (rule boots)
next
  case (moved w w')
  from step_evolves [OF reachable_system [OF moved(1)] moved(2,3)] have "isteps (w, {#}) (w', {#})"
    by (simp add: evolves_def)
  then show ?case using moved(3,4) by (simp add: isteps_concurrent)
qed

lemma concurrent_iinv: "concurrent c z \<Longrightarrow> iinv z \<and> few (fst z)"
proof (induction rule: concurrent.induct)
  case (boots w0 w)
  then show ?case using reachableD(1) [OF started [OF boots]] pool_inv_iinv by simp
qed (auto intro: istep_iinv)

subsection \<open>A wrapper that is out stays out\<close>

definition is_out :: "ref \<Rightarrow> threads \<Rightarrow> bool" where
  "is_out r z \<longleftrightarrow> r < next_ref (fst z) \<and> r \<notin> registered (fst z) \<and> number (makes r) (snd z) = 0"

lemma registered_update: "snd ` set (AList.update k r xs) \<subseteq> insert r (snd ` set xs)"
  by (induction xs) auto

lemma registered_delete_subset: "snd ` set (AList.delete k xs) \<subseteq> snd ` set xs"
  by (auto simp: AList.delete_eq)

lemma istep_out:
  assumes "istep z z'" and "is_out r z"
  shows "is_out r z'"
  using assms(1)
proof cases
  case (enters w r' M)
  then have "r' \<noteq> r" using assms(2) by (auto simp: is_out_def)
  with enters assms(2) registered_update [of "ID (heap w r')" r' "connections w"] show ?thesis
    by (auto simp: is_out_def enter_def)
next
  case (acquires c w u w' M)
  with assms(2) show ?thesis
    by (auto simp: is_out_def create_acquire_def flip_def split: send_result.splits if_splits option.splits bool.splits)
next
  case (dials c w nc w' M)
  with assms(2) lightD(2,6) [OF create_dial_light] show ?thesis by (auto simp: is_out_def)
next
  case (dial_fails c w res w' M)
  with assms(2) lightD(2,6) [OF create_dial_light] show ?thesis by (auto simp: is_out_def)
next
  case (stops w u w' M)
  then have "aside w w'" using close_managers_aside by (simp add: asides_def)
  with stops assms(2) show ?thesis by (simp add: is_out_def asideD(2,7))
next
  case (drains w u w' M)
  then have "aside w w'" using close_channels_aside by (simp add: asides_def)
  with drains assms(2) show ?thesis by (simp add: is_out_def asideD(2,7))
next
  case (unlinks r' w ex w' M)
  then have "w' = w \<or> w' = w\<lparr>connections := AList.delete (ID (heap w r')) (connections w)\<rparr>"
    by (auto simp: unlink_def Let_def split: if_splits)
  then have "registered w' \<subseteq> registered w" "next_ref w' = next_ref w"
    using registered_delete_subset [of "ID (heap w r')" "connections w"] by (elim disjE; simp)+
  with unlinks assms(2) show ?thesis by (simp add: is_out_def) blast
next
  case (clears w r' M)
  with assms(2) lightD(2) [OF iffD2 [OF light_clear_if_udp light_refl]] show ?thesis by (auto simp: is_out_def)
next
  case (marks r' w M)
  with assms(2) show ?thesis by (simp add: is_out_def) (simp add: mark_closing_def)
next
  case (releases w M)
  with assms(2) show ?thesis by (simp add: is_out_def create_release_def split: recv_result.split)
next
  case (counts w r' M)
  with assms(2) show ?thesis by (simp add: is_out_def) (simp add: count_new_def)
next
  case (uncounts w r' ex M)
  with assms(2) show ?thesis by (simp add: is_out_def) (simp add: uncount_def)
next
  case (app_closes r' w e w' M)
  with assms(2) show ?thesis by (simp add: is_out_def close_wrapper_frame(2,6) [OF app_closes(4)])
next
  case (shuts r' w e w' ex M)
  with assms(2) show ?thesis by (simp add: is_out_def close_wrapper_frame(2,6) [OF shuts(3)])
next
  case (sweeps r' w e w' rs M)
  with assms(2) show ?thesis by (simp add: is_out_def close_wrapper_frame(2,6) [OF sweeps(3)])
next
  case (wraps nc w r' w' M)
  with assms(2) show ?thesis by (auto simp: is_out_def allocate_def Let_def)
next
  case (signals w u w' M)
  with assms(2) show ?thesis by (auto simp: is_out_def close_signal_def split: if_splits)
next
  case (elsewhere w w' M)
  with assms(2) show ?thesis by (simp add: is_out_def asideD(2,7))
qed (use assms(2) in \<open>simp_all add: is_out_def\<close>)

lemma isteps_out: "isteps z z' \<Longrightarrow> is_out r z \<Longrightarrow> is_out r z'"
  by (induction rule: rtranclp_induct) (auto intro: istep_out)

subsection \<open>Nobody is stuck\<close>

text \<open>The goroutines inside \<^verbatim>\<open>createConnection\<close> and \<^verbatim>\<open>closeConnection\<close>, and their steps to go.\<close>

fun togo :: "activity \<Rightarrow> nat" where
  "togo (Checking c) = 8"
| "togo (Limiting c) = 7"
| "togo (Dialing c) = 6"
| "togo (Wrapping nc) = 5"
| "togo (Clearing r) = 4"
| "togo (Entering r) = 3"
| "togo (Counting r) = 2"
| "togo Releasing = 1"
| "togo (Unlinking r) = 3"
| "togo (Shutting r ex) = 2"
| "togo (Uncounting r ex) = 1"
| "togo _ = 0"

lemma togo_le: "togo a \<le> 8"
  by (cases a) simp_all

lemma togo_step:
  assumes "0 < togo a"
  shows "\<exists>w' N. istep (w, add_mset a M) (w', N + M) \<and> (N = {#} \<or> (\<exists>a'. N = {#a'#} \<and> 0 < togo a' \<and> togo a' < togo a))"
proof (cases a)
  case (Checking c)
  show ?thesis
  proof (cases "isClosed w")
    case True
    from finds_closed [OF this, of c M] show ?thesis
      by (intro exI [of _ w] exI [of _ "{#Releasing#}"]) (simp add: Checking)
  next
    case False
    from looks [OF this, of c M] show ?thesis
      by (intro exI [of _ w] exI [of _ "{#Limiting c#}"]) (simp add: Checking)
  qed
next
  case (Limiting c)
  show ?thesis
  proof (cases "has_room w")
    case True
    from passes [OF this, of c M] show ?thesis
      by (intro exI [of _ w] exI [of _ "{#Dialing c#}"]) (simp add: Limiting)
  next
    case False
    from finds_full [OF this, of c M] show ?thesis
      by (intro exI [of _ w] exI [of _ "{#Releasing#}"]) (simp add: Limiting)
  qed
next
  case (Dialing c)
  obtain res w' where d: "create_dial c w = (res, w')" by (cases "create_dial c w")
  show ?thesis
  proof (cases "is_Ok res")
    case True
    then obtain nc where "res = Ok nc" by (cases res) auto
    with dials [of c w nc w' M] d show ?thesis
      by (intro exI [of _ w'] exI [of _ "{#Wrapping nc#}"]) (simp add: Dialing)
  next
    case False
    from dial_fails [OF d this, of M] show ?thesis
      by (intro exI [of _ w'] exI [of _ "{#Releasing#}"]) (simp add: Dialing)
  qed
next
  case (Wrapping nc)
  obtain r w' where "allocate nc w = (r, w')" by (cases "allocate nc w")
  from wraps [OF this, of M] show ?thesis
    by (intro exI [of _ w'] exI [of _ "{#Clearing r#}"]) (simp add: Wrapping)
next
  case (Clearing r)
  show ?thesis using clears [of w r M]
    by (intro exI [of _ "clear_if_udp r w"] exI [of _ "{#Entering r#}"]) (simp add: Clearing)
next
  case (Entering r)
  show ?thesis using enters [of w r M]
    by (intro exI [of _ "enter r w"] exI [of _ "{#Counting r#}"]) (simp add: Entering)
next
  case (Counting r)
  show ?thesis using counts [of w r M]
    by (intro exI [of _ "count_new r w"] exI [of _ "{#Releasing#}"]) (simp add: Counting)
next
  case Releasing
  show ?thesis using releases [of w M]
    by (intro exI [of _ "create_release w"] exI [of _ "{#}"]) (simp add: Releasing)
next
  case (Unlinking r)
  obtain ex w' where "unlink r w = (ex, w')" by (cases "unlink r w")
  from unlinks [OF this, of M] show ?thesis
    by (intro exI [of _ w'] exI [of _ "{#Shutting r ex#}"]) (simp add: Unlinking)
next
  case (Shutting r ex)
  obtain e w' where "close_wrapper r w = (e, w')" by (cases "close_wrapper r w")
  from shuts [OF this, of ex M] show ?thesis
    by (intro exI [of _ w'] exI [of _ "{#Uncounting r ex#}"]) (simp add: Shutting)
next
  case (Uncounting r ex)
  show ?thesis using uncounts [of w r ex M]
    by (intro exI [of _ "uncount r ex w"] exI [of _ "{#}"]) (simp add: Uncounting)
qed (use assms in simp_all)

text \<open>So they can all be run to the end, each in its steps to go.\<close>

lemma run_to_end:
  assumes "\<forall>a \<in># M. 0 < togo a"
  shows "\<exists>n w'. n \<le> sum_mset (image_mset togo M) \<and> (istep ^^ n) (w, M) (w', {#})"
  using assms
proof (induction "sum_mset (image_mset togo M)" arbitrary: w M rule: less_induct)
  case less
  show ?case
  proof (cases M)
    case empty
    then show ?thesis by (intro exI [of _ 0] exI [of _ w]) simp
  next
    case (add a M')
    with less.prems have pos: "0 < togo a" "\<forall>a \<in># M'. 0 < togo a" by simp_all
    obtain w1 N where s: "istep (w, M) (w1, N + M')"
      and N: "N = {#} \<or> (\<exists>a'. N = {#a'#} \<and> 0 < togo a' \<and> togo a' < togo a)"
      using togo_step [OF pos(1), of w M'] add by blast
    then have lt: "sum_mset (image_mset togo (N + M')) < sum_mset (image_mset togo M)"
      using pos(1) by (auto simp: add)
    moreover have "\<forall>a \<in># N + M'. 0 < togo a" using N pos(2) by auto
    ultimately obtain n w' where "n \<le> sum_mset (image_mset togo (N + M'))" "(istep ^^ n) (w1, N + M') (w', {#})"
      using less.hyps by blast
    then have "Suc n \<le> sum_mset (image_mset togo M) \<and> (istep ^^ Suc n) (w, M) (w', {#})"
      using lt relpowp_Suc_I2 [of istep, OF s] by (simp del: relpowp.simps)
    then show ?thesis by blast
  qed
qed

subsection \<open>Several creations at once\<close>

lemma acquires_many:
  assumes "\<And>i. i < n \<Longrightarrow> create_acquire Background (w\<lparr>createSemaphore := sem i\<rparr>) =
      (Ok (), w\<lparr>createSemaphore := sem (Suc i)\<rparr>)"
  shows "isteps (w\<lparr>createSemaphore := sem 0\<rparr>, M)
      (w\<lparr>createSemaphore := sem n\<rparr>, replicate_mset n (Checking Background) + M)"
  using assms
proof (induction n)
  case (Suc n)
  then have "isteps (w\<lparr>createSemaphore := sem 0\<rparr>, M)
      (w\<lparr>createSemaphore := sem n\<rparr>, replicate_mset n (Checking Background) + M)" by simp
  also have "isteps (w\<lparr>createSemaphore := sem n\<rparr>, replicate_mset n (Checking Background) + M)
      (w\<lparr>createSemaphore := sem (Suc n)\<rparr>, replicate_mset (Suc n) (Checking Background) + M)"
    using acquires [OF Suc.prems [of n]] by (simp add: r_into_rtranclp)
  finally show ?case .
qed simp

lemma passes_many:
  assumes "create_check w = None"
  shows "isteps (w, replicate_mset n (Checking c) + M) (w, replicate_mset n (Dialing c) + M)"
proof (induction n arbitrary: M)
  case (Suc n)
  have "isteps (w, replicate_mset (Suc n) (Checking c) + M)
      (w, add_mset (Dialing c) (replicate_mset n (Checking c) + M))"
    using checks_isteps [of w c "replicate_mset n (Checking c) + M"] assms by simp
  with Suc [of "add_mset (Dialing c) M"] show ?case by simp
qed simp

text \<open>The rest of a creation after its checks.\<close>

definition dial_and_enter :: "ctx \<Rightarrow> world \<Rightarrow> world" where
  "dial_and_enter c w =
     (case create_dial c w of
        (Ok nc, w1) \<Rightarrow> create_release (snd (create_publish nc w1))
      | (_, w1) \<Rightarrow> create_release w1)"

lemma dial_and_enter_isteps: "isteps (w, add_mset (Dialing c) M) (dial_and_enter c w, M)"
proof -
  obtain d w1 where d: "create_dial c w = (d, w1)" by (cases "create_dial c w")
  show ?thesis
  proof (cases "is_Ok d")
    case True
    then obtain nc where nc: "d = Ok nc" by (cases d) auto
    obtain r w2 where p: "create_publish nc w1 = (r, w2)" by (cases "create_publish nc w1")
    from dials [OF d [unfolded nc]] publish_isteps [OF p] releases [of w2] show ?thesis
      by (simp add: dial_and_enter_def d nc p) (meson rtranclp.rtrancl_into_rtrancl rtranclp.rtrancl_refl rtranclp_trans)
  next
    case False
    then have "dial_and_enter c w = create_release w1" by (cases d) (simp_all add: dial_and_enter_def d)
    with dial_fails [OF d False] releases [of w1] show ?thesis
      by (metis rtranclp.rtrancl_into_rtrancl rtranclp.rtrancl_refl)
  qed
qed

text \<open>All dial first, then each wraps its connection, enters it and leaves.\<close>

fun dial_many :: "nat \<Rightarrow> ctx \<Rightarrow> world \<Rightarrow> world" where
  "dial_many 0 c w = w"
| "dial_many (Suc n) c w = snd (create_dial c (dial_many n c w))"

fun publish_many :: "nat \<Rightarrow> net_conn option \<Rightarrow> world \<Rightarrow> world" where
  "publish_many 0 nc w = w"
| "publish_many (Suc n) nc w = create_release (snd (create_publish nc (publish_many n nc w)))"

lemma dial_many_cfg [simp]: "cfg (dial_many n c w) = cfg w"
  by (induction n) (simp_all add: lightD(1) [OF create_dial_light [OF surjective_pairing]])

lemma dials_many:
  assumes "\<And>v. cfg v = cfg w \<Longrightarrow> fst (create_dial c v) = Ok nc"
  shows "isteps (w, replicate_mset n (Dialing c) + M) (dial_many n c w, replicate_mset n (Wrapping nc) + M)"
proof (induction n arbitrary: M)
  case (Suc n)
  have "create_dial c (dial_many n c w) = (Ok nc, dial_many (Suc n) c w)"
    using assms [of "dial_many n c w"] by (simp add: prod_eq_iff)
  from dials [OF this, of "replicate_mset n (Wrapping nc) + M"] Suc [of "add_mset (Dialing c) M"]
  show ?case by simp
qed simp

lemma publishes_many: "isteps (w, replicate_mset n (Wrapping nc) + M) (publish_many n nc w, M)"
proof (induction n arbitrary: M)
  case (Suc n)
  obtain r w' where p: "create_publish nc (publish_many n nc w) = (r, w')"
    by (cases "create_publish nc (publish_many n nc w)")
  have "isteps (w, replicate_mset (Suc n) (Wrapping nc) + M) (publish_many n nc w, add_mset (Wrapping nc) M)"
    using Suc [of "add_mset (Wrapping nc) M"] by simp
  also note publish_isteps [OF p]
  also have "isteps (w', add_mset Releasing M) (publish_many (Suc n) nc w, M)"
    using releases [of w' M] by (simp add: p r_into_rtranclp)
  finally show ?case .
qed simp

subsection \<open>\<^verbatim>\<open>Close\<close> while a connection is dialed\<close>

text \<open>
  A goroutine passes the checks of \<^verbatim>\<open>createConnection\<close>, \<^verbatim>\<open>Close\<close> runs from its first line to its
  last, and the goroutine goes on.
\<close>

definition answers_always :: "config \<Rightarrow> bool" where
  "answers_always c \<longleftrightarrow> (\<forall>v. cfg v = c \<longrightarrow> (\<exists>nc v'. create_dial Background v = (Ok (Some nc), v')))"

lemma create_survives_Close:
  assumes R: "reachable c w" and chk: "create_check w = None" and d: "answers_always (cfg w)" and n: "next_ref w < 2 ^ 64"
  obtains w' where "isteps (w, {#}) (w', {#})" and "next_ref w' = Suc (next_ref w)"
    and "pool_closed w'" "close_once w'" "closeChan_closed w'"
    and "\<not> running (healthCheckManager w')" "\<not> running (cleanupManager w')" "\<not> running (leakDetector w')"
    and "registered w' = {next_ref w}" and "Conn (heap w' (next_ref w)) \<noteq> None"
    and "closes (next_ref w) (trace w') = 0"
proof -
  from reachable_system [OF R] have I: "pool_inv w" and M: "managers_ok w" by (simp_all add: system_inv_def)
  let ?w1 = "w\<lparr>createSemaphore := one_slot_taken\<rparr>"
  have "create_acquire Background w = (Ok (), ?w1)"
    using pool_invD(10) [OF I] by (simp add: create_acquire_def sem_ok_def chan_send_def make_chan_def one_slot_taken_def)
  then have s1: "istep (w, {#}) (?w1, {#Checking Background#})" by (rule acquires)
  have o: "\<not> pool_closed w" and "create_check ?w1 = None"
    using chk by (auto simp: create_check_def isClosed_def split: if_splits)
  from checks_isteps [of ?w1 Background "{#}"] this(2)
  have s2: "isteps (?w1, {#Checking Background#}) (?w1, {#Dialing Background#})" by simp
  have core: "inv_core ?w1" using I by (simp add: pool_inv_core)
  have perm: "permutes_all (\<lambda>rs. rs)" by simp
  have M1: "managers_ok ?w1" using M by (simp add: managers_ok_def)
  have o1: "\<not> close_once ?w1" using o pool_invD(6) [OF I] by (simp add: queues_ok_def)
  obtain e w2 where c: "Close (\<lambda>rs. rs) ?w1 = (error_result e, w2)"
    and core2: "inv_core w2" and w2: "createSemaphore w2 = one_slot_taken" "all_closed w2" "next_ref w2 = next_ref w"
      "cfg w2 = cfg w"
  proof (rule Close_open_core [OF core M1 o1 perm], goal_cases)
    case (1 w')
    from 1(1) [OF 1(2,3)] 1(4,6,7,8) show ?case by simp
  qed
  have s3: "isteps (?w1, {#Dialing Background#}) (w2, {#Dialing Background#})"
    by (rule Close_isteps [OF perm c]) (simp_all add: error_result_def split: option.split)
  obtain nc w3 where dial: "create_dial Background w2 = (Ok (Some nc), w3)"
    using d w2(4) by (auto simp: answers_always_def)
  note L = lightD [OF create_dial_light [OF dial]]
  obtain r w4 where p: "create_publish (Some nc) w3 = (r, w4)" by (cases "create_publish (Some nc) w3")
  have core3: "inv_core w3" using core2 light_inv_core [OF create_dial_light [OF dial]] by simp
  have "connections w3 = []" using w2(2) by (simp add: all_closed_def L)
  with create_publish_inv_core [OF core3 _ _ p] n have P: "inv_core w4" "r = next_ref w"
    "next_ref w4 = Suc (next_ref w)" "connections w4 = [(generator w3 + 1, r)]" "Conn (heap w4 r) = Some nc"
    by (simp_all add: L w2(3))
  have st: "static w4 = static w3" using create_publish_next_ref [OF p] by simp
  have w4: "createSemaphore w4 = one_slot_taken" using create_publish_frame(3) [OF p] by (simp add: L w2(1))
  have "dial_and_enter Background w2 = w4\<lparr>createSemaphore := make_chan 5\<rparr>"
    by (simp add: dial_and_enter_def dial p w4)
  with dial_and_enter_isteps [of w2 Background "{#}"]
  have s4: "isteps (w2, {#Dialing Background#}) (w4\<lparr>createSemaphore := make_chan 5\<rparr>, {#})" by simp
  have cl: "closes r (trace w4) = 0"
    using P(1,5) by (auto simp: inv_core_def closes_ok_def)
  show thesis
  proof (rule that)
    show "isteps (w, {#}) (w4\<lparr>createSemaphore := make_chan 5\<rparr>, {#})"
      using s1 s2 s3 s4 by (meson converse_rtranclp_into_rtranclp rtranclp_trans)
  qed (use w2(2) P cl in \<open>simp_all add: all_closed_def staticD [OF st] L\<close>)
qed

end
