(* ===== verification/Pool_Notify.thy ===== *)
theory Pool_Notify
  imports Pool_Wait_Facts
begin

text \<open>
  The notification by \<^verbatim>\<open>Put\<close> against a reference: its loops over up to three queues do what one
  search in the list of all goroutines queued there does. In a typed state the goroutine found is
  the first one that still waits; the ones that have returned are passed over.
\<close>

subsection \<open>The reference\<close>

text \<open>The queues \<^verbatim>\<open>notifyWaitQueue\<close> looks into, in order.\<close>

definition queues_for :: "connection \<Rightarrow> queue_id list" where
  "queues_for c =
     (if GetProtocol c = ProtocolTCP then [QTCP] else if GetProtocol c = ProtocolUDP then [QUDP] else []) @
     (if GetIPVersion c = IPVersionIPv4 then [QIPv4] else if GetIPVersion c = IPVersionIPv6 then [QIPv6] else []) @
     [QAny]"

definition queued :: "queue_id list \<Rightarrow> world \<Rightarrow> wid list" where
  "queued qs w = concat (map (\<lambda>q. buf (queue q w)) qs)"

definition can_take :: "(wid \<Rightarrow> waiter option) \<Rightarrow> wid \<Rightarrow> bool" where
  "can_take ws i =
     (case ws i of
        None \<Rightarrow> False
      | Some wt \<Rightarrow> \<not> chan_closed (w_chan wt) \<and> length (buf (w_chan wt)) < chan_cap (w_chan wt))"

definition still_waiting :: "(wid \<Rightarrow> waiter option) \<Rightarrow> wid \<Rightarrow> bool" where
  "still_waiting ws i = (case ws i of None \<Rightarrow> False | Some wt \<Rightarrow> w_phase wt = Waiting)"

text \<open>A connection in the hands of one goroutine, or of none.\<close>

definition deliver :: "wid option \<Rightarrow> ref \<Rightarrow> (wid \<Rightarrow> waiter option) \<Rightarrow> (wid \<Rightarrow> waiter option)" where
  "deliver oi r ws =
     (\<lambda>j. if oi = Some j
          then map_option (\<lambda>wt. wt\<lparr>w_chan := (w_chan wt)\<lparr>buf := buf (w_chan wt) @ [r]\<rparr>\<rparr>) (ws j)
          else ws j)"

lemma find_append:
  "find P (xs @ ys) = (case find P xs of None \<Rightarrow> find P ys | Some x \<Rightarrow> Some x)"
  by (induction xs) auto

lemma deliver_None [simp]: "deliver None r ws = ws"
  by (simp add: deliver_def)

subsection \<open>One queue\<close>

lemma offer_deliver:
  "offer i r w = (can_take (waiters w) i,
     if can_take (waiters w) i then w\<lparr>waiters := deliver (Some i) r (waiters w)\<rparr> else w)"
  by (cases "waiters w i") (auto simp: offer_def can_take_def chan_send_def deliver_def fun_eq_iff)

text \<open>
  What a notification leaves: the goroutine that was served, if any, has its connection; the
  queues have lost goroutines from the front; nothing else has changed.
\<close>

definition delivered :: "wid option \<Rightarrow> ref \<Rightarrow> world \<Rightarrow> world \<Rightarrow> bool" where
  "delivered oi r w w' \<longleftrightarrow>
     waiters w' = deliver oi r (waiters w) \<and> heap w' = heap w \<and> now w' = now w \<and>
     idleTCP w' = idleTCP w \<and> idleUDP w' = idleUDP w \<and> cfg w' = cfg w \<and>
     (\<forall>q. chan_closed (queue q w') = chan_closed (queue q w) \<and>
        (\<exists>n. buf (queue q w') = drop n (buf (queue q w))))"

lemma delivered_after:
  assumes a: "delivered None r w w1" and b: "delivered oi r w1 w2"
  shows "delivered oi r w w2"
proof -
  have "\<exists>n. buf (queue q w2) = drop n (buf (queue q w))" for q
    using a b unfolding delivered_def by (metis drop_drop)
  then show ?thesis using a b by (simp add: delivered_def)
qed

lemma notifySpecific_find:
  assumes "\<not> chan_closed (queue q w)"
  shows "\<exists>w'. notifySpecificWaitQueue q r w =
      Some (find (can_take (waiters w)) (buf (queue q w)) \<noteq> None, w') \<and>
    delivered (find (can_take (waiters w)) (buf (queue q w))) r w w' \<and>
    (\<forall>q'. q' \<noteq> q \<longrightarrow> queue q' w' = queue q' w)"
  using assms
proof (induction "buf (queue q w)" arbitrary: w)
  case Nil
  then show ?case
    by (subst notifySpecificWaitQueue.simps)
      (auto simp: chan_recv_def delivered_def intro: exI [of _ 0])
next
  case (Cons i js)
  let ?w1 = "set_queue q ((queue q w)\<lparr>buf := js\<rparr>) w"
  have ws: "waiters ?w1 = waiters w" by (simp add: waiters_set_queue)
  have "\<exists>n. js = drop n (buf (queue q w))"
    by (rule exI [of _ 1]) (simp add: Cons(2) [symmetric])
  then have pop: "delivered None r w ?w1"
    by (auto simp: delivered_def intro: exI [of _ "0::nat"])
  have unf: "notifySpecificWaitQueue q r w =
      (if can_take (waiters w) i then Some (True, ?w1\<lparr>waiters := deliver (Some i) r (waiters w)\<rparr>)
       else notifySpecificWaitQueue q r ?w1)"
    by (subst notifySpecificWaitQueue.simps)
      (simp add: chan_recv_def Cons(2) [symmetric] offer_deliver ws)
  show ?case
  proof (cases "can_take (waiters w) i")
    case True
    have q: "queue q' (?w1\<lparr>waiters := x\<rparr>) = queue q' ?w1" for q' x by (cases q') simp_all
    have "delivered (Some i) r ?w1 (?w1\<lparr>waiters := deliver (Some i) r (waiters w)\<rparr>)"
      by (simp add: delivered_def ws q exI [of _ "0::nat"])
    with True pop show ?thesis
      using delivered_after [OF pop] by (simp add: unf Cons(2) [symmetric] q)
  next
    case False
    have "\<not> chan_closed (queue q ?w1)" "js = buf (queue q ?w1)"
      using Cons(3) by (simp_all add: queue_set_queue)
    from Cons(1) [OF this(2,1)] obtain w' where
      "notifySpecificWaitQueue q r ?w1 = Some (find (can_take (waiters w)) js \<noteq> None, w')"
      "delivered (find (can_take (waiters w)) js) r ?w1 w'"
      "\<forall>q'. q' \<noteq> q \<longrightarrow> queue q' w' = queue q' w"
      by (auto simp: ws)
    with False show ?thesis
      using delivered_after [OF pop] by (simp add: unf Cons(2) [symmetric])
  qed
qed

subsection \<open>All of them\<close>

primrec notify_list :: "queue_id list \<Rightarrow> ref \<Rightarrow> world \<Rightarrow> (bool \<times> world) option" where
  "notify_list [] r = (\<lambda>w. Some (False, w))"
| "notify_list (q # qs) r = or_else (notifySpecificWaitQueue q r) (notify_list qs r)"

lemma or_else_skip: "or_else (\<lambda>w. Some (False, w)) g = g" "or_else f (\<lambda>w. Some (False, w)) = f"
  by (auto simp: or_else_def fun_eq_iff split: option.split bool.split)

lemma notifyWaitQueue_list: "notifyWaitQueue r w = notify_list (queues_for (heap w r)) r w"
  by (simp add: notifyWaitQueue_def queues_for_def Let_def or_else_skip)

lemma notify_list_find:
  assumes "\<forall>q. \<not> chan_closed (queue q w)" and "distinct qs"
  shows "\<exists>w'. notify_list qs r w = Some (find (can_take (waiters w)) (queued qs w) \<noteq> None, w') \<and>
    delivered (find (can_take (waiters w)) (queued qs w)) r w w'"
  using assms
proof (induction qs arbitrary: w)
  case Nil
  then show ?case by (auto simp: queued_def delivered_def intro: exI [of _ "0::nat"])
next
  case (Cons q qs)
  obtain w1 where w1: "notifySpecificWaitQueue q r w =
      Some (find (can_take (waiters w)) (buf (queue q w)) \<noteq> None, w1)"
    "delivered (find (can_take (waiters w)) (buf (queue q w))) r w w1"
    "\<forall>q'. q' \<noteq> q \<longrightarrow> queue q' w1 = queue q' w"
    using notifySpecific_find [of q w r] Cons(2) by blast
  have split: "find P (queued (q # qs) w) =
      (case find P (buf (queue q w)) of None \<Rightarrow> find P (queued qs w) | Some i \<Rightarrow> Some i)" for P
    by (cases "find P (buf (queue q w))") (simp_all add: queued_def find_append)
  show ?case
  proof (cases "find (can_take (waiters w)) (buf (queue q w))")
    case (Some i)
    with w1 show ?thesis by (simp add: split or_else_def)
  next
    case None
    have ws: "waiters w1 = waiters w" using w1(2) None by (simp add: delivered_def)
    have "queued qs w1 = queued qs w"
      using w1(3) Cons(3) by (auto simp: queued_def intro!: arg_cong [where f = concat] arg_cong [where f = buf])
    moreover have "\<forall>q. \<not> chan_closed (queue q w1)" using w1(2) Cons(2) by (simp add: delivered_def)
    ultimately obtain w' where "notify_list qs r w1 =
        Some (find (can_take (waiters w)) (queued qs w) \<noteq> None, w')"
      "delivered (find (can_take (waiters w)) (queued qs w)) r w1 w'"
      using Cons(1) [of w1] Cons(3) by (auto simp: ws)
    with w1 None show ?thesis using delivered_after by (auto simp: split or_else_def)
  qed
qed

lemma notify_find:
  assumes "\<forall>q. \<not> chan_closed (queue q w)"
  shows "\<exists>b w'. notifyWaitQueue r w = Some (b, w') \<and>
    delivered (find (can_take (waiters w)) (queued (queues_for (heap w r)) w)) r w w'"
  using notify_list_find [OF assms, of "queues_for (heap w r)" r]
  by (auto simp: notifyWaitQueue_list queues_for_def)

subsection \<open>Typed states\<close>

text \<open>On an open pool, a goroutine found in a queue takes a connection if and only if it still waits.\<close>

lemma can_take_typed:
  assumes T: "typed w" and W: "waiters_ok w" and o: "\<not> pool_closed w" and i: "i \<in> set (queued qs w)"
  shows "can_take (waiters w) i = still_waiting (waiters w) i"
proof -
  from i obtain q where "i \<in> set (buf (queue q w))" by (auto simp: queued_def)
  from typedD(3) [OF T this] obtain wt where wt: "waiters w i = Some wt" "standing q wt" by blast
  with W have "chan_cap (w_chan wt) = 1" by (simp add: waiters_ok_def)
  with wt o typedD(2) [OF T wt(1)] show ?thesis
    by (cases "w_phase wt") (auto simp: can_take_def still_waiting_def standing_def waiter_typed_def)
qed

lemma find_typed:
  assumes "typed w" and "waiters_ok w" and "\<not> pool_closed w"
  shows "find (can_take (waiters w)) (queued qs w) = find (still_waiting (waiters w)) (queued qs w)"
  using can_take_typed [OF assms] by (intro find_cong) simp_all

text \<open>A goroutine that still waits in a queue: what is known of it.\<close>

lemma served_waiter:
  assumes T: "typed w" and W: "waiters_ok w" and o: "\<not> pool_closed w"
    and f: "find (still_waiting (waiters w)) (queued (queues_for c) w) = Some i"
  obtains wt where "waiters w i = Some wt" "w_phase wt = Waiting" "w_chan wt = make_chan 1"
    "wait_accepts (w_kind wt) c"
proof -
  have i: "i \<in> set (queued (queues_for c) w)" and s: "still_waiting (waiters w) i"
    using f by (auto simp: find_Some_iff)
  from i obtain q where q: "q \<in> set (queues_for c)" "i \<in> set (buf (queue q w))"
    by (auto simp: queued_def)
  from typedD(3) [OF T q(2)] obtain wt where wt: "waiters w i = Some wt" "standing q wt" by blast
  note t = typedD(2) [OF T wt(1)]
  have ph: "w_phase wt = Waiting" using s wt(1) by (simp add: still_waiting_def)
  have "chan_cap (w_chan wt) = 1" using W wt(1) by (simp add: waiters_ok_def)
  moreover have "buf (w_chan wt) = []" "\<not> chan_closed (w_chan wt)"
    using wt(2) t ph o by (simp_all add: standing_def waiter_typed_def)
  ultimately have "w_chan wt = make_chan 1" by (simp add: make_chan_def)
  moreover have "queue_class q c" using q(1) by (auto simp: queues_for_def split: if_splits)
  then have "wait_accepts (w_kind wt) c"
    using t wt(2) accepts_class by (simp add: waiter_typed_def standing_def)
  ultimately show thesis using wt(1) ph by (intro that)
qed

subsection \<open>\<^verbatim>\<open>Put\<close> on an open pool\<close>

text \<open>
  A valid connection on an open pool whose idle channel has room: it is entered there, and
  also delivered to the first goroutine that waits for it. It is still valid then, unless it
  is a UDP connection, for clearing its buffer may take time.
\<close>

lemma put_delivers:
  assumes I: "pool_inv w" and T: "typed w" and o: "\<not> pool_closed w" and v: "isConnectionValid (Some r) w"
    and room: "int (length (buf (idle_of (GetProtocol (heap w r)) w))) < MaxIdleConnections (cfg w)"
  obtains w' where "Put (Some r) w = (Ok (), w')"
    and "buf (idle_of (GetProtocol (heap w r)) w') = buf (idle_of (GetProtocol (heap w r)) w) @ [r]"
    and "waiters w' = deliver (find (still_waiting (waiters w)) (queued (queues_for (heap w r)) w)) r (waiters w)"
    and "\<forall>q. \<exists>n. buf (queue q w') = drop n (buf (queue q w))"
    and "GetProtocol (heap w' r) = GetProtocol (heap w r)" "GetIPVersion (heap w' r) = GetIPVersion (heap w r)"
    and "GetProtocol (heap w r) \<noteq> ProtocolUDP \<Longrightarrow> isConnectionValid (Some r) w'"
proof -
  let ?p = "GetProtocol (heap w r)" and ?w1 = "put_prepare r w"
  let ?ch = "(idle_of ?p w)\<lparr>buf := buf (idle_of ?p w) @ [r]\<rparr>"
  let ?w2 = "put_counted r (set_idle ?p ?ch ?w1)"
  have "light w ?w1" by simp
  note L = lightD [OF this]
  have idle1: "idle_of ?p ?w1 = idle_of ?p w" by (simp add: idle_of_def L)
  have send: "chan_send r (idle_of ?p w) = Sent ?ch"
    using pool_invD(5) [OF I] o room by (auto simp: idle_ok_def idle_of_def chan_send_def)
  have q2: "queue q ?w2 = queue q w" for q
    using L(10) [of q] by (cases q) (simp_all add: put_counted_def set_idle_def with_stats_def)
  have f2: "waiters ?w2 = waiters w" "heap ?w2 = heap ?w1" "now ?w2 = now ?w1" "idle_of ?p ?w2 = ?ch"
    "cfg ?w2 = cfg w"
    by (simp_all add: put_counted_def L set_idle_def idle_of_def with_stats_def)
  have cls: "GetProtocol (heap ?w1 r) = ?p" "GetIPVersion (heap ?w1 r) = GetIPVersion (heap w r)"
    by (simp_all add: L)
  then have qf: "queues_for (heap ?w2 r) = queues_for (heap w r)" "queued qs ?w2 = queued qs w" for qs
    by (simp_all add: queues_for_def f2 queued_def q2)
  have "\<forall>q. \<not> chan_closed (queue q ?w2)"
    using pool_invD(6) [OF I] o by (simp add: q2 queues_ok_def)
  from notify_find [OF this, of r] obtain b w' where n: "notifyWaitQueue r ?w2 = Some (b, w')"
    and d: "delivered (find (can_take (waiters w)) (queued (queues_for (heap w r)) w)) r ?w2 w'"
    unfolding qf f2(1) by blast
  have "Put (Some r) w = (Ok (), w')"
    using o v send n by (simp add: Put_def isClosed_def put_store_def Let_def cls idle1)
  moreover have "buf (idle_of ?p w') = buf (idle_of ?p w) @ [r]"
    using d f2(4) by (simp add: delivered_def idle_of_def split: if_splits)
  moreover have "waiters w' = deliver (find (still_waiting (waiters w)) (queued (queues_for (heap w r)) w)) r (waiters w)"
    using d find_typed [OF T pool_invD(7) [OF I] o] by (simp add: delivered_def f2)
  moreover have "\<forall>q. \<exists>n. buf (queue q w') = drop n (buf (queue q w))"
    using d by (simp add: delivered_def q2)
  moreover have "heap w' = heap ?w1" "now w' = now ?w1" "cfg w' = cfg w" using d by (simp_all add: delivered_def f2)
  moreover from this have "isConnectionValid (Some r) w'" if "?p \<noteq> ProtocolUDP"
  proof -
    have "now ?w1 = now w" "IsHealthy (heap ?w1 r) = IsHealthy (heap w r)"
      using that by (simp_all add: put_prepare_def Let_def clear_if_udp_def call_OnReturn_def emit_def)
    then show ?thesis using v \<open>heap w' = heap ?w1\<close> \<open>now w' = now ?w1\<close> \<open>cfg w' = cfg w\<close>
      by (auto simp: valid_iff L IsExpired_def)
  qed
  ultimately show thesis by (intro that) (simp_all add: cls)
qed

text \<open>The goroutine served takes the connection and returns it.\<close>

lemma served_returns:
  assumes wt: "waiters w i = Some wt" and ph: "w_phase wt = Waiting"
    and c: "w_chan wt = (make_chan 1)\<lparr>buf := [r]\<rparr>" and a: "wait_accepts (w_kind wt) (heap w r)"
    and v: "isConnectionValid (Some r) w"
  shows "\<exists>w' wt'. wait_step i TakeConn w = Some w' \<and> waiters w' i = Some wt' \<and> w_phase wt' = Finished (Ok r)"
proof -
  let ?wt = "wt\<lparr>w_chan := make_chan 1\<rparr>"
  have "chan_recv ((make_chan 1)\<lparr>buf := [r]\<rparr>) = Received r (make_chan 1)"
    by (simp add: chan_recv_def make_chan_def)
  moreover have "isConnectionValid (Some r) (set_waiter i ?wt w)" using v by (simp add: valid_iff)
  ultimately have "wait_step i TakeConn w =
      Some (wait_return i ?wt (Ok r) (borrow_waited (w_kind wt) r) (set_waiter i ?wt w))"
    using wt a ph c by (simp add: wait_step_def wait_loop_step_def Let_def)
  then show ?thesis by (simp add: wait_return_def chan_close_def make_chan_def)
qed

end
