(* ===== verification/Pool_Races.thy ===== *)
theory Pool_Races
  imports Pool_Concurrent Pool_Notify
begin

text \<open>
  Interleavings finer than whole operations that \<open>Pool_Threads\<close> does not have, as they pass
  through the channels: \<^verbatim>\<open>Close\<close> between the checks and the rest of a \<^verbatim>\<open>Put\<close>, and \<^verbatim>\<open>Close\<close>
  while goroutines wait.
\<close>

subsection \<open>\<^verbatim>\<open>Close\<close> in the middle of a \<^verbatim>\<open>Put\<close>\<close>

lemma put_store_after_close:
  assumes "all_closed w"
  shows "fst (put_store r w) = Panic"
proof -
  have "light w (put_prepare r w)" by simp
  note L = lightD [OF this]
  have "chan_closed (idle_of p (put_prepare r w))" for p
    using assms by (simp add: all_closed_def idle_of_def L)
  then have "chan_send r (idle_of p (put_prepare r w)) = SendPanic" for p
    by (simp add: chan_cases)
  then show ?thesis by (simp add: put_store_def Let_def)
qed

lemma notify_after_close:
  assumes "all_closed w"
  shows "notifyWaitQueue r w = None"
proof -
  have n: "notifySpecificWaitQueue q r w = None" for q
    using assms by (intro notify_closed_hangs) (simp_all add: all_closed_def)
  show ?thesis by (simp add: notifyWaitQueue_def or_else_def n Let_def)
qed

subsection \<open>\<^verbatim>\<open>Close\<close> while a goroutine waits\<close>

lemma wait_return_shut:
  assumes "chan_closed (w_chan wt)"
  shows "waiters (wait_return i wt res effects w) i = Some (wt\<lparr>w_phase := Finished Panic\<rparr>)"
  using assms by (simp add: wait_return_def chan_close_def)

lemma drain_own_fields [simp]:
  "chan_closed (w_chan (drain_own wt)) = chan_closed (w_chan wt)"
  "w_kind (drain_own wt) = w_kind wt" "w_ctx (drain_own wt) = w_ctx wt"
  "w_phase (drain_own wt) = w_phase wt"
  by (auto simp: drain_own_def chan_cases split: recv_result.split)

lemma waiter_after_close:
  assumes "waiters w i = Some wt" "w_phase wt = Waiting" "chan_closed (w_chan wt)" "closeChan_closed w"
  shows "\<exists>w' wt'. wait_step i PoolClosing w = Some w' \<and> waiters w' i = Some wt' \<and>
     w_phase wt' = Finished Panic"
  using assms wait_return_shut [of "drain_own wt" i "Err ErrPoolClosed" "\<lambda>w. w" w]
  by (simp add: wait_step_def wait_loop_step_def)

end
