(* ===== verification/Pool_Health_Pass.thy ===== *)
theory Pool_Health_Pass
  imports Pool_System
begin

text \<open>
  A pass of \<^verbatim>\<open>performHealthCheck\<close> (\<^verbatim>\<open>health.go\<close>) with its goroutines as they run: one per
  connection of the snapshot, each waiting for one of ten slots, each looking at its connection,
  probing it and recording the verdict in separate steps, with any steps of the pool in between.
  The steps are those between two points at which another goroutine can be seen: the send into
  \<^verbatim>\<open>semaphore\<close>, the read of \<^verbatim>\<open>InUse\<close>, the call of \<^verbatim>\<open>performCheck\<close> in the inner goroutine,
  the \<^verbatim>\<open>select\<close> on \<^verbatim>\<open>done\<close> and the context, and the return.
\<close>

subsection \<open>One goroutine\<close>

datatype check_phase =
    Queued
  | Holding
  | Looked instant
  | Probing instant check_outcome instant
  | Leaving
  | Over

text \<open>
  What a goroutine of the pass may do next: go on, take the verdict from \<^verbatim>\<open>done\<close>, or see that
  the context is done. \<open>Looked\<close> and \<open>Probing\<close> keep the end of the context, \<open>Probing\<close> what the
  probe answers and when it returns. \<open>None\<close>: not ready.
\<close>

datatype check_choice = GoOn | TakeVerdict | ContextDone

definition release_slot :: "unit chan \<Rightarrow> world \<Rightarrow> (check_phase \<times> unit chan \<times> world) option" where
  "release_slot sm w =
     (case chan_recv sm of Received _ sm' \<Rightarrow> Some (Over, sm', w) | _ \<Rightarrow> None)"

definition take_slot :: "unit chan \<Rightarrow> world \<Rightarrow> (check_phase \<times> unit chan \<times> world) option" where
  "take_slot sm w = (case chan_send () sm of Sent sm' \<Rightarrow> Some (Holding, sm', w) | _ \<Rightarrow> None)"

definition give_up :: "ref \<Rightarrow> instant \<Rightarrow> unit chan \<Rightarrow> world \<Rightarrow> (check_phase \<times> unit chan \<times> world) option" where
  "give_up r limit sm w = (if limit \<le> now w then Some (Leaving, sm, check_timeout r w) else None)"

definition start_probe :: "ref \<Rightarrow> instant \<Rightarrow> unit chan \<Rightarrow> world \<Rightarrow> (check_phase \<times> unit chan \<times> world) option" where
  "start_probe r limit sm w =
     (if limit \<le> now w then None
      else
        (let out = performCheck (cfg w) (GetConn (heap w r)) (ext_calls w)
         in Some (Probing limit out (now w + int (check_time out)), sm, external w)))"

fun check_goroutine ::
    "ref \<Rightarrow> check_phase \<Rightarrow> check_choice \<Rightarrow> unit chan \<Rightarrow> world \<Rightarrow>
       (check_phase \<times> unit chan \<times> world) option" where
  "check_goroutine r Queued GoOn sm w = take_slot sm w"
| "check_goroutine r Holding GoOn sm w =
     (if IsInUse (heap w r) then release_slot sm w
      else Some (Looked (now w + HealthCheckTimeout (cfg w)), sm, w))"
| "check_goroutine r (Looked limit) GoOn sm w = start_probe r limit sm w"
| "check_goroutine r (Looked limit) ContextDone sm w = give_up r limit sm w"
| "check_goroutine r (Probing limit out t) TakeVerdict sm w =
     (if t \<le> now w then Some (Leaving, sm, check_done r (check_verdict out) w) else None)"
| "check_goroutine r (Probing limit out t) ContextDone sm w = give_up r limit sm w"
| "check_goroutine r Leaving GoOn sm w = release_slot sm w"
| "check_goroutine _ _ _ _ _ = None"

subsection \<open>The pass\<close>

record health_pass =
  checks :: "(ref \<times> check_phase) list"
  slots :: "unit chan"
  pool :: world

definition begin_pass :: "(ref list \<Rightarrow> ref list) \<Rightarrow> world \<Rightarrow> health_pass" where
  "begin_pass order w =
     \<lparr>checks = map (\<lambda>r. (r, Queued)) (getAllConnections order w), slots = make_chan 10, pool = w\<rparr>"

definition check_step :: "nat \<Rightarrow> check_choice \<Rightarrow> health_pass \<Rightarrow> health_pass option" where
  "check_step i choice s =
     (if length (checks s) \<le> i then None
      else
        (case checks s ! i of
           (r, ph) \<Rightarrow>
             (case check_goroutine r ph choice (slots s) (pool s) of
                None \<Rightarrow> None
              | Some (ph', sm, w) \<Rightarrow>
                  Some (s\<lparr>checks := (checks s)[i := (r, ph')], slots := sm, pool := w\<rparr>))))"

text \<open>\<^verbatim>\<open>wg.Wait\<close> returns when every goroutine has ended.\<close>

definition pass_over :: "health_pass \<Rightarrow> bool" where
  "pass_over s \<longleftrightarrow> (\<forall>p \<in> set (checks s). snd p = Over)"

inductive pass_move :: "health_pass \<Rightarrow> health_pass \<Rightarrow> bool" where
  check_moves: "check_step i choice s = Some s' \<Longrightarrow> pass_move s s'"
| pool_moves: "step (pool s) w \<Longrightarrow> few w \<Longrightarrow> pass_move s (s\<lparr>pool := w\<rparr>)"

inductive_cases pass_moveE: "pass_move s s'"

abbreviation pass_moves :: "health_pass \<Rightarrow> health_pass \<Rightarrow> bool" where
  "pass_moves \<equiv> pass_move\<^sup>*\<^sup>*"

text \<open>The goroutines that hold a slot, and the steps the goroutines still have before them.\<close>

fun holds_slot :: "check_phase \<Rightarrow> bool" where
  "holds_slot Queued = False"
| "holds_slot Over = False"
| "holds_slot _ = True"

definition holders :: "health_pass \<Rightarrow> nat" where
  "holders s = length (filter (\<lambda>p. holds_slot (snd p)) (checks s))"

fun steps_left :: "check_phase \<Rightarrow> nat" where
  "steps_left Queued = 5"
| "steps_left Holding = 4"
| "steps_left (Looked _) = 3"
| "steps_left (Probing _ _ _) = 2"
| "steps_left Leaving = 1"
| "steps_left Over = 0"

definition work :: "health_pass \<Rightarrow> nat" where
  "work s = sum_list (map (\<lambda>p. steps_left (snd p)) (checks s))"

subsection \<open>What one step does\<close>

lemmas goroutine_defs = take_slot_def release_slot_def give_up_def start_probe_def Let_def

lemma check_goroutine_light:
  "check_goroutine r ph choice sm w = Some (ph', sm', w') \<Longrightarrow> light w w'"
  by (cases ph; cases choice)
    (auto simp: goroutine_defs split: if_splits send_result.splits recv_result.splits)

lemma check_goroutine_effect:
  "check_goroutine r ph choice sm w = Some (ph', sm', w') \<Longrightarrow>
     steps_left ph' < steps_left ph \<and> chan_closed sm' = chan_closed sm \<and> chan_cap sm' = chan_cap sm \<and>
     length (buf sm') + of_bool (holds_slot ph) = length (buf sm) + of_bool (holds_slot ph') \<and>
     (length (buf sm) \<le> chan_cap sm \<longrightarrow> length (buf sm') \<le> chan_cap sm)"
  by (cases ph; cases choice)
    (auto simp: goroutine_defs chan_send_def chan_recv_def
      split: if_splits send_result.splits recv_result.splits list.splits)

lemmas check_goroutine_next =
  check_goroutine_effect [THEN conjunct1] check_goroutine_effect [THEN conjunct2]

text \<open>Updating one element of a list, in a count and in a sum.\<close>

lemma length_filter_update:
  "i < length xs \<Longrightarrow>
     length (filter P (xs[i := y])) + of_bool (P (xs ! i)) = length (filter P xs) + of_bool (P y)"
proof (induction xs arbitrary: i)
  case (Cons x xs)
  then show ?case by (cases i) (auto split: if_splits)
qed simp

lemma sum_list_update_less:
  fixes f :: "'a \<Rightarrow> nat"
  shows "i < length xs \<Longrightarrow> f y < f (xs ! i) \<Longrightarrow>
     sum_list (map f (xs[i := y])) < sum_list (map f xs)"
proof (induction xs arbitrary: i)
  case (Cons x xs)
  then show ?case by (cases i) auto
qed simp

lemma check_stepE:
  assumes "check_step i choice s = Some s'"
  obtains r ph ph' where "i < length (checks s)" "checks s ! i = (r, ph)"
    "check_goroutine r ph choice (slots s) (pool s) = Some (ph', slots s', pool s')"
    "checks s' = (checks s)[i := (r, ph')]"
  using assms by (auto simp: check_step_def split: if_splits prod.splits option.splits)

lemma check_step_work: "check_step i choice s = Some s' \<Longrightarrow> work s' < work s"
  by (erule check_stepE) (auto simp: work_def check_goroutine_next(1) intro!: sum_list_update_less)

subsection \<open>The invariant of a pass\<close>

definition pass_inv :: "health_pass \<Rightarrow> bool" where
  "pass_inv s \<longleftrightarrow>
     system_inv (pool s) \<and> chan_cap (slots s) = 10 \<and> \<not> chan_closed (slots s) \<and>
     length (buf (slots s)) = holders s \<and> holders s \<le> 10"

lemma light_system: "light w w' \<Longrightarrow> system_inv w \<Longrightarrow> system_inv w'"
  by (rule keeps_system [OF light_keeps]) (auto simp: system_inv_def few_def lightD light_all_closed)

lemma check_step_inv:
  assumes s: "check_step i choice s = Some s'" and I: "pass_inv s"
  shows "pass_inv s'"
  using s
proof (rule check_stepE)
  fix r ph ph'
  assume i: "i < length (checks s)" and at: "checks s ! i = (r, ph)"
    and g: "check_goroutine r ph choice (slots s) (pool s) = Some (ph', slots s', pool s')"
    and c: "checks s' = (checks s)[i := (r, ph')]"
  note n = check_goroutine_next [OF g]
  have "holders s' + of_bool (holds_slot ph) = holders s + of_bool (holds_slot ph')"
    using length_filter_update [OF i, of "\<lambda>p. holds_slot (snd p)" "(r, ph')"] at
    by (simp add: holders_def c)
  with n(2) I light_system [OF check_goroutine_light [OF g]] show ?thesis
    by (auto simp: pass_inv_def)
qed

lemma pass_move_inv: "pass_move s s' \<Longrightarrow> pass_inv s \<Longrightarrow> pass_inv s'"
proof (induction rule: pass_move.induct)
  case (check_moves i choice s s')
  then show ?case by (rule check_step_inv)
next
  case (pool_moves s w)
  then show ?case using step_system by (auto simp: pass_inv_def holders_def)
qed

lemma pass_move_work: "pass_move s s' \<Longrightarrow> work s' \<le> work s"
  by (induction rule: pass_move.induct) (auto dest: check_step_work simp: work_def)

lemma begin_pass_inv: "system_inv w \<Longrightarrow> pass_inv (begin_pass order w)"
  by (simp add: pass_inv_def begin_pass_def holders_def make_chan_def)

lemma pass_moves_inv: "pass_moves s s' \<Longrightarrow> pass_inv s \<Longrightarrow> pass_inv s' \<and> work s' \<le> work s"
  by (induction rule: rtranclp_induct) (auto intro: pass_move_inv dest: pass_move_work)

lemma begin_pass_work:
  assumes "permutes_all order"
  shows "work (begin_pass order w) = 5 * length (connections w)"
proof -
  have "mset (getAllConnections order w) = mset (map snd (connections w))"
    using assms by (simp add: permutes_all_def getAllConnections_def)
  then have "length (getAllConnections order w) = length (connections w)"
    by (metis length_map size_mset)
  moreover have "sum_list (map (\<lambda>p. steps_left (snd p)) (map (\<lambda>r. (r, Queued)) rs)) = 5 * length rs"
    for rs :: "ref list" by (induction rs) simp_all
  ultimately show ?thesis by (simp add: work_def begin_pass_def del: map_map)
qed

subsection \<open>A pass never gets stuck\<close>

definition wait_pass :: "nat \<Rightarrow> health_pass \<Rightarrow> health_pass" where
  "wait_pass d s = s\<lparr>pool := pass_time d (pool s)\<rparr>"

lemma wait_pass_work: "work (wait_pass d s) = work s"
  by (simp add: wait_pass_def work_def)

lemma holder_ready:
  assumes "holds_slot ph" and "buf sm \<noteq> []"
  shows "\<exists>d choice. check_goroutine r ph choice sm (pass_time d w) \<noteq> None"
proof -
  have later: "limit \<le> now (pass_time (nat (limit - now w)) w)" for limit
    by (simp add: pass_time_def)
  have up: "give_up r limit sm (pass_time (nat (limit - now w)) w) \<noteq> None" for limit
    using later by (simp add: give_up_def)
  have out: "release_slot sm w' \<noteq> None" for w'
    using assms(2) by (auto simp: release_slot_def chan_recv_def neq_Nil_conv)
  show ?thesis
  proof (cases ph)
    case Holding
    then have "check_goroutine r ph GoOn sm (pass_time 0 w) \<noteq> None" using out by simp
    then show ?thesis by blast
  next
    case (Looked limit)
    then have "check_goroutine r ph ContextDone sm (pass_time (nat (limit - now w)) w) \<noteq> None"
      using up by simp
    then show ?thesis by blast
  next
    case (Probing limit o' t)
    then have "check_goroutine r ph ContextDone sm (pass_time (nat (limit - now w)) w) \<noteq> None"
      using up by simp
    then show ?thesis by blast
  next
    case Leaving
    then have "check_goroutine r ph GoOn sm (pass_time 0 w) \<noteq> None" using out by simp
    then show ?thesis by blast
  qed (use assms(1) in simp_all)
qed

lemma pass_progress:
  assumes I: "pass_inv s" and open_pass: "\<not> pass_over s"
  shows "\<exists>d i choice s'. check_step i choice (wait_pass d s) = Some s'"
proof -
  have step: "\<exists>d i choice s'. check_step i choice (wait_pass d s) = Some s'"
    if "i < length (checks s)" "check_goroutine (fst (checks s ! i)) (snd (checks s ! i)) choice (slots s)
      (pass_time d (pool s)) \<noteq> None" for i choice d
  proof -
    have "check_step i choice (wait_pass d s) \<noteq> None"
      using that by (auto simp: check_step_def wait_pass_def split: prod.splits)
    then show ?thesis by blast
  qed
  from open_pass obtain j where j: "j < length (checks s)" "snd (checks s ! j) \<noteq> Over"
    by (auto simp: pass_over_def in_set_conv_nth)
  show ?thesis
  proof (cases "holders s = 0")
    case True
    then have "\<not> holds_slot (snd (checks s ! j))"
      using j(1) by (auto simp: holders_def filter_empty_conv)
    with j(2) have "snd (checks s ! j) = Queued" by (cases "snd (checks s ! j)") auto
    moreover have "chan_send () (slots s) = Sent ((slots s)\<lparr>buf := [()]\<rparr>)"
      using True I by (simp add: pass_inv_def chan_send_def)
    ultimately show ?thesis using step [OF j(1), of GoOn 0] by (simp add: take_slot_def)
  next
    case False
    then obtain i where i: "i < length (checks s)" "holds_slot (snd (checks s ! i))"
      by (auto simp: holders_def filter_empty_conv in_set_conv_nth)
    have "buf (slots s) \<noteq> []" using False I by (auto simp: pass_inv_def)
    from holder_ready [OF i(2) this] step [OF i(1)] show ?thesis by blast
  qed
qed

subsection \<open>One check after the other is one of the ways a pass can run\<close>

definition at_phase :: "nat \<Rightarrow> ref \<Rightarrow> check_phase \<Rightarrow> unit chan \<Rightarrow> world \<Rightarrow> health_pass \<Rightarrow> health_pass" where
  "at_phase i r ph sm w s = s\<lparr>checks := (checks s)[i := (r, ph)], slots := sm, pool := w\<rparr>"

lemma at_phase_simps [simp]:
  "pool (at_phase i r ph sm w s) = w" "slots (at_phase i r ph sm w s) = sm"
  "at_phase i r ph' sm' w' (at_phase i r ph sm w s) = at_phase i r ph' sm' w' s"
  "(at_phase i r ph sm w s)\<lparr>pool := w'\<rparr> = at_phase i r ph sm w' s"
  by (simp_all add: at_phase_def)

lemma goroutine_move:
  assumes "i < length (checks s)" and "check_goroutine r ph choice sm w = Some (ph', sm', w')"
  shows "pass_moves (at_phase i r ph sm w s) (at_phase i r ph' sm' w' s)"
proof -
  have "check_step i choice (at_phase i r ph sm w s) = Some (at_phase i r ph' sm' w' s)"
    using assms by (simp add: check_step_def at_phase_def)
  then show ?thesis by (blast intro: check_moves)
qed

lemma time_move:
  assumes "few w" shows "pass_moves (at_phase i r ph sm w s) (at_phase i r ph sm (pass_until t w) s)"
proof -
  have "pass_until t w = pass_time (nat (t - now w)) w" by (simp add: pass_until_def pass_time_def)
  moreover have "few (pass_time n w)" for n using assms by (simp add: few_def pass_time_def)
  ultimately have "pass_move (at_phase i r ph sm w s) (at_phase i r ph sm (pass_until t w) s)"
    using pool_moves [where s = "at_phase i r ph sm w s" and w = "pass_time (nat (t - now w)) w"]
    by (simp add: step_time)
  then show ?thesis by blast
qed

text \<open>Which coin comes next makes no difference to a check.\<close>

lemma coins_commute [simp]:
  "check_done r b (w\<lparr>coins := k\<rparr>) = (check_done r b w)\<lparr>coins := k\<rparr>"
  "check_timeout r (w\<lparr>coins := k\<rparr>) = (check_timeout r w)\<lparr>coins := k\<rparr>"
  "pass_until t (w\<lparr>coins := k\<rparr>) = (pass_until t w)\<lparr>coins := k\<rparr>"
  "external (w\<lparr>coins := k\<rparr>) = (external w)\<lparr>coins := k\<rparr>"
  by (simp_all add: check_done_def check_timeout_def Let_def with_stats_def upd_conn_def
      pass_until_def external_def)

lemma few_same [simp]:
  "few (w\<lparr>coins := k\<rparr>) = few w" "few (pass_until t w) = few w" "few (external w) = few w"
  "few (check_timeout r w) = few w" "few (check_done r b w) = few w"
  by (simp_all add: few_def check_done_def check_timeout_def Let_def with_stats_def upd_conn_def
      pass_until_def external_def)

definition one_slot :: "unit chan" where
  "one_slot = (make_chan 10)\<lparr>buf := [()]\<rparr>"

lemma slot_moves:
  "take_slot (make_chan 10) w = Some (Holding, one_slot, w)"
  "release_slot one_slot w = Some (Over, make_chan 10, w)"
  by (simp_all add: take_slot_def release_slot_def one_slot_def make_chan_def chan_send_def chan_recv_def)

lemma one_check:
  assumes i: "i < length (checks s)" and few: "few w"
  shows "pass_moves (at_phase i r Queued (make_chan 10) (w\<lparr>coins := k\<rparr>) s)
    (at_phase i r Over (make_chan 10) ((checkConnection r w)\<lparr>coins := k\<rparr>) s)"
proof -
  let ?at = "\<lambda>ph w. at_phase i r ph one_slot w s" and ?T = "HealthCheckTimeout (cfg w)"
  let ?w = "w\<lparr>coins := k\<rparr>" and ?goal = "at_phase i r Over (make_chan 10) ((checkConnection r w)\<lparr>coins := k\<rparr>) s"
  note go = goroutine_move [OF i]
  have enter: "pass_moves (at_phase i r Queued (make_chan 10) ?w s) (?at Holding ?w)"
    by (rule go [where choice = GoOn]) (simp add: slot_moves)
  have leave: "pass_moves (?at Leaving w') (at_phase i r Over (make_chan 10) w' s)" for w'
    by (rule go [where choice = GoOn]) (simp add: slot_moves)
  have "pass_moves (?at Holding ?w) ?goal"
  proof (cases "IsInUse (heap w r)")
    case True
    then have "checkConnection r w = w" by (simp add: checkConnection_def)
    then show ?thesis using go [of r Holding GoOn one_slot ?w] True by (simp add: slot_moves)
  next
    case False
    let ?limit = "now w + ?T"
    have look: "pass_moves (?at Holding ?w) (?at (Looked ?limit) ?w)"
      by (rule go [where choice = GoOn]) (simp add: False)
    show ?thesis
    proof (cases "?T \<le> 0")
      case True
      have "pass_moves (?at (Looked ?limit) ?w) (?at Leaving (check_timeout r ?w))"
        by (rule go [where choice = ContextDone]) (simp add: give_up_def True)
      with look leave [of "check_timeout r ?w"] show ?thesis
        using False True by (simp add: checkConnection_def)
    next
      case pos: False
      let ?out = "performCheck (cfg w) (GetConn (heap w r)) (ext_calls w)"
      let ?t = "now w + int (check_time ?out)" and ?w1 = "external ?w"
      let ?ph = "Probing ?limit ?out ?t"
      have probe: "pass_moves (?at (Looked ?limit) ?w) (?at ?ph ?w1)"
        by (rule go [where choice = GoOn]) (use pos in \<open>simp add: start_probe_def Let_def\<close>)
      have wait: "pass_moves (?at ?ph ?w1) (?at ?ph (pass_until t ?w1))" for t
        by (rule time_move) (simp add: few)
      have verdict: "pass_moves (?at ?ph (pass_until ?t ?w1))
          (?at Leaving (check_done r (check_verdict ?out) (pass_until ?t ?w1)))"
        by (rule go [where choice = TakeVerdict]) (simp add: pass_until_def)
      have gone: "pass_moves (?at ?ph (pass_until t ?w1)) (?at Leaving (check_timeout r (pass_until t ?w1)))"
        if "?limit \<le> t" for t
        by (rule go [where choice = ContextDone]) (use that in \<open>simp add: give_up_def pass_until_def\<close>)
      have more: "pass_moves (?at Leaving w') (?at Leaving (pass_until t w'))" if "few w'" for t w'
        by (rule time_move [OF that])
      note start = rtranclp_trans [OF look rtranclp_trans [OF probe wait]]
      have done_at: "pass_moves (?at Holding ?w)
          (at_phase i r Over (make_chan 10) (check_done r (check_verdict ?out) (pass_until ?t ?w1)) s)"
        by (rule rtranclp_trans [OF start rtranclp_trans [OF verdict leave]])
      have late_at: "pass_moves (?at Holding ?w)
          (at_phase i r Over (make_chan 10) (pass_until t' (check_timeout r (pass_until t ?w1))) s)"
        if "?limit \<le> t" for t t'
        by (rule rtranclp_trans [OF start rtranclp_trans [OF gone [OF that]
              rtranclp_trans [OF more leave]]]) (simp add: few)
      have now_at: "pass_moves (?at Holding ?w)
          (at_phase i r Over (make_chan 10) (check_timeout r (pass_until ?t ?w1)) s)" if "?limit \<le> ?t"
        by (rule rtranclp_trans [OF start rtranclp_trans [OF gone [OF that] leave]])
      from False pos show ?thesis
        using done_at late_at [of ?limit "min ?t (?limit + 100 * Millisecond)"] now_at
        by (cases "?t < ?limit"; cases "?t = ?limit")
          (auto simp: checkConnection_def Let_def flip_def split: bool.split)
    qed
  qed
  with enter show ?thesis by (rule rtranclp_trans)
qed

lemma checkConnection_few [simp]: "few (checkConnection r w) = few w"
  using lightD(6) [OF checkConnection_light [of w r]] lightD [OF checkConnection_light [of w r]]
  by (simp add: few_def)

lemma checks_one_by_one:
  assumes "few w"
  shows "pass_moves
     \<lparr>checks = map (\<lambda>r. (r, Over)) ds @ map (\<lambda>r. (r, Queued)) rs, slots = make_chan 10, pool = w\<lparr>coins := k\<rparr>\<rparr>
     \<lparr>checks = map (\<lambda>r. (r, Over)) (ds @ rs), slots = make_chan 10,
       pool = (sweep checkConnection rs w)\<lparr>coins := k\<rparr>\<rparr>"
  using assms
proof (induction rs arbitrary: ds w)
  case (Cons r rs)
  let ?s = "\<lparr>checks = map (\<lambda>r. (r, Over)) ds @ map (\<lambda>r. (r, Queued)) (r # rs), slots = make_chan 10,
    pool = w\<lparr>coins := k\<rparr>\<rparr>"
  have "pass_moves (at_phase (length ds) r Queued (make_chan 10) (w\<lparr>coins := k\<rparr>) ?s)
      (at_phase (length ds) r Over (make_chan 10) ((checkConnection r w)\<lparr>coins := k\<rparr>) ?s)"
    by (rule one_check) (use Cons.prems in simp_all)
  moreover have "at_phase (length ds) r ph (make_chan 10) w' ?s =
      \<lparr>checks = map (\<lambda>r. (r, Over)) ds @ (r, ph) # map (\<lambda>r. (r, Queued)) rs, slots = make_chan 10, pool = w'\<rparr>"
    for ph w' by (simp add: at_phase_def list_update_append)
  ultimately show ?case
    using Cons.IH [of "checkConnection r w" "ds @ [r]"] Cons.prems by simp
qed simp

lemma pass_one_by_one:
  assumes "few w"
  shows "\<exists>s. pass_moves (begin_pass order w) s \<and> pass_over s \<and>
    pool s = (performHealthCheck order w)\<lparr>coins := coins w\<rparr>"
  using checks_one_by_one [OF assms, of "[]" "getAllConnections order w" "coins w"]
  by (intro exI [of _ "\<lparr>checks = map (\<lambda>r. (r, Over)) (getAllConnections order w), slots = make_chan 10,
       pool = (performHealthCheck order w)\<lparr>coins := coins w\<rparr>\<rparr>"])
    (simp add: begin_pass_def pass_over_def performHealthCheck_def)

subsection \<open>A connection lent between the look and the verdict\<close>

lemma check_in_use:
  "InUse (heap (check_timeout r w) x) = InUse (heap w x)"
  "InUse (heap (check_done r b w) x) = InUse (heap w x)"
  by (simp_all add: check_timeout_def check_done_def Let_def with_stats_def upd_conn_def UpdateHealth_def)

lemma check_cfg: "cfg (check_timeout r w) = cfg w" "cfg (check_done r b w) = cfg w"
  by (simp_all add: check_timeout_def check_done_def Let_def with_stats_def upd_conn_def)

lemma bad_verdict:
  assumes "i < length (checks s)" and "checks s ! i = (r, Probing limit out t)"
    and "limit \<le> now (pool s) \<or> t \<le> now (pool s) \<and> check_verdict out = False"
  shows "\<exists>choice s'. check_step i choice s = Some s' \<and>
    (pool s' = check_timeout r (pool s) \<or> pool s' = check_done r False (pool s))"
  using assms(3)
proof
  assume "limit \<le> now (pool s)"
  then have "\<exists>s'. check_step i ContextDone s = Some s' \<and> pool s' = check_timeout r (pool s)"
    using assms(1,2) by (simp add: check_step_def give_up_def)
  then show ?thesis by blast
next
  assume "t \<le> now (pool s) \<and> check_verdict out = False"
  then have "\<exists>s'. check_step i TakeVerdict s = Some s' \<and> pool s' = check_done r False (pool s)"
    using assms(1,2) by (simp add: check_step_def)
  then show ?thesis by blast
qed

lemma unhealthy_put:
  assumes "EnableHealthCheck (cfg w)" and "\<not> IsHealthy (heap w r)"
  shows "Put (Some r) w = closeConnection (Some r) w"
  using assms by (simp add: Put_def valid_iff)

end
