(* ===== verification/Pool_Counters.thy ===== *)
theory Pool_Counters
  imports Pool_Concurrent
begin

text \<open>
  The counters of the statistics that do not follow the connections: those of idle and active
  connections, which \<^verbatim>\<open>Put\<close> moves and closing does not, and those by protocol and IP version,
  which \<^verbatim>\<open>Close\<close> leaves as they are.
\<close>

definition counted :: "(stats \<Rightarrow> int64) \<Rightarrow> world \<Rightarrow> int64 option" where
  "counted f w = map_option f (collector w)"

lemma counted_cases:
  "counted f w = None \<longleftrightarrow> collector w = None"
  "counted f w = Some n \<longleftrightarrow> (\<exists>s. collector w = Some s \<and> f s = n)"
  by (simp_all add: counted_def)

subsection \<open>Idle and active connections\<close>

lemma count_live_others:
  "CurrentIdleConnections (count_live d c t s) = CurrentIdleConnections s"
  "CurrentActiveConnections (count_live d c t s) = CurrentActiveConnections s"
  by (simp_all add: count_live_def Let_def stats_defs split: ip_version.split protocol.split)

lemma closeConnection_counted:
  assumes "closeConnection (Some r) w = (res, w')"
  shows "counted CurrentIdleConnections w' = counted CurrentIdleConnections w"
    "counted CurrentActiveConnections w' = counted CurrentActiveConnections w"
  by (simp_all add: counted_def closeConnection_frame(17) [OF assms] option.map_comp comp_def count_live_others stats_defs)

lemma clear_if_udp_collector [simp]: "collector (clear_if_udp r w) = collector w"
  by (simp add: clear_if_udp_def ClearUDPReadBufferNonBlocking_def emit_def Let_def
      split: option.split send_result.split prod.split)

lemma put_prepare_counted:
  "counted CurrentIdleConnections (put_prepare r w) = counted CurrentIdleConnections w"
  "counted CurrentActiveConnections (put_prepare r w) = map_option (\<lambda>n. n - 1) (counted CurrentActiveConnections w)"
  by (simp_all add: put_prepare_def counted_def call_OnReturn_def emit_def Let_def option.map_comp comp_def stats_defs)

lemma count_idle_others:
  "CurrentIdleConnections (count_idle_version d c t s) = CurrentIdleConnections s"
  "CurrentActiveConnections (count_idle_version d c t s) = CurrentActiveConnections s"
  "CurrentIdleConnections (count_idle_protocol d c t s) = CurrentIdleConnections s"
  "CurrentActiveConnections (count_idle_protocol d c t s) = CurrentActiveConnections s"
  by (simp_all add: count_idle_version_def count_idle_protocol_def stats_defs split: ip_version.split protocol.split)

lemma put_counted_counted:
  "counted CurrentIdleConnections (put_counted r w) = map_option (\<lambda>n. n + 1) (counted CurrentIdleConnections w)"
  "counted CurrentActiveConnections (put_counted r w) = counted CurrentActiveConnections w"
  by (simp_all add: put_counted_def counted_def option.map_comp comp_def count_idle_others)
    (simp_all add: stats_defs)

lemma Put_counted:
  assumes "inv_core w" "r < next_ref w" "Put (Some r) w = (res, w')" and "\<not> pool_closed w" "isConnectionValid (Some r) w"
  shows "counted CurrentActiveConnections w' = map_option (\<lambda>n. n - 1) (counted CurrentActiveConnections w)"
    "counted CurrentIdleConnections w' =
       (if chan_cap (idle_of (Protocol (heap w r)) w) \<le> length (buf (idle_of (Protocol (heap w r)) w))
        then counted CurrentIdleConnections w else map_option (\<lambda>n. n + 1) (counted CurrentIdleConnections w))"
proof -
  have set_idle: "counted f (set_idle p ch v) = counted f v" for f p ch v
    by (simp add: counted_def set_idle_def)
  from assms(1-3) have "counted CurrentActiveConnections w' = map_option (\<lambda>n. n - 1) (counted CurrentActiveConnections w) \<and>
    counted CurrentIdleConnections w' =
       (if chan_cap (idle_of (Protocol (heap w r)) w) \<le> length (buf (idle_of (Protocol (heap w r)) w))
        then counted CurrentIdleConnections w else map_option (\<lambda>n. n + 1) (counted CurrentIdleConnections w))"
  proof (cases rule: Put_cases)
    case closed
    with assms(4,5) show ?thesis by simp
  next
    case full
    then show ?thesis by (simp add: closeConnection_counted put_prepare_counted)
  next
    case (stored ch b)
    from stored(4) have "\<not> chan_cap (idle_of (Protocol (heap w r)) w) \<le> length (buf (idle_of (Protocol (heap w r)) w))"
      by (simp add: chan_cases)
    moreover have "counted f w' = counted f (put_counted r (set_idle (Protocol (heap w r)) ch (put_prepare r w)))" for f
      by (simp add: counted_def only_queuesD(15) [OF stored(7)])
    ultimately show ?thesis by (simp add: put_counted_counted set_idle put_prepare_counted)
  qed
  then show "counted CurrentActiveConnections w' = map_option (\<lambda>n. n - 1) (counted CurrentActiveConnections w)"
    "counted CurrentIdleConnections w' =
       (if chan_cap (idle_of (Protocol (heap w r)) w) \<le> length (buf (idle_of (Protocol (heap w r)) w))
        then counted CurrentIdleConnections w else map_option (\<lambda>n. n + 1) (counted CurrentIdleConnections w))"
    by blast+
qed

subsection \<open>The counters by protocol and IP version\<close>

lemma aside_classes: "aside w w' \<Longrightarrow> counted (class_counter k) w' = counted (class_counter k) w"
  by (auto simp: aside_def books_agree_def same_books_def counted_def split: option.splits)

lemma close_each_classes:
  "close_each rs err w = (e, w') \<Longrightarrow> counted (class_counter k) w' = counted (class_counter k) w"
proof (induction rs err w rule: close_each.induct)
  case (2 r rs err w)
  obtain e1 w1 where c: "close_wrapper r w = (e1, w1)" by (cases "close_wrapper r w")
  have "class_counter k (IncrementTotalConnectionsClosed t s) = class_counter k s" for t s
    by (cases k) (simp_all add: stats_defs)
  then have "counted (class_counter k) (with_stats IncrementTotalConnectionsClosed w1) = counted (class_counter k) w"
    by (simp add: counted_def close_wrapper_frame(14) [OF c] option.map_comp comp_def)
  with 2 c show ?case by simp
qed simp

lemma Close_classes:
  assumes c: "Close order w = (res, w')" and res: "res \<noteq> Panic" "res \<noteq> Hang"
  shows "counted (class_counter k) w' = counted (class_counter k) w"
proof (cases "close_once w")
  case True
  with c show ?thesis by (simp add: Close_def)
next
  case False
  with c res show ?thesis
  proof (rule Close_parts, goal_cases)
    case (1 v wa u w1 err w2 t)
    from 1(1) have "counted (class_counter k) wa = counted (class_counter k) w"
      by (auto simp: close_signal_def counted_def split: if_splits)
    moreover have "aside wa w1" "aside w2 w'"
      using 1(2,4) close_managers_aside close_channels_aside by (auto simp: asides_def)
    moreover have "counted (class_counter k) w2 = counted (class_counter k) (w1\<lparr>connections := []\<rparr>)"
      using 1(3) by (intro close_each_classes) (simp add: close_connections_def)
    moreover have "counted (class_counter k) (w1\<lparr>connections := []\<rparr>) = counted (class_counter k) w1"
      by (simp add: counted_def)
    ultimately show ?case by (simp add: aside_classes)
  qed
qed

lemma class_counter_GetStats [simp]: "class_counter k (GetStats s) = class_counter k s"
  by (cases k) (simp_all add: GetStats_def)

end
