(* ===== verification/Pool_Examples.thy ===== *)
theory Pool_Examples
  imports Pool_Races Pool_Health_Pass Pool_Counters
begin

text \<open>
  Concrete configurations, connections and states, on which the definitions are evaluated: a
  client pool whose dialer always answers, with the environment of a program that has just
  started.
\<close>

definition tcp4 :: net_conn where
  "tcp4 = \<lparr>nc_id = 1, RemoteAddr = Some (TCPAddr (Some [10, 0, 0, 1])), LocalAddr = None,
     is_UDPConn = False, close_answer = None, read_answer = (\<lambda>_ _. ReadErr (NetError True 0) 0)\<rparr>"

definition udp6 :: net_conn where
  "udp6 = \<lparr>nc_id = 2,
     RemoteAddr = Some (UDPAddr (Some [32, 1, 13, 184, 0, 0, 0, 0, 0, 0, 0, 0, 0, 0, 0, 1])),
     LocalAddr = None, is_UDPConn = True, close_answer = Some (OtherError 7),
     read_answer = (\<lambda>_ _. ReadErr (NetError True 0) 0)\<rparr>"

definition dial_always :: "net_conn \<Rightarrow> nat \<Rightarrow> dial_outcome" where
  "dial_always nc _ = \<lparr>dial_conn = Some nc, dial_err = None, dial_time = 1000\<rparr>"

definition small_config :: "net_conn \<Rightarrow> int \<Rightarrow> int \<Rightarrow> config" where
  "small_config nc lo hi =
     DefaultConfig\<lparr>MinConnections := lo, MaxConnections := hi, Dialer := Some (dial_always nc)\<rparr>"

definition start_world :: world where
  "start_world = \<lparr>
     cfg = DefaultConfig, connections = [], idleTCP = make_chan 0, idleUDP = make_chan 0,
     pool_closed = False, close_once = False, closeChan_closed = False,
     healthCheckManager = new_manager, cleanupManager = new_manager, leakDetector = new_manager,
     collector = None, waitQueue = make_chan 0, waitQueueIPv4 = make_chan 0,
     waitQueueIPv6 = make_chan 0, waitQueueTCP = make_chan 0, waitQueueUDP = make_chan 0,
     createSemaphore = make_chan 0,
     heap = (\<lambda>_. NewConnection 0 0 None None), next_ref = 0, generator = 0,
     udpCleanupSemaphore = make_chan 10, waiters = (\<lambda>_. None), next_wid = 0,
     now = 0, ext_calls = 0, coin = (\<lambda>_. True), coins = 0, trace = []\<rparr>"

text \<open>Facts on one state are evaluated together, so that the state is evaluated once.\<close>

definition seen :: "'a \<Rightarrow> ('a \<Rightarrow> bool) \<Rightarrow> bool" where
  "seen w P = P w"

lemma seenD: "seen w P \<Longrightarrow> P w"
  by (simp add: seen_def)

text \<open>A pool of at most one connection, none made yet; and the pool after one was borrowed.\<close>

definition pool1 :: world where
  "pool1 = snd (NewPool (small_config tcp4 0 1) start_world)"

definition pool1_lent :: world where
  "pool1_lent = snd (GetTCP Background pool1)"

text \<open>A pool whose connection has been returned, and the closed pool.\<close>

definition pool1_idle :: world where
  "pool1_idle = snd (Put (Some 0) pool1_lent)"

definition pool1_closed :: world where
  "pool1_closed = snd (Close (\<lambda>rs. rs) pool1_idle)"

lemma pool1_made: "NewPool (small_config tcp4 0 1) start_world = (Ok (), pool1)"
proof -
  have "fst (NewPool (small_config tcp4 0 1) start_world) = Ok ()" by code_simp
  then show ?thesis by (simp add: pool1_def prod_eq_iff)
qed

lemma pool1_values: "next_ref pool1 = 0" "\<not> pool_closed pool1" "MaxConnections (cfg pool1) = 1"
  by (atomize (full), rule seenD [of pool1], code_simp)

lemma pool1_reachable: "reachable (small_config tcp4 0 1) pool1"
  by (rule started [OF pool1_made]) (simp add: few_def pool1_values)

lemma pool1_lent_step: "GetTCP Background pool1 = (GotConn 0, pool1_lent)"
proof -
  have "fst (GetTCP Background pool1) = GotConn 0" by code_simp
  then show ?thesis by (simp add: pool1_lent_def prod_eq_iff)
qed

lemma pool1_lent_values:
  "next_ref pool1_lent = 1" "\<not> pool_closed pool1_lent" "isConnectionValid (Some 0) pool1_lent"
  "length (buf (idle_of ProtocolTCP pool1_lent)) = 0" "MaxIdleConnections (cfg pool1_lent) = 1"
  "Protocol (heap pool1_lent 0) = ProtocolTCP" "InUse (heap pool1_lent 0)"
  by (atomize (full), rule seenD [of pool1_lent], code_simp)

lemma pool1_lent_reachable: "reachable (small_config tcp4 0 1) pool1_lent"
proof (rule moved [OF pool1_reachable])
  show "step pool1 pool1_lent"
    using pool1_lent_step unfolding GetTCP_def by (rule step_get_protocol)
qed (simp add: few_def pool1_lent_values)

lemma pool1_idle_step: "Put (Some 0) pool1_lent = (Ok (), pool1_idle)"
proof -
  have "fst (Put (Some 0) pool1_lent) = Ok ()" by code_simp
  then show ?thesis by (simp add: pool1_idle_def prod_eq_iff)
qed

lemma pool1_idle_values: "next_ref pool1_idle = 1" "\<not> pool_closed pool1_idle" "\<not> close_once pool1_idle"
  by (atomize (full), rule seenD [of pool1_idle], code_simp)

lemma pool1_idle_reachable: "reachable (small_config tcp4 0 1) pool1_idle"
proof (rule moved [OF pool1_lent_reachable])
  show "step pool1_lent pool1_idle"
    using pool1_idle_step by (rule step_put [rotated]) (simp add: pool1_lent_values)
qed (simp add: few_def pool1_idle_values)

lemma pool1_closed_step: "Close (\<lambda>rs. rs) pool1_idle = (Ok (), pool1_closed)"
proof -
  have "fst (Close (\<lambda>rs. rs) pool1_idle) = Ok ()" by code_simp
  then show ?thesis by (simp add: pool1_closed_def prod_eq_iff)
qed

lemma pool1_closed_values: "next_ref pool1_closed = 1" "pool_closed pool1_closed"
  by (atomize (full), rule seenD [of pool1_closed], code_simp)

lemma pool1_closed_reachable: "reachable (small_config tcp4 0 1) pool1_closed"
proof (rule moved [OF pool1_idle_reachable])
  show "step pool1_idle pool1_closed"
    using pool1_closed_step by (rule step_close [rotated]) simp
qed (simp add: few_def pool1_closed_values)

subsection \<open>A goroutine that waits\<close>

text \<open>
  A second caller finds the pool at its limit and waits in the queue for TCP connections; the
  first returns its connection; the second takes it.
\<close>

definition pool1_asked :: world where
  "pool1_asked = snd (GetTCP Background pool1_lent)"

definition pool1_queued :: world where
  "pool1_queued = the (wait_step 0 JoinQueue pool1_asked)"

definition pool1_served :: world where
  "pool1_served = snd (Put (Some 0) pool1_queued)"

definition pool1_taken :: world where
  "pool1_taken = the (wait_step 0 TakeConn pool1_served)"

lemma pool1_asked_step: "GetTCP Background pool1_lent = (GotWait 0, pool1_asked)"
proof -
  have "fst (GetTCP Background pool1_lent) = GotWait 0" by code_simp
  then show ?thesis by (simp add: pool1_asked_def prod_eq_iff)
qed

lemma pool1_queued_step: "wait_step 0 JoinQueue pool1_asked = Some pool1_queued"
proof -
  have "wait_step 0 JoinQueue pool1_asked \<noteq> None" by code_simp
  then show ?thesis by (auto simp: pool1_queued_def)
qed

lemma pool1_served_step: "Put (Some 0) pool1_queued = (Ok (), pool1_served)"
proof -
  have "fst (Put (Some 0) pool1_queued) = Ok ()" by code_simp
  then show ?thesis by (simp add: pool1_served_def prod_eq_iff)
qed

lemma pool1_taken_step: "wait_step 0 TakeConn pool1_served = Some pool1_taken"
proof -
  have "wait_step 0 TakeConn pool1_served \<noteq> None" by code_simp
  then show ?thesis by (auto simp: pool1_taken_def)
qed

lemma pool1_asked_values: "next_ref pool1_asked = 1"
  by code_simp

lemma pool1_queued_values:
  "next_ref pool1_queued = 1" "\<not> pool_closed pool1_queued"
  "isConnectionValid (Some 0) pool1_queued" "Protocol (heap pool1_queued 0) = ProtocolTCP"
  "buf (idleTCP pool1_queued) = []" "buf (waitQueueTCP pool1_queued) = [0]"
  "MaxIdleConnections (cfg pool1_queued) = 1"
  by (atomize (full), rule seenD [of pool1_queued], code_simp)

lemma pool1_queued_waiter:
  "\<exists>wt. waiters pool1_queued 0 = Some wt \<and> w_phase wt = Waiting \<and> w_chan wt = make_chan 1 \<and>
     w_kind wt = WaitProtocol ProtocolTCP"
proof -
  have "case waiters pool1_queued 0 of None \<Rightarrow> False
    | Some wt \<Rightarrow> w_phase wt = Waiting \<and> w_chan wt = make_chan 1 \<and> w_kind wt = WaitProtocol ProtocolTCP"
    by code_simp
  then show ?thesis by (auto split: option.splits)
qed

lemma pool1_served_values: "next_ref pool1_served = 1" "buf (idleTCP pool1_served) = [0]"
  "\<not> pool_closed pool1_served"
  by (atomize (full), rule seenD [of pool1_served], code_simp)

lemma pool1_served_waiter:
  "\<exists>wt. waiters pool1_served 0 = Some wt \<and> w_phase wt = Waiting \<and> buf (w_chan wt) = [0] \<and>
     \<not> chan_closed (w_chan wt) \<and> w_kind wt = WaitProtocol ProtocolTCP"
proof -
  have "case waiters pool1_served 0 of None \<Rightarrow> False
    | Some wt \<Rightarrow> w_phase wt = Waiting \<and> buf (w_chan wt) = [0] \<and> \<not> chan_closed (w_chan wt) \<and>
        w_kind wt = WaitProtocol ProtocolTCP"
    by code_simp
  then show ?thesis by (auto split: option.splits)
qed

lemma pool1_taken_values: "next_ref pool1_taken = 1" "\<not> pool_closed pool1_taken"
  by (atomize (full), rule seenD [of pool1_taken], code_simp)

lemma pool1_taken_waiter: "\<exists>wt. waiters pool1_taken 0 = Some wt \<and> w_phase wt = Finished (Ok 0)"
proof -
  have "case waiters pool1_taken 0 of None \<Rightarrow> False | Some wt \<Rightarrow> w_phase wt = Finished (Ok 0)"
    by code_simp
  then show ?thesis by (auto split: option.splits)
qed

lemma pool1_asked_reachable: "reachable (small_config tcp4 0 1) pool1_asked"
proof (rule moved [OF pool1_lent_reachable])
  show "step pool1_lent pool1_asked"
    using pool1_asked_step unfolding GetTCP_def by (rule step_get_protocol)
qed (simp add: few_def pool1_asked_values)

lemma pool1_queued_reachable: "reachable (small_config tcp4 0 1) pool1_queued"
  by (rule moved [OF pool1_asked_reachable step_wait [OF pool1_queued_step]])
    (simp add: few_def pool1_queued_values)

lemma pool1_served_reachable: "reachable (small_config tcp4 0 1) pool1_served"
proof (rule moved [OF pool1_queued_reachable])
  show "step pool1_queued pool1_served"
    using pool1_served_step by (rule step_put [rotated]) (simp add: pool1_queued_values)
qed (simp add: few_def pool1_served_values)

lemma pool1_taken_reachable: "reachable (small_config tcp4 0 1) pool1_taken"
  by (rule moved [OF pool1_served_reachable step_wait [OF pool1_taken_step]])
    (simp add: few_def pool1_taken_values)

lemma pool1_honest: "honest (cfg pool1)"
  unfolding NewPool_system(3) [OF pool1_made few_def [THEN iffD2], unfolded pool1_values, simplified]
  by (simp add: honest_def answers_def small_config_def DefaultConfig_def dial_always_def
      Validate_defs duration_defs)

lemma pool1_dials: "cfg v = cfg pool1 \<Longrightarrow> fst (create_dial Background v) = Ok (Some tcp4)"
  unfolding NewPool_system(3) [OF pool1_made few_def [THEN iffD2], unfolded pool1_values, simplified]
  by (simp add: create_dial_def ask_def pass_time_def external_def small_config_def DefaultConfig_def
      dial_always_def Validate_defs duration_defs)

lemma pool1_answers: "answers_always (cfg pool1)"
  using pool1_dials by (simp add: answers_always_def prod_eq_iff)

text \<open>Five callers create a connection at once.\<close>

definition pool1_five :: world where
  "pool1_five = publish_many 5 (Some tcp4)
     (dial_many 5 Background (pool1\<lparr>createSemaphore := (make_chan 5)\<lparr>buf := replicate 5 ()\<rparr>\<rparr>))"

lemma pool1_five_values:
  "length (connections pool1_five) = 5" "next_ref pool1_five = 5" "MaxConnections (cfg pool1_five) = 1"
  by (atomize (full), rule seenD [of pool1_five], code_simp)

lemma pool1_five_concurrent: "concurrent (small_config tcp4 0 1) (pool1_five, {#})"
proof -
  let ?sem = "\<lambda>i. (make_chan 5)\<lparr>buf := replicate i ()\<rparr>"
  let ?w = "pool1\<lparr>createSemaphore := ?sem 5\<rparr>"
  have "createSemaphore pool1 = make_chan 5"
    using pool_invD(10) [OF reachableD(1) [OF pool1_reachable]] by (simp add: sem_ok_def)
  then have start: "pool1\<lparr>createSemaphore := ?sem 0\<rparr> = pool1" by (simp add: make_chan_def)
  have "isteps (pool1\<lparr>createSemaphore := ?sem 0\<rparr>, {#}) (?w, replicate_mset 5 (Checking Background) + {#})"
    by (rule acquires_many) (simp add: create_acquire_def chan_send_def make_chan_def replicate_append_same)
  also have "isteps (?w, replicate_mset 5 (Checking Background) + {#})
      (?w, replicate_mset 5 (Dialing Background) + {#})"
    by (rule passes_many) code_simp
  also have "isteps (?w, replicate_mset 5 (Dialing Background) + {#})
      (dial_many 5 Background ?w, replicate_mset 5 (Wrapping (Some tcp4)) + {#})"
    by (rule dials_many) (simp add: pool1_dials)
  also note publishes_many
  finally show ?thesis unfolding start pool1_five_def [symmetric]
    by (rule isteps_concurrent [OF _ reachable_concurrent [OF pool1_reachable]])
      (simp add: few_def pool1_five_values)
qed

subsection \<open>A quiet connection\<close>

text \<open>A connection on which nothing ever arrives: a read ends \<open>late\<close> nanoseconds after its deadline.\<close>

definition quiet_conn :: "nat \<Rightarrow> net_conn" where
  "quiet_conn late = tcp4\<lparr>read_answer := (\<lambda>_ d. ReadErr (NetError True 0) (nat d + late))\<rparr>"

definition quiet_world :: "nat \<Rightarrow> world" where
  "quiet_world late = start_world\<lparr>
     heap := (\<lambda>_. NewConnection 0 0 (Some (quiet_conn late)) None)\<rparr>"


subsection \<open>Two numbers\<close>

text \<open>
  \<^verbatim>\<open>Put\<close> takes a connection off the count of active ones that the warm-up never put there: a new
  pool with two connections reports minus two.
\<close>

lemma warm_up_counts_below_zero:
  "\<exists>w s. NewPool (small_config tcp4 2 3) start_world = (Ok (), w) \<and> collector w = Some s \<and>
     sint (CurrentActiveConnections s) = - 2"
proof -
  let ?z = "NewPool (small_config tcp4 2 3) start_world"
  have "fst ?z = Ok ()"
    "case collector (snd ?z) of None \<Rightarrow> False | Some s \<Rightarrow> sint (CurrentActiveConnections s) = - 2"
    by (atomize (full), rule seenD [of ?z], code_simp)
  then show ?thesis by (cases ?z) (auto split: option.splits)
qed

text \<open>
  The cap on the timeout of the warm-up comes after the product, which has wrapped by then: it can
  be negative, and the context is done before anything is dialled.
\<close>

lemma warm_timeout_wraps:
  "warm_timeout ((small_config tcp4 2 3)\<lparr>ConnectionTimeout := 5 * 10 ^ 18\<rparr>) < 0"
  by (simp add: warm_timeout_def small_config_def DefaultConfig_def dur_times_def wrap64_def Let_def
      duration_defs)

subsection \<open>Between the look and the act\<close>

text \<open>
  The connection is borrowed again while a goroutine of a health check pass probes it, and the
  probe takes until the limit.
\<close>

definition pool1_reborrowed :: world where
  "pool1_reborrowed = snd (GetTCP Background (external pool1_idle))"

definition pool1_limit :: instant where
  "pool1_limit = now pool1_idle + HealthCheckTimeout (cfg pool1_idle)"

definition pool1_probe :: check_outcome where
  "pool1_probe = performCheck (cfg pool1_idle) (GetConn (heap pool1_idle 0)) (ext_calls pool1_idle)"

definition pool1_probed :: health_pass where
  "pool1_probed =
     at_phase 0 0 (Probing pool1_limit pool1_probe (now pool1_idle + int (check_time pool1_probe)))
       one_slot (pass_until pool1_limit pool1_reborrowed) (begin_pass rev pool1_idle)"

lemma pool1_reborrowed_values:
  "next_ref pool1_reborrowed = 1" "InUse (heap pool1_reborrowed 0)" "EnableHealthCheck (cfg pool1_reborrowed)"
  by (atomize (full), rule seenD [of pool1_reborrowed], code_simp)

lemma pool1_probed_moves: "pass_moves (begin_pass rev pool1_idle) pool1_probed"
proof -
  let ?s = "begin_pass rev pool1_idle"
  let ?at = "\<lambda>ph w. at_phase 0 0 ph one_slot w ?s"
  let ?ph = "Probing pool1_limit pool1_probe (now pool1_idle + int (check_time pool1_probe))"
  have v: "map snd (connections pool1_idle) = [0]" "\<not> IsInUse (heap pool1_idle 0)"
    "0 < HealthCheckTimeout (cfg pool1_idle)"
    by (atomize (full), rule seenD [of pool1_idle], code_simp)
  have c: "checks ?s = [(0, Queued)]" by (simp add: begin_pass_def getAllConnections_def v(1))
  note go = goroutine_move [where i = 0 and s = ?s and r = 0]
  have "?s = at_phase 0 0 Queued (make_chan 10) pool1_idle ?s"
    by (simp add: at_phase_def c) (simp add: begin_pass_def getAllConnections_def v(1))
  also have "pass_moves \<dots> (?at Holding pool1_idle)"
    by (rule go [where choice = GoOn]) (simp_all add: slot_moves c)
  finally have 1: "pass_moves ?s (?at Holding pool1_idle)" .
  have 2: "pass_moves (?at Holding pool1_idle) (?at (Looked pool1_limit) pool1_idle)"
    by (rule go [where choice = GoOn]) (simp_all add: c v(2) pool1_limit_def)
  have 3: "pass_moves (?at (Looked pool1_limit) pool1_idle) (?at ?ph (external pool1_idle))"
    by (rule go [where choice = GoOn])
      (use v(3) in \<open>simp_all add: c start_probe_def pool1_limit_def pool1_probe_def Let_def\<close>)
  obtain res where "GetTCP Background (external pool1_idle) = (res, pool1_reborrowed)"
    by (simp add: pool1_reborrowed_def prod_eq_iff)
  then have "step (external pool1_idle) pool1_reborrowed"
    unfolding GetTCP_def by (rule step_get_protocol)
  then have "pass_move (?at ?ph (external pool1_idle)) (?at ?ph pool1_reborrowed)"
    using pool_moves [where s = "?at ?ph (external pool1_idle)" and w = pool1_reborrowed] pool1_reborrowed_values(1)
    by (simp add: few_def)
  then have 4: "pass_moves (?at ?ph (external pool1_idle)) (?at ?ph pool1_reborrowed)" by blast
  have 5: "pass_moves (?at ?ph pool1_reborrowed) (?at ?ph (pass_until pool1_limit pool1_reborrowed))"
    by (rule time_move) (simp add: few_def pool1_reborrowed_values(1))
  from 1 2 3 4 5 show ?thesis unfolding pool1_probed_def by (meson rtranclp_trans)
qed

lemma pool1_probed_values:
  "\<exists>limit out t. checks pool1_probed ! 0 = (0, Probing limit out t) \<and> limit \<le> now (pool pool1_probed)"
  "0 < length (checks pool1_probed)" "InUse (heap (pool pool1_probed) 0)"
  "EnableHealthCheck (cfg (pool pool1_probed))"
proof -
  have "length (connections pool1_idle) = 1" by code_simp
  then show "\<exists>limit out t. checks pool1_probed ! 0 = (0, Probing limit out t) \<and> limit \<le> now (pool pool1_probed)"
    "0 < length (checks pool1_probed)" "InUse (heap (pool pool1_probed) 0)"
    "EnableHealthCheck (cfg (pool pool1_probed))"
    using pool1_reborrowed_values(2,3)
    by (auto simp: pool1_probed_def at_phase_def begin_pass_def getAllConnections_def pass_until_def)
qed

text \<open>The connection after six minutes in the idle channel, and just received from it.\<close>

definition pool1_late :: world where
  "pool1_late = pass_time (360 * 10 ^ 9) pool1_idle"

definition pool1_received :: world where
  "pool1_received = snd (recv_idle_any pool1_late)"

lemma pool1_late_reachable: "reachable (small_config tcp4 0 1) pool1_late"
  unfolding pool1_late_def
  by (rule moved [OF pool1_idle_reachable step_time]) (simp add: few_def pass_time_def pool1_idle_values)

lemma recv_idle_late:
  "recv_idle_any (pass_time d w) = (case recv_idle_any w of (r, w1) \<Rightarrow> (r, pass_time d w1))"
  by (auto simp: recv_idle_any_def recv_idle_def flip_def pass_time_def set_idle_def idle_of_def Let_def
      split: recv_result.split)

lemma pool1_received: "recv_idle_any pool1_late = (Some 0, pool1_received)"
proof -
  have "fst (recv_idle_any pool1_idle) = Some 0" by code_simp
  then have "fst (recv_idle_any pool1_late) = Some 0"
    by (simp add: pool1_late_def recv_idle_late case_prod_beta)
  then show ?thesis by (simp add: pool1_received_def prod_eq_iff)
qed

lemma pool1_received_values:
  "isConnectionValid (Some 0) pool1_received" "\<not> InUse (heap pool1_received 0)"
  "IsIdleTooLong (IdleTimeout (cfg pool1_received)) (now pool1_received) (heap pool1_received 0)"
proof -
  have r: "pool1_received = pass_time (360 * 10 ^ 9) (snd (recv_idle_any pool1_idle))"
    by (simp add: pool1_received_def pool1_late_def recv_idle_late case_prod_beta)
  let ?w = "snd (recv_idle_any pool1_idle)"
  have v: "\<not> InUse (heap ?w 0)" "Conn (heap ?w 0) \<noteq> None" "IsHealthy (heap ?w 0)"
    "IdleTimeout (cfg ?w) = 300 * 10 ^ 9" "MaxLifetime (cfg ?w) = 1800 * 10 ^ 9"
    "LastUsedAt (heap ?w 0) = now ?w" "now ?w - CreatedAt (heap ?w 0) = 0"
    by (atomize (full), rule seenD [of ?w], code_simp)
  show "isConnectionValid (Some 0) pool1_received" "\<not> InUse (heap pool1_received 0)"
    "IsIdleTooLong (IdleTimeout (cfg pool1_received)) (now pool1_received) (heap pool1_received 0)"
    using v by (simp_all add: r valid_iff IsExpired_def IsIdleTooLong_def pass_time_def time_sub_def
        max_int64_def min_int64_def)
qed

end
