(* ===== verification/Spec2Isabelle.thy ===== *)
theory Spec2Isabelle
  imports Pool_Examples
begin

text \<open>
  A connection pool for TCP and UDP connections over IPv4 and IPv6, written in Go (package
  \<^verbatim>\<open>netconnpool\<close>). An application makes a pool (\<^verbatim>\<open>NewPool\<close>), borrows connections (\<^verbatim>\<open>Get\<close> and
  its variants by protocol and IP version), returns them (\<^verbatim>\<open>Put\<close>), reads statistics
  (\<^verbatim>\<open>Stats\<close>) and closes the pool (\<^verbatim>\<open>Close\<close>). Three background managers check the health of the
  connections, close stale ones and mark leaked ones.

  \<^bold>\<open>How the parts interact.\<close> \<^verbatim>\<open>createConnection\<close> asks the application's dialer or acceptor for a
  network connection, wraps it and enters the wrapper into the pool's map; \<^verbatim>\<open>closeConnection\<close>
  takes it out again. Idle wrappers sit in two channels, one per protocol. A \<^verbatim>\<open>Get\<close> takes from
  them, or creates, or joins one of five wait queues; \<^verbatim>\<open>Put\<close> sends the wrapper to an idle
  channel and offers it to a waiting goroutine. The managers sweep over a snapshot of the map.
  Every operation updates the statistics collector.

  \<^bold>\<open>Which theory models what\<close> (files under \<^verbatim>\<open>src/\<close>):

  \<^item> \<open>Pool_Prelude\<close>: results as values (\<open>Ok\<close>, \<open>Err\<close>, \<open>Panic\<close>, \<open>Hang\<close>), 64 bit integers, list
    lemmas. \<open>Go_Time\<close>, \<open>Go_Channel\<close>, \<open>Net_Model\<close>, \<open>Net_Parse\<close>: what the code uses of Go's
    \<^verbatim>\<open>time\<close>, \<^verbatim>\<open>context\<close>, channels and \<^verbatim>\<open>net\<close>: durations that saturate, deadlines, buffered
    channels as lists with a capacity and a closed flag (interface: locale \<open>bounded_fifo\<close>),
    network addresses, the textual forms of IP addresses.
  \<^item> \<open>Pool_Errors\<close>: \<^verbatim>\<open>errors.go\<close>. \<open>Enums\<close>: \<^verbatim>\<open>protocol.go\<close>, \<^verbatim>\<open>ipversion.go\<close>, \<^verbatim>\<open>mode.go\<close>
    (interface: locale \<open>named_enum\<close>, interpreted for the three enumerations).
  \<^item> \<open>Pool_Config\<close>: \<^verbatim>\<open>config.go\<close>, with \<^verbatim>\<open>Validate\<close> and \<^verbatim>\<open>defaultAcceptor\<close>.
    \<open>Pool_Stats\<close>: \<^verbatim>\<open>stats.go\<close>. \<open>Pool_Connection\<close>: \<^verbatim>\<open>connection.go\<close>. \<open>UDP_Utils\<close>:
    \<^verbatim>\<open>udp_utils.go\<close>. \<open>Managers\<close>: the life cycle of the managers in \<^verbatim>\<open>health.go\<close>,
    \<^verbatim>\<open>cleanup.go\<close>, \<^verbatim>\<open>leak.go\<close> (interface: locale \<open>background_task\<close>, interpreted three times).
  \<^item> \<open>Pool_World\<close>: the state, a record with the fields of \<^verbatim>\<open>Pool\<close>, the package variables, a
    store of wrappers, the waiting goroutines and the outside. \<open>Pool_Core\<close>:
    \<^verbatim>\<open>createConnection\<close>, \<^verbatim>\<open>closeConnection\<close>. \<open>Pool_Put\<close>: \<^verbatim>\<open>Put\<close> and the notifications.
    \<open>Pool_Get\<close>: the \<^verbatim>\<open>Get\<close> family. \<open>Pool_Wait\<close>: the three \<^verbatim>\<open>waitForConnection\<close> functions.
    \<open>Pool_Lifecycle\<close>: \<^verbatim>\<open>NewPool\<close>, \<^verbatim>\<open>warmUp\<close>, \<^verbatim>\<open>startBackgroundTasks\<close>, \<^verbatim>\<open>Close\<close>,
    \<^verbatim>\<open>Stats\<close> (all of \<^verbatim>\<open>pool.go\<close>).
  \<^item> \<open>Pool_Sweep\<close>: a visit of each connection of a snapshot (interfaces: locales \<open>sweep_task\<close> and
    \<open>sweep_goal\<close>), interpreted in \<open>Pool_Leak\<close> (\<^verbatim>\<open>leak.go\<close>), \<open>Pool_Cleanup\<close> (\<^verbatim>\<open>cleanup.go\<close>)
    and \<open>Pool_Health\<close> (\<^verbatim>\<open>health.go\<close>).
  \<^item> \<open>Pool_System\<close>: the pool as a state machine: any sequence of calls of the application, steps of
    waiting goroutines, manager passes and time passing.
  \<^item> \<open>Pool_Threads\<close>: the same operations lock by lock. Any number of goroutines are inside
    \<^verbatim>\<open>createConnection\<close>, \<^verbatim>\<open>closeConnection\<close> and \<^verbatim>\<open>Close\<close>, each at a point of its own (\<open>activity\<close>); a
    step (\<open>istep\<close>) takes one of them from one critical section to the next, or is anything else the
    pool does (\<open>aside\<close>). \<open>Pool_Threads_Inv\<close>: the invariant of these states, which counts what the
    goroutines under way hold, may enter and have yet to count. \<open>Pool_Concurrent\<close>: the states a new
    pool comes to by such steps (\<open>concurrent\<close>), among them all those of \<open>Pool_System\<close>. \<open>Pool_Races\<close>:
    \<^verbatim>\<open>Close\<close> within a \<^verbatim>\<open>Put\<close> and within a wait. \<open>Pool_Health_Pass\<close>: a health check pass with its
    goroutines step by step. \<open>Pool_Counters\<close>: the counters that do not follow the connections.
  \<^item> \<open>Pool_Spec\<close>: the abstract pool (its limit, the set of open connections, how many were made,
    whether it is closed) with its step relation \<open>spec_step\<close>; \<open>evolves\<close> says that the abstractions of
    two states of the model are joined by such steps, that the typing of the channels
    (\<open>Pool_Typing\<close>: who stands in which queue, what a channel may hold, when it is closed) is kept,
    and that steps of \<open>Pool_Threads\<close> join the two states. \<open>Pool_Notify\<close>: the notification loops of
    \<^verbatim>\<open>Put\<close> against one search for the first goroutine that still waits. \<open>Pool_Examples\<close>: concrete
    pools, for the witnesses.

  \<^bold>\<open>What the lemmas show.\<close> \<open>Pool_Inv\<close> states the invariant of the bookkeeping and \<open>Pool_Preserve\<close>,
  \<open>Pool_Keep\<close>, \<open>Pool_Get_Facts\<close>, \<open>Pool_Get_Ends\<close>, \<open>Pool_Wait_Facts\<close>, \<open>Pool_Lifecycle_Facts\<close>,
  \<open>Pool_Close_Facts\<close> show that every operation preserves it and what each returns; a step that
  touches only statistics, time stamps and the trace is \<open>light\<close> and keeps it at once. \<open>Pool_System\<close>
  lifts this to every reachable state, and shows that every step refines steps of \<open>Pool_Spec\<close>. The
  properties that must hold in the middle of operations too (C3, C13, C17, C26) are proved of the
  states of \<open>Pool_Concurrent\<close>. The loops of the managers (\<^verbatim>\<open>cleanupLoop\<close>, \<^verbatim>\<open>healthCheckLoop\<close>, \<^verbatim>\<open>detectionLoop\<close>) run over a
  stream of ticks and stops (\<open>Pool_Sweep\<close>) and are runs of that state machine. This theory holds
  the properties, but for C15 (\<open>Pool_Config\<close>), C29 (\<open>Pool_Cleanup\<close>), C37 (\<open>Managers\<close>), C38
  (\<open>Pool_Stats\<close>) and C39 (\<open>Enums\<close>), which need no more than their component.

  \<^bold>\<open>Conventions.\<close> An operation is a function from the state to its result and the new state, run
  without interference (but see \<open>Pool_Threads\<close>); where it blocks in a \<^verbatim>\<open>select\<close> it becomes a
  waiting goroutine of the state. A panic and an operation that never returns are values (\<open>Panic\<close>, \<open>Hang\<close>). Functions
  the application supplies (dialer, listener, health checker, hooks) are fields of the
  configuration; a dialer answers the \<open>n\<close>th external call of the program, so nothing is assumed of
  it but where a property says so (\<open>honest\<close>: it returns a connection or an error). Ready
  \<^verbatim>\<open>select\<close> cases are chosen by an arbitrary sequence of coins, the order of a map iteration by
  an arbitrary permutation. \<open>few\<close> says that fewer than \<open>2 ^ 64\<close> connections were ever created, so
  that identifiers do not repeat.

  \<^bold>\<open>Bounds.\<close> No definition uses fuel. The loops of ten attempts recurse on the attempts left, the
  unbounded loop of \<^verbatim>\<open>GetWithTimeout\<close> on the number of idle connections, the UDP loop on the packets
  left; the loops over channels that may spin for ever are partial functions, with \<open>None\<close> for
  not returning, and the properties show when they return.

  \<^bold>\<open>Not modelled.\<close> The mutexes themselves: a critical section is one step. The operations that
  touch no connection's life (the counters, the channels, the waiting) are interleaved as whole
  operations, except in \<open>Pool_Races\<close> and \<open>Pool_Health_Pass\<close>; in \<open>Pool_Threads\<close> the stopping of the
  managers and the draining of the channels by \<^verbatim>\<open>Close\<close> are one step each, and so is one group of
  increments of the statistics. As a step of the system, a health pass takes its checks one after
  the other, which \<open>Pool_Health_Pass\<close> shows to be one of its interleavings. The effect of garbage
  collection; the hooks' own effects on the pool (a hook that calls back into it); the example
  programs and the tests of the repository, which only call the package.
\<close>

section \<open>The pool as a whole\<close>

text \<open>
  C1. Whatever the application, the waiting goroutines and the managers do, in any order: the
  identifiers name wrappers, the map holds exactly one entry per open connection, nothing is
  closed twice, the idle channels and wait queues are as large and as open as they should be,
  the statistics agree with the map, and each manager has at most one loop.
\<close>

theorem reachable_invariant:
  assumes "reachable c w"
  shows "pool_inv w \<and> managers_ok w"
  using reachable_system [OF assms] by (simp add: system_inv_def)

theorem reachable_invariant_witness: "pool_inv pool1_idle \<and> managers_ok pool1_idle"
  by (rule reachable_invariant [OF pool1_idle_reachable])



text \<open>
  C3. The underlying connection of a wrapper is closed at most once in the life of the pool, and
  not at all as long as the wrapper still has it; a wrapper that still has it is in the map or in
  the hands of a goroutine that is about to enter or to close it. This holds at every point of
  every interleaving of the pool's goroutines; with no goroutine under way, in every reachable
  state, the wrapper is in the map.
\<close>

theorem closed_at_most_once:
  assumes "concurrent c (w, M)"
  shows "closes r (trace w) \<le> 1 \<and>
    (r < next_ref w \<and> Conn (heap w r) \<noteq> None \<longrightarrow>
       closes r (trace w) = 0 \<and> (r \<in> registered w \<or> (\<exists>a \<in># M. r \<in> set (carried a))))"
proof -
  from concurrent_iinv [OF assms] have I: "iinv (w, M)" ..
  from iinvD(3,6) [OF I] show ?thesis by (simp add: closes_ok_def held_def)
qed

text \<open>
  In a pool that was closed; in a pool whose connection is lent; and while a \<^verbatim>\<open>closeConnection\<close>
  has taken that connection from the map and is about to close it.
\<close>

theorem closed_at_most_once_witness:
  "closes 0 (trace pool1_closed) \<le> 1 \<and> closes 0 (trace pool1_lent) = 0 \<and> 0 \<in> registered pool1_lent \<and>
   (\<exists>w. concurrent (small_config tcp4 0 1) (w, {#Shutting 0 True#}) \<and> closes 0 (trace w) = 0 \<and>
     registered w = {})"
proof -
  note lent = reachable_concurrent [OF pool1_lent_reachable]
  let ?z = "unlink 0 (mark_closing 0 pool1_lent)"
  have z: "fst ?z" "next_ref (snd ?z) = 1" "connections (snd ?z) = []" "Conn (heap (snd ?z) 0) \<noteq> None"
    by (atomize (full), rule seenD [of ?z], code_simp)
  then have u: "unlink 0 (mark_closing 0 pool1_lent) = (True, snd ?z)" by (simp add: prod_eq_iff)
  have "isteps (pool1_lent, {#}) (snd ?z, {#Shutting 0 True#})"
    using marks [of 0 pool1_lent "{#}"] unlinks [OF u, of "{#}"]
    by (simp add: pool1_lent_values)
  then have c: "concurrent (small_config tcp4 0 1) (snd ?z, {#Shutting 0 True#})"
    using lent by (rule isteps_concurrent) (simp add: few_def z)
  with closed_at_most_once [OF c, of 0] z
  have "\<exists>w. concurrent (small_config tcp4 0 1) (w, {#Shutting 0 True#}) \<and> closes 0 (trace w) = 0 \<and>
     registered w = {}" by (intro exI [of _ "snd ?z"]) simp
  then show ?thesis
    using closed_at_most_once [OF reachable_concurrent [OF pool1_closed_reachable], of 0]
      closed_at_most_once [OF lent, of 0] valid_open [OF pool1_lent_values(3)]
    by (simp add: pool1_lent_values)
qed

section \<open>Getting a connection\<close>

text \<open>
  C4. \<^verbatim>\<open>GetWithTimeout\<close>, \<^verbatim>\<open>GetWithProtocol\<close> and \<^verbatim>\<open>GetWithIPVersion\<close> return a connection of the kind
  asked for that is in the map, marked in use as of now, valid if it was in the pool before the
  call, and open when the dialer answers as documented; or an error; or they wait, which they do
  only with no idle connection they could take (of any kind, or of the protocol) and, when a
  protocol or a version is asked for, at the limit of connections. They do not hang, and panic
  only when a dialer returned neither a connection nor an error.
\<close>

theorem get_result:
  assumes "reachable c w" and "names_it k" and "get_kind k ctx d w = (res, w')" and "few w'"
  shows "case res of
      GotConn r \<Rightarrow>
        r \<in> registered w' \<and> InUse (heap w' r) \<and> LastUsedAt (heap w' r) = now w' \<and>
        wait_accepts k (heap w' r) \<and> (r < next_ref w \<longrightarrow> isConnectionValid (Some r) w') \<and>
        (honest (cfg w) \<longrightarrow> Conn (heap w' r) \<noteq> None)
    | GotErr e \<Rightarrow> True
    | GotWait i \<Rightarrow>
        (k \<noteq> WaitAny \<longrightarrow> max_reached w') \<and>
        (\<forall>p. k = WaitAny \<or> k = WaitProtocol p \<longrightarrow> buf (idle_of p w') = [])
    | GotPanic \<Rightarrow> \<not> honest (cfg w)
    | GotHang \<Rightarrow> False"
proof -
  from reachable_system [OF assms(1)] have I: "pool_inv w" by (simp add: system_inv_def)
  have "get_ok (wait_accepts k) w res w'"
    using get_kind_good [OF assms(2), of w ctx d] assms(3,4) I by (simp add: good_get_def)
  with get_kind_waits [OF I assms(2)] assms(3) show ?thesis
    by (cases res) (auto simp: get_ok_def lent_def)
qed

text \<open>A new connection, one asked for by its protocol and one by its version; and an idle one.\<close>

theorem get_result_witness:
  "(0 \<in> registered pool1_lent \<and> InUse (heap pool1_lent 0) \<and> LastUsedAt (heap pool1_lent 0) = now pool1_lent \<and>
    GetProtocol (heap pool1_lent 0) = ProtocolTCP \<and> Conn (heap pool1_lent 0) \<noteq> None) \<and>
   (\<exists>w'. GetIPv4 Background pool1 = (GotConn 0, w') \<and> 0 \<in> registered w' \<and>
     GetIPVersion (heap w' 0) = IPVersionIPv4) \<and>
   (\<exists>w'. Get Background pool1_idle = (GotConn 0, w') \<and> 0 \<in> registered w' \<and> isConnectionValid (Some 0) w')"
proof (intro conjI)
  show "0 \<in> registered pool1_lent" "InUse (heap pool1_lent 0)" "LastUsedAt (heap pool1_lent 0) = now pool1_lent"
    "GetProtocol (heap pool1_lent 0) = ProtocolTCP" "Conn (heap pool1_lent 0) \<noteq> None"
    using get_result [OF pool1_reachable, of "WaitProtocol ProtocolTCP"]
      pool1_lent_step [unfolded GetTCP_def] pool1_honest
    by (fastforce simp: names_it_def few_def pool1_lent_values)+
next
  let ?z = "GetIPv4 Background pool1"
  have z: "fst ?z = GotConn 0" "next_ref (snd ?z) = 1"
    by (atomize (full), rule seenD [of ?z], code_simp)
  then have g: "get_kind (WaitIPVersion IPVersionIPv4) Background (GetConnectionTimeout (cfg pool1)) pool1 =
      (GotConn 0, snd ?z)"
    by (simp add: GetIPv4_def prod_eq_iff)
  have "few (snd ?z)" by (simp add: few_def z)
  from get_result [OF pool1_reachable _ g this] z
  show "\<exists>w'. GetIPv4 Background pool1 = (GotConn 0, w') \<and> 0 \<in> registered w' \<and>
     GetIPVersion (heap w' 0) = IPVersionIPv4"
    by (intro exI [of _ "snd ?z"]) (simp add: prod_eq_iff names_it_def)
next
  let ?z = "Get Background pool1_idle"
  have z: "fst ?z = GotConn 0" "next_ref (snd ?z) = 1"
    by (atomize (full), rule seenD [of ?z], code_simp)
  then have g: "get_kind WaitAny Background (GetConnectionTimeout (cfg pool1_idle)) pool1_idle = (GotConn 0, snd ?z)"
    by (simp add: Get_def prod_eq_iff)
  have "few (snd ?z)" by (simp add: few_def z)
  from get_result [OF pool1_idle_reachable _ g this] z
  show "\<exists>w'. Get Background pool1_idle = (GotConn 0, w') \<and> 0 \<in> registered w' \<and> isConnectionValid (Some 0) w'"
    by (intro exI [of _ "snd ?z"]) (simp add: prod_eq_iff pool1_idle_values names_it_def)
qed

text \<open>
  C5. \<^verbatim>\<open>GetWithTimeout\<close>, whose loop has no bound in the code: the call comes to an end (the
  definition is total) without hanging. It makes at most one connection, and it makes one or
  waits only after it has taken every idle connection from the pool and found none of them
  valid.
\<close>

theorem get_ends:
  assumes "reachable c w" and "GetWithTimeout ctx d w = (res, w')" and "few w'"
  shows "res \<noteq> GotHang \<and>
    (next_ref w' = next_ref w \<and> (\<forall>i. res \<noteq> GotWait i) \<or>
     next_ref w' \<le> Suc (next_ref w) \<and> (\<forall>p. buf (idle_of p w') = []))"
proof -
  from reachable_system [OF assms(1)] have I: "pool_inv w" by (simp add: system_inv_def)
  have "get_ok (\<lambda>c. True) w res w'"
    using GetWithTimeout_good [of w ctx d] assms(2,3) I by (simp add: good_get_def)
  then have "res \<noteq> GotHang" by (auto simp: get_ok_def)
  with GetWithTimeout_idle [OF I assms(2)] show ?thesis by blast
qed

theorem get_ends_witness:
  "\<exists>w'. Get Background pool1 = (GotConn 0, w') \<and> (\<forall>p. buf (idle_of p w') = [])"
proof -
  let ?z = "Get Background pool1"
  have z: "fst ?z = GotConn 0" "next_ref (snd ?z) = 1"
    by (atomize (full), rule seenD [of ?z], code_simp)
  then have g: "GetWithTimeout Background (GetConnectionTimeout (cfg pool1)) pool1 = (GotConn 0, snd ?z)"
    by (simp add: Get_def prod_eq_iff)
  have "few (snd ?z)" by (simp add: few_def z)
  from get_ends [OF pool1_reachable g this] z show ?thesis
    by (intro exI [of _ "snd ?z"]) (simp add: prod_eq_iff pool1_values)
qed



section \<open>Returning a connection, closing the pool\<close>

text \<open>
  C7. \<^verbatim>\<open>Put\<close> of a wrapper: on a closed pool, for an invalid connection or with the idle channel
  full, the connection is closed and leaves the map; otherwise it joins the end of the idle
  channel of its protocol, is no longer in use, and stays open and in the map. A valid connection
  returned to an open pool is counted as one active connection less, whether a \<^verbatim>\<open>Get\<close> counted it
  or not, and as one idle connection more when it is stored.
\<close>

theorem put_outcome:
  assumes "reachable c w" and "r < next_ref w" and "Put (Some r) w = (res, w')"
  defines "p \<equiv> GetProtocol (heap w r)"
  shows "(if pool_closed w \<or> \<not> isConnectionValid (Some r) w \<or>
        MaxIdleConnections (cfg w) \<le> int (length (buf (idle_of p w)))
     then Conn (heap w' r) = None \<and> registered w' = registered w - {r} \<and>
        (\<forall>p. idle_of p w' = idle_of p w)
     else res = Ok () \<and> buf (idle_of p w') = buf (idle_of p w) @ [r] \<and>
        registered w' = registered w \<and> Conn (heap w' r) = Conn (heap w r) \<and> \<not> InUse (heap w' r)) \<and>
    (\<not> pool_closed w \<and> isConnectionValid (Some r) w \<longrightarrow>
       counted CurrentActiveConnections w' = map_option (\<lambda>n. n - 1) (counted CurrentActiveConnections w) \<and>
       counted CurrentIdleConnections w' =
         (if MaxIdleConnections (cfg w) \<le> int (length (buf (idle_of p w)))
          then counted CurrentIdleConnections w else map_option (\<lambda>n. n + 1) (counted CurrentIdleConnections w)))"
    (is "?outcome \<and> ?counters")
proof
  note I = reachableD(1,3,4) [OF assms(1)]
  from I(1) have "inv_core w" and idle: "idle_ok w" and ids: "ids_ok w" and map: "map_ok w"
    by (simp_all add: pool_inv_core pool_invD)
  have cap: "int (chan_cap (idle_of p w)) = MaxIdleConnections (cfg w)"
    using idle corrected_max_idle [OF I(3)] by (auto simp: idle_ok_def idle_of_def)
  show ?counters
    using Put_counted [OF \<open>inv_core w\<close> assms(2,3)] cap by (auto simp: p_def)
  note shut = closeConnection_registered [OF _ _ _ assms(2)]
  note put = light_put_prepare [OF light_refl, of w r]
  note L = lightD [OF put]
  from \<open>inv_core w\<close> assms(2,3) show ?outcome
  proof (cases rule: Put_cases)
    case closed
    then show ?thesis
      using shut [OF ids map I(2) closed(2)] closeConnection_frame [OF closed(2)]
      by (auto simp: idle_of_def)
  next
    case full
    have "ids_ok (put_prepare r w)" "map_ok (put_prepare r w)" "few (put_prepare r w)"
      using light_parts [OF put] ids map I(2) by (simp_all add: few_def L)
    from closeConnection_registered [OF this _ full(4)] closeConnection_frame [OF full(4)] full(3) cap
    show ?thesis using assms(2) by (auto simp: idle_of_def L p_def)
  next
    case (stored ch b)
    note oq = only_queuesD [OF stored(7)]
    from stored(4) have ch: "buf ch = buf (idle_of p w) @ [r]" "length (buf (idle_of p w)) < chan_cap (idle_of p w)"
      by (auto simp: chan_cases p_def)
    have heap: "heap w' = heap (put_prepare r w)" "connections w' = connections w"
      by (simp_all add: oq put_counted_def L)
    have ch': "idle_of p w' = ch"
      unfolding idle_of_queues [OF stored(7)] by (simp add: idle_of_def put_counted_def p_def)
    have "\<not> InUse (heap (put_prepare r w) r)" by (simp add: put_prepare_def Let_def)
    then show ?thesis using stored(1-3) ch cap by (simp add: ch' heap L p_def[symmetric])
  qed
qed

theorem put_outcome_witness:
  "Conn (heap pool1_idle 0) \<noteq> None \<and> \<not> InUse (heap pool1_idle 0) \<and>
   buf (idle_of ProtocolTCP pool1_idle) = buf (idle_of ProtocolTCP pool1_lent) @ [0] \<and>
   counted CurrentIdleConnections pool1_idle = map_option (\<lambda>n. n + 1) (counted CurrentIdleConnections pool1_lent)"
  using put_outcome [OF pool1_lent_reachable _ pool1_idle_step]
    valid_open [OF pool1_lent_values(3)]
  by (simp add: pool1_lent_values)

text \<open>
  C8. The first \<^verbatim>\<open>Close\<close> always ends, without a panic: it closes every connection of the pool
  that is still open, exactly once, empties and closes every channel and stops the managers. It
  reports the first error of a close function, in the order of the iteration. The counters by
  protocol and IP version stay as they were, though no connection is left.
\<close>

theorem close_closes_everything:
  assumes "reachable c w" and "\<not> pool_closed w" and "permutes_all order"
  shows "\<exists>w'. Close order w =
      (error_result (case filter (\<lambda>r. snd (snd (Connection_Close (heap w r))) \<noteq> None)
         (getAllConnections order w) of [] \<Rightarrow> None | r # _ \<Rightarrow> snd (snd (Connection_Close (heap w r)))), w') \<and>
    all_closed w' \<and>
    (\<forall>r < next_ref w. Conn (heap w' r) = None \<and>
       closes r (trace w') = closes r (trace w) + (if Conn (heap w r) \<noteq> None then 1 else 0)) \<and>
    (\<forall>k. counted (class_counter k) w' = counted (class_counter k) w)"
proof -
  note R = reachableD [OF assms(1)]
  have "\<not> close_once w" using R(6) assms(2) by simp
  then show ?thesis
  proof (rule Close_open_pool [OF R(1,2) _ assms(3)])
    fix w'
    assume c: "Close order w = (error_result (case filter (\<lambda>r. snd (snd (Connection_Close (heap w r))) \<noteq> None)
         (getAllConnections order w) of [] \<Rightarrow> None | r # _ \<Rightarrow> snd (snd (Connection_Close (heap w r)))), w')"
      and "all_closed w'"
      and "\<forall>r < next_ref w. heap w' r = fst (Connection_Close (heap w r)) \<and>
        closes r (trace w') = closes r (trace w) + (if Conn (heap w r) \<noteq> None then 1 else 0)"
    moreover have "counted (class_counter k) w' = counted (class_counter k) w" for k
      using Close_classes [OF c] by (simp add: error_result_def split: option.split)
    ultimately show ?thesis by (intro exI [of _ w']) (simp add: Close_Conn)
  qed
qed

theorem close_closes_everything_witness:
  "\<exists>w'. Close rev pool1_idle = (Ok (), w') \<and> all_closed w' \<and> closes 0 (trace w') = 1 \<and>
     counted (class_counter ClassTCP) w' = Some 1"
proof -
  have v: "getAllConnections rev pool1_idle = [0]" "snd (snd (Connection_Close (heap pool1_idle 0))) = None"
    "Conn (heap pool1_idle 0) \<noteq> None" "closes 0 (trace pool1_idle) = 0"
    "counted (class_counter ClassTCP) pool1_idle = Some 1"
    by (atomize (full), rule seenD [of pool1_idle], code_simp)
  from close_closes_everything [OF pool1_idle_reachable _ permutes_all_rev] v show ?thesis
    by (auto simp: pool1_idle_values error_result_def)
qed



section \<open>Waiting, creating, closing one connection\<close>

text \<open>
  C10. A waiting goroutine that comes back with a connection took it from its own channel; the
  connection is of the kind it waits for, in the map, valid, and marked in use as of now.
\<close>

theorem waiter_result:
  assumes "reachable c w" and "waiters w i = Some wt" and "wait_step i choice w = Some w'"
    and "waiters w' i = Some wt'" and "w_phase wt' = Finished (Ok r)"
  shows "choice = TakeConn \<and> w_phase wt = Waiting \<and> buf (w_chan wt) \<noteq> [] \<and> hd (buf (w_chan wt)) = r \<and>
    wait_accepts (w_kind wt) (heap w' r) \<and> r \<in> registered w' \<and> InUse (heap w' r) \<and>
    LastUsedAt (heap w' r) = now w' \<and> isConnectionValid (Some r) w'"
  using wait_step_result [OF reachableD(1,3) [OF assms(1)] assms(2-5)] reachableD(1,3) [OF assms(1)]
  by (simp add: lent_def)

theorem waiter_result_witness:
  "0 \<in> registered pool1_taken \<and> InUse (heap pool1_taken 0) \<and> isConnectionValid (Some 0) pool1_taken"
proof -
  obtain wt wt' where "waiters pool1_served 0 = Some wt" "waiters pool1_taken 0 = Some wt'"
    "w_phase wt' = Finished (Ok 0)"
    using pool1_served_waiter pool1_taken_waiter by blast
  from waiter_result [OF pool1_served_reachable this(1) pool1_taken_step this(2,3)] show ?thesis by simp
qed

text \<open>
  C11. \<^verbatim>\<open>createConnection\<close>: a connection it returns is new, entered into the map under an
  identifier no other wrapper has, and was made on an open pool below its limit; an error leaves
  the map as it was; it does not hang, and panics only when the dialer returns neither a
  connection nor an error.
\<close>

theorem create_outcome:
  assumes "reachable c w" and "createConnection ctx w = (res, w')" and "few w'"
  shows "case res of
      Ok None \<Rightarrow> False
    | Ok (Some r) \<Rightarrow>
        \<not> pool_closed w \<and> r = next_ref w \<and>
        (0 < MaxConnections (cfg w) \<longrightarrow> int (length (connections w)) < MaxConnections (cfg w)) \<and>
        registered w' = insert r (registered w) \<and>
        (\<forall>r' < next_ref w. ID (heap w' r') \<noteq> ID (heap w' r)) \<and>
        Protocol (heap w' r) = DetectProtocol (Conn (heap w' r)) \<and>
        IPVersion (heap w' r) = DetectIPVersion (Conn (heap w' r))
    | Err e \<Rightarrow> connections w' = connections w \<and> next_ref w' = next_ref w
    | Panic \<Rightarrow> \<not> honest (cfg w) \<and> connections w' = connections w
    | Hang \<Rightarrow> False"
proof -
  from reachableD(1) [OF assms(1)] have I: "pool_inv w" and S: "sem_ok w" by (auto dest: pool_invD(10))
  note res = createConnection_result [OF S assms(2)]
  from S assms(2) show ?thesis
  proof (cases rule: createConnection_cases)
    case failed
    then show ?thesis using res lightD(2,6) [OF failed(2)]
      by (cases res) (auto split: option.split)
  next
    case (created r nc w1 w2)
    note f = created_facts [OF I assms(3) assms(2) [unfolded created(1)]]
    note L = lightD [OF created(2)]
    have I': "pool_inv w'" by (rule createConnection_inv [OF I assms(2,3)])
    have "\<forall>r' < next_ref w. ID (heap w' r') \<noteq> ID (heap w' r)"
      using ID_inject [OF pool_invD(1) [OF I'] assms(3)] f(1,2) by (metis less_irrefl order.strict_trans)
    moreover have "registered w' = insert r (registered w)"
    proof -
      let ?w1 = "w1\<lparr>createSemaphore := one_slot_taken\<rparr>"
      have core: "inv_core ?w1"
        using I light_inv_core [OF created(2)] by (simp add: pool_inv_core)
      have n: "next_ref ?w1 < 2 ^ 64" using f(1,2) assms(3) by (simp add: few_def L)
      have lim: "MaxConnections (cfg ?w1) > 0 \<longrightarrow> int (length (connections ?w1)) < MaxConnections (cfg ?w1)"
        using created(3) by (auto simp: create_check_def split: if_splits)
      from create_publish_inv_core(4) [OF core n lim created(4)] show ?thesis
        by (simp add: created(5) L)
    qed
    ultimately show ?thesis
      using f created(1,3) by (simp add: create_check_def isClosed_def L not_le split: if_splits)
  qed
qed

theorem create_outcome_witness:
  "\<exists>w'. createConnection Background pool1 = (Ok (Some 0), w') \<and> registered w' = insert 0 (registered pool1)"
proof -
  let ?z = "createConnection Background pool1"
  have z: "fst ?z = Ok (Some 0)" "next_ref (snd ?z) = 1"
    by (atomize (full), rule seenD [of ?z], code_simp)
  then have c: "?z = (Ok (Some 0), snd ?z)" by (simp add: prod_eq_iff)
  have "few (snd ?z)" by (simp add: few_def z)
  from create_outcome [OF pool1_reachable c this] c show ?thesis by auto
qed

text \<open>
  C12. \<^verbatim>\<open>closeConnection\<close> closes the underlying connection if it is still open and reports what
  its close function answers, takes exactly this wrapper out of the map, and touches no other
  wrapper; a second call does nothing more and reports no error. The counters of idle and of
  active connections stay as they were, whether the connection was idle or in use.
\<close>

theorem close_connection_outcome:
  assumes "reachable c w" and "r < next_ref w" and "closeConnection (Some r) w = (res, w')"
  shows "res = error_result (snd (snd (Connection_Close (heap w r)))) \<and>
    Conn (heap w' r) = None \<and> registered w' = registered w - {r} \<and>
    (\<forall>r'. r' \<noteq> r \<longrightarrow> heap w' r' = heap w r') \<and>
    closes r (trace w') = closes r (trace w) + (if Conn (heap w r) \<noteq> None then 1 else 0) \<and>
    (\<exists>w''. closeConnection (Some r) w' = (Ok (), w'') \<and> connections w'' = connections w' \<and>
       closes r (trace w'') = closes r (trace w')) \<and>
    counted CurrentIdleConnections w' = counted CurrentIdleConnections w \<and>
    counted CurrentActiveConnections w' = counted CurrentActiveConnections w"
proof -
  note R = reachableD(1,3) [OF assms(1)]
  note ids = pool_invD(1,2) [OF R(1)]
  note f = closeConnection_frame [OF assms(3)]
  have I': "pool_inv w'" by (rule closeConnection_inv [OF R assms(2,3)])
  have reg: "registered w' = registered w - {r}"
    by (rule closeConnection_registered [OF ids R(2) assms(2,3)])
  have res: "res = error_result (snd (snd (Connection_Close (heap w r))))"
    using assms(3) by (auto simp: closeConnection_def close_wrapper_def Connection_Close_def
        UpdateHealth_def upd_conn_def Let_def split: option.splits prod.splits if_splits)
  obtain res2 w'' where c2: "closeConnection (Some r) w' = (res2, w'')"
    by (cases "closeConnection (Some r) w'")
  note f2 = closeConnection_frame [OF c2]
  have "few w'" "r < next_ref w'" using R(2) assms(2) by (simp_all add: few_def f)
  from map_of_ID [OF pool_invD(1,2) [OF I'] this] reg
  have "map_of (connections w') (ID (heap w' r)) = None" by simp
  then have "connections w'' = connections w'" unfolding f2(15) by (intro delete_absent) (simp add: map_of_eq_None_iff)
  moreover have "res2 = Ok ()"
    using c2 f(14) by (auto simp: closeConnection_def close_wrapper_def Connection_Close_def
        error_result_def UpdateHealth_def upd_conn_def Let_def split: option.splits prod.splits if_splits)
  ultimately show ?thesis using res reg c2 closeConnection_counted [OF assms(3)] by (simp add: f f2)
qed

theorem close_connection_outcome_witness:
  "\<exists>w'. closeConnection (Some 0) pool1_idle = (Ok (), w') \<and> closes 0 (trace w') = 1 \<and>
     Conn (heap w' 0) = None"
proof -
  obtain res w' where c: "closeConnection (Some 0) pool1_idle = (res, w')"
    by (cases "closeConnection (Some 0) pool1_idle")
  have v: "snd (snd (Connection_Close (heap pool1_idle 0))) = None"
    "Conn (heap pool1_idle 0) \<noteq> None" "closes 0 (trace pool1_idle) = 0"
    by (atomize (full), rule seenD [of pool1_idle], code_simp)
  from close_connection_outcome [OF pool1_idle_reachable _ c] v c show ?thesis
    by (auto simp: pool1_idle_values error_result_def)
qed

section \<open>Statistics, configuration and starting\<close>



text \<open>
  C14. \<^verbatim>\<open>NewPool\<close> on a configuration \<^verbatim>\<open>Validate\<close> accepts whose functions keep their contract,
  whatever the dialer answers during the warm-up: an open pool that satisfies the invariant, with
  the corrected configuration and at most \<^verbatim>\<open>MinConnections\<close> connections, except that with health
  checks enabled and an interval that is not positive, which \<^verbatim>\<open>Validate\<close> lets pass, it panics.
\<close>

theorem new_pool_outcome:
  assumes "Validate c = (Ok (), c')" and "honest c'" and "MinConnections c' \<le> 2 ^ 64"
  shows "if EnableHealthCheck c' \<and> HealthCheckInterval c' \<le> 0 then fst (NewPool c w0) = Panic
    else \<exists>w. NewPool c w0 = (Ok (), w) \<and> reachable c w \<and> \<not> pool_closed w \<and> cfg w = c' \<and>
      next_ref w \<le> nat (MinConnections c')"
proof -
  from warm_up_fresh [OF assms(2,3), of w0] obtain w1
    where u: "warmUp (fresh_pool c' w0) = (Ok (), w1)" and w1: "few w1" "cfg w1 = c'"
      "healthCheckManager w1 = new_manager" "next_ref w1 \<le> nat (MinConnections c')" by blast
  obtain res w where b: "startBackgroundTasks w1 = (res, w)" by (cases "startBackgroundTasks w1")
  note n = NewPool_def and_then_def assms(1) u b
  show ?thesis
  proof (cases "EnableHealthCheck c' \<and> HealthCheckInterval c' \<le> 0")
    case True
    have "HealthCheck_Start c' new_manager = Panic"
      using True hm.start_panics_iff [of c' new_manager] by (simp add: new_manager_def)
    then have "res = Panic"
      using True b by (simp add: startBackgroundTasks_def w1 and_then_def on_manager_def)
    with True show ?thesis by (simp add: n)
  next
    case False
    note sb = startBackgroundTasks_good [OF b]
    with False have "res = Ok ()" by (cases res) (auto simp: w1)
    then have np: "NewPool c w0 = (Ok (), w)" by (simp add: n)
    have om: "next_ref w = next_ref w1" using sb only_managersD(1) by blast
    with w1 have few: "few w" by (simp add: few_def)
    from False NewPool_system [OF np few] started [OF np few] np om w1 assms(1) show ?thesis by auto
  qed
qed

text \<open>
  A warm-up of two connections: nobody has borrowed one, and the counter of active connections
  stands at minus two.
\<close>

theorem new_pool_outcome_witness:
  "(\<exists>w. NewPool (small_config tcp4 2 3) start_world = (Ok (), w) \<and> next_ref w \<le> 2 \<and>
      counted CurrentActiveConnections w = Some (- 2)) \<and>
   fst (NewPool ((small_config tcp4 0 1)\<lparr>HealthCheckInterval := 0\<rparr>) start_world) = Panic"
proof -
  let ?good = "small_config tcp4 2 3" and ?bad = "(small_config tcp4 0 1)\<lparr>HealthCheckInterval := 0\<rparr>"
  let ?g = "snd (Validate ?good)" and ?b = "snd (Validate ?bad)"
  have g: "Validate ?good = (Ok (), ?g)" "honest ?g" "0 < HealthCheckInterval ?g" "MinConnections ?g = 2"
    and b: "Validate ?bad = (Ok (), ?b)" "honest ?b" "MinConnections ?b = 0" "EnableHealthCheck ?b"
      "HealthCheckInterval ?b \<le> 0"
    by (simp_all add: honest_def answers_def small_config_def DefaultConfig_def dial_always_def
        Validate_defs duration_defs)
  from new_pool_outcome [OF g(1,2), of start_world] g(3,4)
  have "\<exists>w. NewPool ?good start_world = (Ok (), w) \<and> next_ref w \<le> 2" by auto
  then obtain w where w: "NewPool ?good start_world = (Ok (), w)" "next_ref w \<le> 2" by blast
  have "seen (snd (NewPool ?good start_world)) (\<lambda>w. counted CurrentActiveConnections w = Some (- 2))"
    by code_simp
  then have "counted CurrentActiveConnections w = Some (- 2)"
    unfolding w(1) by (simp add: seen_def)
  with w have "\<exists>w. NewPool ?good start_world = (Ok (), w) \<and> next_ref w \<le> 2 \<and>
      counted CurrentActiveConnections w = Some (- 2)" by blast
  moreover from new_pool_outcome [OF b(1,2), of start_world] b(3-5)
  have "fst (NewPool ?bad start_world) = Panic" by simp
  ultimately show ?thesis by blast
qed

text \<open>
  C16. The channels are typed. The idle channel for TCP holds TCP connections and the other one
  none; a connection that is open carries the protocol and the IP version of its remote address;
  a wait queue holds goroutines of its own kind, each once and each with nothing in its channel,
  so a goroutine is never queued twice nor served while it is queued; and what stands in the
  channel of a waiting goroutine is a connection it accepts. So the comparison of the protocol or
  the IP version in the waiting functions never fails: only an invalid connection is turned down.
\<close>

theorem channels_are_typed:
  assumes "reachable c w"
  shows "(\<forall>r \<in> set (buf (idleTCP w)). GetProtocol (heap w r) = ProtocolTCP) \<and>
    (\<forall>r \<in> set (buf (idleUDP w)). GetProtocol (heap w r) \<noteq> ProtocolTCP) \<and>
    (\<forall>r < next_ref w. GetConn (heap w r) \<noteq> None \<longrightarrow>
       GetProtocol (heap w r) = DetectProtocol (GetConn (heap w r)) \<and>
       GetIPVersion (heap w r) = DetectIPVersion (GetConn (heap w r))) \<and>
    (\<forall>q. distinct (buf (queue q w)) \<and> (\<forall>i \<in> set (buf (queue q w)). \<exists>wt. waiters w i = Some wt \<and>
       wait_queue_of (w_kind wt) = q \<and> buf (w_chan wt) = [])) \<and>
    (\<forall>i wt. waiters w i = Some wt \<longrightarrow>
       (\<forall>r \<in> set (buf (w_chan wt)). wait_accepts (w_kind wt) (heap w r)))"
proof -
  have T: "typed w" by (rule reachable_typed [OF assms])
  have "idle_ok w" using reachableD(1) [OF assms] by (rule pool_invD)
  moreover have "\<forall>r < next_ref w. labelled (heap w r)" using typedD(1) [OF T] by blast
  moreover have "waiters w i = Some wt \<Longrightarrow>
      \<forall>r \<in> set (buf (w_chan wt)). wait_accepts (w_kind wt) (heap w r)" for i wt
    using typedD(2) [OF T] by (simp add: waiter_typed_def)
  moreover have "\<forall>q. distinct (buf (queue q w)) \<and> (\<forall>i \<in> set (buf (queue q w)). \<exists>wt. waiters w i = Some wt \<and>
       wait_queue_of (w_kind wt) = q \<and> buf (w_chan wt) = [])"
    using typedD(3,4) [OF T] by (metis standing_def)
  ultimately show ?thesis by (simp add: idle_ok_def labelled_def)
qed

theorem channels_are_typed_witness:
  "GetProtocol (heap pool1_idle 0) = ProtocolTCP \<and>
   (\<exists>wt. waiters pool1_queued 0 = Some wt \<and> wait_queue_of (w_kind wt) = QTCP)"
proof -
  have "0 \<in> set (buf (idleTCP pool1_idle))" "0 \<in> set (buf (queue QTCP pool1_queued))" by code_simp+
  with channels_are_typed [OF pool1_idle_reachable] channels_are_typed [OF pool1_queued_reachable]
  show ?thesis by blast
qed

section \<open>Interleavings within operations\<close>

text \<open>
  C17. Goroutines inside \<^verbatim>\<open>createConnection\<close> check the limit before they dial and enter their
  connection after, without a lock in between. Whatever the goroutines of the pool do, in any
  interleaving of their steps, at most five are inside, as many as the semaphore says; the map
  together with the connections in flight stays within \<^verbatim>\<open>MaxConnections + 4\<close>; and goroutines
  inside \<^verbatim>\<open>createConnection\<close> or \<^verbatim>\<open>closeConnection\<close> never block each other: from every such state
  all of them can be run to their ends, one after the other, each in at most eight steps.
\<close>

theorem creation_overshoot_bound:
  assumes "concurrent c (w, M)"
  shows "number has_slot M = length (buf (createSemaphore w)) \<and> number has_slot M \<le> 5 \<and>
    (0 < MaxConnections (cfg w) \<longrightarrow>
       int (length (connections w)) + int (number in_flight M) \<le> MaxConnections (cfg w) + 4) \<and>
    ((\<forall>a \<in># M. 0 < togo a) \<longrightarrow>
       (\<exists>n w'. n \<le> 8 * size M \<and> (istep ^^ n) (w, M) (w', {#})))"
proof -
  from concurrent_iinv [OF assms] have I: "iinv (w, M)" ..
  have le: "sum_mset (image_mset togo M) \<le> 8 * size M"
    by (induction M) (auto intro: add_mono togo_le)
  from iinvD(7,8) [OF I] have "number has_slot M = length (buf (createSemaphore w))" "number has_slot M \<le> 5"
    by (simp_all add: slots_ok_def chan_wf_def)
  moreover have "\<exists>n w'. n \<le> 8 * size M \<and> (istep ^^ n) (w, M) (w', {#})" if "\<forall>a \<in># M. 0 < togo a"
    using run_to_end [OF that, of w] le by (meson order_trans)
  ultimately show ?thesis using iinvD(8) [OF I] by (simp add: room_ok_def)
qed

text \<open>The bound is reached: five goroutines on a new pool limited to one connection leave five.\<close>

theorem creation_overshoot_bound_witness:
  "length (connections pool1_five) = 5 \<and>
   int (length (connections pool1_five)) \<le> MaxConnections (cfg pool1_five) + 4 \<and>
   MaxConnections (cfg pool1_five) = 1"
  using creation_overshoot_bound [OF pool1_five_concurrent] by (simp add: pool1_five_values)



text \<open>
  C19. \<^verbatim>\<open>Put\<close> of a valid connection on an open pool whose idle channel has room: the connection
  goes into that channel and, if a goroutine waits for it, also to the first one that still
  waits in the queue of its protocol, of its IP version, or in the plain queue, in this order.
  Goroutines that have returned are passed over; nobody else gets anything. So a served connection
  is handed out twice: the next \<^verbatim>\<open>Get\<close> finds it in the idle channel.
\<close>

theorem put_serves_first_waiting:
  assumes "reachable c w" and "\<not> pool_closed w" and "isConnectionValid (Some r) w"
    and "int (length (buf (idle_of (GetProtocol (heap w r)) w))) < MaxIdleConnections (cfg w)"
  shows "\<exists>w'. Put (Some r) w = (Ok (), w') \<and>
    buf (idle_of (GetProtocol (heap w r)) w') = buf (idle_of (GetProtocol (heap w r)) w) @ [r] \<and>
    waiters w' =
      deliver (find (still_waiting (waiters w)) (queued (queues_for (heap w r)) w)) r (waiters w) \<and>
    (\<forall>q. \<exists>n. buf (queue q w') = drop n (buf (queue q w)))"
  using put_delivers [OF reachableD(1) [OF assms(1)] reachable_typed [OF assms(1)] assms(2-4)] by metis

theorem put_serves_first_waiting_witness:
  "buf (idleTCP pool1_served) = [0] \<and>
   (\<exists>wt. waiters pool1_served 0 = Some wt \<and> buf (w_chan wt) = [0])"
proof -
  obtain wt where wt: "waiters pool1_queued 0 = Some wt" "w_chan wt = make_chan 1" "w_phase wt = Waiting"
    using pool1_queued_waiter by blast
  then have "find (still_waiting (waiters pool1_queued)) (queued (queues_for (heap pool1_queued 0)) pool1_queued) =
      Some 0"
    by (simp add: queues_for_def queued_def still_waiting_def pool1_queued_values)
  with put_serves_first_waiting [OF pool1_queued_reachable, of 0] pool1_served_step wt show ?thesis
    by (auto simp: pool1_queued_values idle_of_def deliver_def make_chan_def)
qed


text \<open>
  C21. The goroutine that \<^verbatim>\<open>Put\<close> serves does come back: whatever it waits for, it accepts the
  connection, and its next step returns it if the connection is still valid then. Only a UDP
  connection may have become invalid, while its buffer was cleared.
\<close>

theorem put_serves_waiter:
  assumes "reachable c w" and "\<not> pool_closed w" and "isConnectionValid (Some r) w"
    and "int (length (buf (idle_of (GetProtocol (heap w r)) w))) < MaxIdleConnections (cfg w)"
    and "find (still_waiting (waiters w)) (queued (queues_for (heap w r)) w) = Some i"
  shows "\<exists>w1. Put (Some r) w = (Ok (), w1) \<and>
    (GetProtocol (heap w r) \<noteq> ProtocolUDP \<longrightarrow> isConnectionValid (Some r) w1) \<and>
    (isConnectionValid (Some r) w1 \<longrightarrow>
       (\<exists>w2 wt. wait_step i TakeConn w1 = Some w2 \<and> waiters w2 i = Some wt \<and> w_phase wt = Finished (Ok r)))"
proof -
  have I: "pool_inv w" and T: "typed w" using reachableD(1) reachable_typed assms(1) by blast+
  from served_waiter [OF T pool_invD(7) [OF I] assms(2,5)] obtain wt
    where wt: "waiters w i = Some wt" "w_phase wt = Waiting" "w_chan wt = make_chan 1"
      "wait_accepts (w_kind wt) (heap w r)" .
  from put_delivers [OF I T assms(2-4)] obtain w1 where p: "Put (Some r) w = (Ok (), w1)"
    and d: "waiters w1 = deliver (Some i) r (waiters w)"
    and l: "GetProtocol (heap w1 r) = GetProtocol (heap w r)" "GetIPVersion (heap w1 r) = GetIPVersion (heap w r)"
    and v: "GetProtocol (heap w r) \<noteq> ProtocolUDP \<Longrightarrow> isConnectionValid (Some r) w1"
    unfolding assms(5) by metis
  have "waiters w1 i = Some (wt\<lparr>w_chan := (make_chan 1)\<lparr>buf := [r]\<rparr>\<rparr>)"
    using wt(1,3) by (simp add: d deliver_def make_chan_def)
  moreover have "wait_accepts (w_kind wt) (heap w1 r)"
    using wt(4) l by (cases "w_kind wt") simp_all
  ultimately show ?thesis using p v wt(2) served_returns [of w1 i _ r] by fastforce
qed

theorem put_serves_waiter_witness:
  "\<exists>w2 wt. wait_step 0 TakeConn pool1_served = Some w2 \<and> waiters w2 0 = Some wt \<and>
     w_phase wt = Finished (Ok 0)"
proof -
  obtain wt where "waiters pool1_queued 0 = Some wt" "w_phase wt = Waiting"
    using pool1_queued_waiter by blast
  then have "find (still_waiting (waiters pool1_queued)) (queued (queues_for (heap pool1_queued 0)) pool1_queued) =
      Some 0"
    by (simp add: queues_for_def queued_def still_waiting_def pool1_queued_values)
  from put_serves_waiter [OF pool1_queued_reachable _ _ _ this] pool1_served_step show ?thesis
    by (auto simp: pool1_queued_values idle_of_def)
qed



text \<open>
  C23. \<^verbatim>\<open>Close\<close> closes the channels of the goroutines that wait in a queue; when such a goroutine
  then sees the pool closing, it closes its channel a second time, and panics.
\<close>

theorem close_makes_waiter_panic:
  assumes "reachable c w" and "\<not> pool_closed w" and "permutes_all order"
    and "i \<in> set (buf (queue q w))" and "waiters w i = Some wt" and "w_phase wt = Waiting"
  shows "\<exists>res w1 w2 wt'. Close order w = (res, w1) \<and> wait_step i PoolClosing w1 = Some w2 \<and>
    waiters w2 i = Some wt' \<and> w_phase wt' = Finished Panic"
proof -
  let ?w1 = "snd (Close order w)"
  note C = Close_open_state [OF assms(1-3)]
  then have "waiters ?w1 i = Some (shut wt)" using assms(4,5) by fastforce
  moreover have "w_phase (shut wt) = Waiting" "chan_closed (w_chan (shut wt))"
    using assms(6) by (simp_all add: shut_def)
  ultimately show ?thesis
    using waiter_after_close [of ?w1 i "shut wt"] C by (cases "Close order w") (auto simp: all_closed_def)
qed

theorem close_makes_waiter_panic_witness:
  "\<exists>res w1 w2 wt'. Close rev pool1_queued = (res, w1) \<and> wait_step 0 PoolClosing w1 = Some w2 \<and>
     waiters w2 0 = Some wt' \<and> w_phase wt' = Finished Panic"
proof -
  obtain wt where "waiters pool1_queued 0 = Some wt" "w_phase wt = Waiting"
    using pool1_queued_waiter by blast
  moreover have "0 \<in> set (buf (queue QTCP pool1_queued))" by (simp add: pool1_queued_values)
  ultimately show ?thesis
    by (intro close_makes_waiter_panic [OF pool1_queued_reachable pool1_queued_values(2) permutes_all_rev])
qed



section \<open>The specification the pool refines\<close>

text \<open>
  C25. Every step of the system is a sequence of steps of the abstract machine of
  \<^verbatim>\<open>Pool_Spec\<close>: connections are opened one at a time under fresh numbers, only on an open pool
  below its limit; they leave; the pool shuts. And every reachable state maps to a legal state of
  that machine. Every step is also a run of one goroutine through the steps of \<open>Pool_Threads\<close>,
  beside whatever other goroutines are under way.
\<close>

theorem refines_specification:
  assumes "reachable c w" and "step w w'" and "few w'"
  shows "spec_ok (abs_pool w) \<and> spec_steps (abs_pool w) (abs_pool w') \<and> (\<forall>M. isteps (w, M) (w', M))"
  using step_evolves [OF reachable_system [OF assms(1)] assms(2,3)]
    abs_pool_ok [OF reachableD(1) [OF assms(1)]]
  by (simp add: evolves_def)

theorem refines_specification_witness:
  "spec_steps \<lparr>spec_limit = 1, spec_open = {}, spec_made = 0, spec_shut = False\<rparr>
     \<lparr>spec_limit = 1, spec_open = {0}, spec_made = 1, spec_shut = False\<rparr>"
proof -
  have s: "step pool1 pool1_lent"
    using pool1_lent_step unfolding GetTCP_def by (rule step_get_protocol)
  have f: "few pool1_lent" by (simp add: few_def pool1_lent_values)
  have "map snd (connections pool1) = []" "map snd (connections pool1_lent) = [0]"
    "MaxConnections (cfg pool1_lent) = 1"
    by code_simp+
  then have "abs_pool pool1 = \<lparr>spec_limit = 1, spec_open = {}, spec_made = 0, spec_shut = False\<rparr>"
    "abs_pool pool1_lent = \<lparr>spec_limit = 1, spec_open = {0}, spec_made = 1, spec_shut = False\<rparr>"
    by (simp_all add: abs_pool_def pool1_values pool1_lent_values flip: set_map)
  then show ?thesis using refines_specification [OF pool1_reachable s f] by simp
qed



section \<open>The background managers\<close>

text \<open>
  C27. After a cleanup pass every connection still in the pool is in use or neither expired, idle
  too long nor unhealthy; connections in use are left exactly as they were; nothing is added.
\<close>

theorem cleanup_pass:
  assumes "reachable c w" and "permutes_all order" and "permutes_all order'"
  defines "w' \<equiv> performCleanup order order' w"
  shows "(\<forall>r \<in> registered w'. InUse (heap w' r) \<or> \<not> should_close (cfg w') (now w') (heap w' r)) \<and>
    (\<forall>r. InUse (heap w r) \<longrightarrow> heap w' r = heap w r \<and> (r \<in> registered w \<longrightarrow> r \<in> registered w')) \<and>
    registered w' \<subseteq> registered w"
proof -
  note R = reachableD(1,3,4) [OF assms(1)]
  let ?rs = "getAllConnections order w"
  let ?w1 = "sweep cleanup_visit ?rs w"
  have b: "\<forall>r \<in> set ?rs. r < next_ref w" using snapshot_bound(1) [OF R(1) assms(2)] by blast
  have rs: "set ?rs = registered w" unfolding getAllConnections_def permutes_allD(1) [OF assms(2)] by simp
  have I1: "pool_inv ?w1" by (rule clean.sweep_inv [OF R(1,2) b])
  have st: "static ?w1 = static w" by (rule clean.sweep_static)
  then have cfg1: "cfg ?w1 = cfg w" using staticD(1) [of ?w1 w] by simp
  have few1: "few ?w1" using R(2) by (simp add: few_def clean.sweep_next_ref)
  have sub: "registered ?w1 \<subseteq> registered w"
  proof
    fix r assume r: "r \<in> registered ?w1"
    then have "r < next_ref w"
      using pool_invD(2) [OF I1] clean.sweep_next_ref [of ?rs w] by (auto simp: map_ok_def)
    moreover have "evolves w ?w1" by (rule clean.sweep_evolves [OF R(1,2) b])
    ultimately show "r \<in> registered w"
      using spec_steps_gone [of "abs_pool w" "abs_pool ?w1" r] r by (auto simp: evolves_def abs_pool_def)
  qed
  have used: "heap ?w1 r = heap w r \<and> (r \<in> registered w \<longrightarrow> r \<in> registered ?w1)" if "InUse (heap w r)" for r
    using that clean.sweep_skipped [of w r ?rs] sweep_cleanup_in_use [OF R(1,2) b that] by simp
  have fresh: "InUse (heap ?w1 r) \<or> \<not> should_close (cfg w) (now w) (heap ?w1 r)" if "r \<in> registered ?w1" for r
    using clean.sweep_goals [OF R(1,2) b, of r] that sub rs by (auto simp: cleaned_def cfg1)
  have max: "0 \<le> MaxIdleConnections (cfg ?w1)" using corrected_max_idle [OF R(3)] by (simp add: cfg1)
  note E = enforce_spec [OF I1 few1 assms(3) max]
  have w': "w' = enforceMaxIdleConnections order' ?w1" by (simp add: w'_def performCleanup_def)
  have cfg': "cfg w' = cfg w" using staticD(1) [OF E(3)] by (simp add: w' cfg1)
  have reg: "registered w' \<subseteq> registered ?w1" using E(7) by (auto simp: w')
  have "InUse (heap w r) \<Longrightarrow> r \<in> registered w \<Longrightarrow> r \<in> registered w'" for r
    using E(7) used [of r] by (auto simp: w' idle_set_def)
  moreover have "InUse (heap w r) \<Longrightarrow> heap w' r = heap w r" for r
    using E(4) used [of r] by (simp add: w')
  moreover have "r \<in> registered w' \<Longrightarrow> InUse (heap w' r) \<or> \<not> should_close (cfg w') (now w') (heap w' r)" for r
    using E(4,5) fresh [of r] reg by (auto simp: w' cfg' [unfolded w'])
  ultimately show ?thesis using reg sub by blast
qed

theorem cleanup_pass_witness:
  "heap (performCleanup rev rev pool1_lent) 0 = heap pool1_lent 0 \<and>
   0 \<in> registered (performCleanup rev rev pool1_lent)"
proof -
  have "0 \<in> registered pool1_lent"
    using pool_invD(3) [OF reachableD(1) [OF pool1_lent_reachable]] valid_open [OF pool1_lent_values(3)]
    by (simp add: owned_ok_def pool1_lent_values)
  then show ?thesis
    using cleanup_pass [OF pool1_lent_reachable permutes_all_rev permutes_all_rev] pool1_lent_values
    by blast
qed

text \<open>
  C28. \<^verbatim>\<open>enforceMaxIdleConnections\<close>, with statistics on: of the idle connections exactly the
  excess over \<^verbatim>\<open>MaxIdleConnections\<close> leaves the pool, and none that leaves has been idle for
  less time than one that stays.
\<close>

theorem enforce_closes_longest_idle:
  assumes "reachable c w" and "permutes_all order" and "collector w \<noteq> None"
  defines "w' \<equiv> enforceMaxIdleConnections order w"
  shows "int (card (idle_set w')) = min (int (card (idle_set w))) (MaxIdleConnections (cfg w)) \<and>
    registered w' = registered w - (idle_set w - idle_set w') \<and>
    (\<forall>x \<in> idle_set w - idle_set w'. \<forall>y \<in> idle_set w'.
       GetIdleTime (now w) (heap w y) \<le> GetIdleTime (now w) (heap w x))"
proof -
  note R = reachableD(1,3,4) [OF assms(1)]
  have "0 \<le> MaxIdleConnections (cfg w)" using corrected_max_idle [OF R(3)] by simp
  note E = enforce_spec [OF R(1,2) assms(2) this]
  show ?thesis unfolding w'_def by (intro conjI E(7-9) assms(3))
qed

theorem enforce_closes_longest_idle_witness:
  "card (idle_set (enforceMaxIdleConnections rev pool1_idle)) = 1"
proof -
  have v: "collector pool1_idle \<noteq> None" "MaxIdleConnections (cfg pool1_idle) = 1"
    "map snd (connections pool1_idle) = [0]" "\<not> InUse (heap pool1_idle 0)"
    by (atomize (full), rule seenD [of pool1_idle], code_simp)
  then have "idle_set pool1_idle = {0}" by (auto simp: idle_set_def simp flip: set_map)
  with enforce_closes_longest_idle [OF pool1_idle_reachable permutes_all_rev v(1)] v(2) show ?thesis by simp
qed

text \<open>
  C30. A pass of leak detection marks exactly the connections of the pool that have been in use
  for longer than \<^verbatim>\<open>ConnectionLeakTimeout\<close>, and closes nothing. It counts each of them; and it
  counts them again on every later pass.
\<close>

theorem leak_pass:
  assumes "reachable c w" and "permutes_all o1" and "permutes_all o2" and "collector w = Some s"
  defines "leaked \<equiv> {r \<in> registered w. IsLeaked (ConnectionLeakTimeout (cfg w)) (now w) (heap w r)}"
    and "w1 \<equiv> detectLeaks o1 w"
  shows "(\<forall>r. heap w1 r = (if r \<in> leaked then (heap w r)\<lparr>LeakDetected := True\<rparr> else heap w r)) \<and>
    connections w1 = connections w \<and>
    (\<exists>s1 s2. collector w1 = Some s1 \<and> LeakedConnections s1 = LeakedConnections s + of_nat (card leaked) \<and>
       collector (detectLeaks o2 w1) = Some s2 \<and>
       LeakedConnections s2 = LeakedConnections s + 2 * of_nat (card leaked))"
proof -
  note I = reachableD(1) [OF assms(1)]
  let ?L = "\<lambda>w r. IsLeaked (ConnectionLeakTimeout (cfg w)) (now w) (heap w r)"
  have snap: "distinct (getAllConnections ord v)" "set (getAllConnections ord v) = registered v"
    if "permutes_all ord" "pool_inv v" for ord v
    using snapshot_distinct [OF that(2,1)] permutes_allD(1) [OF that(1)] by (simp_all add: getAllConnections_def)
  have count: "\<exists>s1. collector (detectLeaks ord v) = Some s1 \<and>
      LeakedConnections s1 = LeakedConnections s0 + of_nat (card {r \<in> registered v. ?L v r})"
    if o: "permutes_all ord" and v: "pool_inv v" and "collector v = Some s0" for ord v s0
  proof -
    have "length (filter (?L v) (getAllConnections ord v)) = card (set (filter (?L v) (getAllConnections ord v)))"
      using snap(1) [OF o v] by (intro distinct_card [symmetric] distinct_filter)
    also have "set (filter (?L v) (getAllConnections ord v)) = {r \<in> registered v. ?L v r}"
      unfolding set_filter snap(2) [OF o v] ..
    finally have "length (filter (?L v) (getAllConnections ord v)) = card {r \<in> registered v. ?L v r}" .
    with leak_count [OF snap(1) [OF o v] that(3)] show ?thesis by (simp add: detectLeaks_def)
  qed
  have h: "heap w1 r = (if r \<in> leaked then (heap w r)\<lparr>LeakDetected := True\<rparr> else heap w r)" for r
    using leak_heap [OF snap(1) [OF assms(2) I], of w r] snap(2) [OF assms(2) I]
    by (simp add: w1_def detectLeaks_def leaked_def)
  have L: "light w w1" unfolding w1_def by (rule detectLeaks_light)
  have n: "now w1 = now w" by (simp add: w1_def detectLeaks_def sweep_leak_now)
  have I1: "pool_inv w1" using I light_inv [OF L] by simp
  have again: "{r \<in> registered w1. ?L w1 r} = leaked"
    by (auto simp: h n lightD(1,2) [OF L] leaked_def)
  obtain s1 where s1: "collector w1 = Some s1"
    "LeakedConnections s1 = LeakedConnections s + of_nat (card leaked)"
    using count [OF assms(2) I assms(4)] by (auto simp: w1_def leaked_def)
  obtain s2 where s2: "collector (detectLeaks o2 w1) = Some s2"
    "LeakedConnections s2 = LeakedConnections s1 + of_nat (card leaked)"
    using count [OF assms(3) I1 s1(1)] unfolding again by blast
  then have "LeakedConnections s2 = LeakedConnections s + 2 * of_nat (card leaked)" using s1(2) by simp
  with s1 s2(1) h lightD(2) [OF L] show ?thesis by blast
qed

theorem leak_pass_witness:
  "LeakDetected (heap (detectLeaks rev (pass_time (3600 * 10 ^ 9) pool1_lent)) 0)"
proof -
  let ?w = "pass_time (3600 * 10 ^ 9) pool1_lent"
  have r: "reachable (small_config tcp4 0 1) ?w"
    by (rule moved [OF pool1_lent_reachable step_time])
      (simp add: few_def pass_time_def pool1_lent_values)
  have v: "ConnectionLeakTimeout (cfg pool1_lent) = 300 * 10 ^ 9" "now pool1_lent = LastUsedAt (heap pool1_lent 0)"
    "collector pool1_lent \<noteq> None" "map snd (connections pool1_lent) = [0]"
    by (atomize (full), rule seenD [of pool1_lent], code_simp)
  then obtain s where "collector ?w = Some s" by (auto simp: pass_time_def)
  moreover have "IsLeaked (ConnectionLeakTimeout (cfg ?w)) (now ?w) (heap ?w 0)"
    using v by (simp add: IsLeaked_def pass_time_def pool1_lent_values time_sub_def max_int64_def min_int64_def)
  moreover have "0 \<in> registered ?w" using v(4) by (simp add: pass_time_def flip: set_map)
  ultimately show ?thesis using leak_pass [OF r permutes_all_rev permutes_all_rev] by simp
qed



text \<open>
  C32. The verdict of a check without a configured checker. Within the limit the connection is
  healthy exactly when the read brought data or timed out; past the limit it is unhealthy; at the
  same instant the \<^verbatim>\<open>select\<close> decides whether the verdict counts. The default check reads with the
  whole \<^verbatim>\<open>HealthCheckTimeout\<close> as its deadline, so on a TCP connection on which nothing arrives,
  the usual state of an idle one, the read ends no earlier than the limit.
\<close>

theorem health_verdict:
  assumes "\<not> InUse (heap w r)" and "Conn (heap w r) = Some nc" and "HealthChecker (cfg w) = None"
    and "0 < HealthCheckTimeout (cfg w)"
  defines "answer \<equiv> read_answer nc (ext_calls w)
      (if is_UDPConn nc then 1 * Millisecond else HealthCheckTimeout (cfg w))"
  shows "IsHealthy (heap (checkConnection r w) r) \<longleftrightarrow>
    (case answer of ReadData _ _ \<Rightarrow> True | ReadErr e _ \<Rightarrow> is_net_timeout e) \<and>
    (if read_time answer = HealthCheckTimeout (cfg w) then coin w (coins w)
     else read_time answer < HealthCheckTimeout (cfg w))"
proof -
  let ?out = "performCheck (cfg w) (Conn (heap w r)) (ext_calls w)"
  have out: "int (check_time ?out) = read_time answer"
    "check_verdict ?out = (case answer of ReadData _ _ \<Rightarrow> True | ReadErr e _ \<Rightarrow> is_net_timeout e)"
    using assms(2,3)
    by (auto simp: performCheck_def udpProbeCheck_def readProbeCheck_def answer_def
        split: read_outcome.split)
  have c: "coin (pass_until t (external w)) = coin w" "coins (pass_until t (external w)) = coins w" for t
    by (simp_all add: pass_until_def external_def)
  show ?thesis using assms(1,4)
    by (auto simp: checkConnection_def Let_def out check_health flip_def c split: bool.split)
qed

theorem health_verdict_witness:
  "IsHealthy (heap (checkConnection 0 (quiet_world 0)) 0) \<and>
   \<not> IsHealthy (heap (checkConnection 0 (quiet_world 1)) 0)"
proof -
  have v: "\<not> InUse (heap (quiet_world n) 0)" "HealthChecker (cfg (quiet_world n)) = None"
    "HealthCheckTimeout (cfg (quiet_world n)) = 3000000000" "coin (quiet_world n) k"
    "Conn (heap (quiet_world n) 0) = Some (quiet_conn n)" "\<not> is_UDPConn (quiet_conn n)"
    "read_answer (quiet_conn n) (ext_calls (quiet_world n)) 3000000000 = ReadErr (NetError True 0) (3000000000 + n)"
    for n k
    by (simp_all add: quiet_world_def quiet_conn_def tcp4_def NewConnection_def start_world_def DefaultConfig_def
        duration_defs)
  show ?thesis using health_verdict [OF v(1,5,2)] v by simp
qed

text \<open>
  C33. A \<^verbatim>\<open>Get\<close> that has taken a connection from an idle channel and found it valid, but has not
  yet marked it in use, and a cleanup that visits this connection at that moment and finds it
  idle for too long: the caller is handed a connection that is closed and no longer in the pool.
  In the other order the cleanup leaves the connection alone.
\<close>

theorem get_races_cleanup:
  assumes "reachable c w" and "recv_idle_any w = (Some r, w1)" and "isConnectionValid (Some r) w1"
    and "\<not> InUse (heap w1 r)" and "IsIdleTooLong (IdleTimeout (cfg w1)) (now w1) (heap w1 r)"
  shows "InUse (heap (borrow_idle r (cleanup_visit r w1)) r) \<and>
    Conn (heap (borrow_idle r (cleanup_visit r w1)) r) = None \<and>
    r \<notin> registered (borrow_idle r (cleanup_visit r w1)) \<and>
    closes r (trace (borrow_idle r (cleanup_visit r w1))) = 1 \<and>
    cleanup_visit r (borrow_idle r w1) = borrow_idle r w1"
proof -
  note R = reachableD(1,3) [OF assms(1)]
  have few: "few w1" using R(2) by (simp add: few_def recv_any_next_ref [OF assms(2)])
  then have I: "pool_inv w1" and r: "r < next_ref w1"
    using gives_recv_any [OF assms(2)] R(1) by (simp_all add: gives_def)
  have sc: "should_close (cfg w1) (now w1) (heap w1 r)"
    using assms(5) by (simp add: should_close_def Let_def)
  note reg = cleanup_visit_registered [OF I few r]
  have "Conn (heap w1 r) \<noteq> None" using assms(3) by (simp add: valid_iff)
  then have "closes r (trace w1) = 0" using pool_invD(4) [OF I] r by (simp add: closes_ok_def)
  then have "Conn (heap (cleanup_visit r w1) r) = None" "closes r (trace (cleanup_visit r w1)) = 1"
    using cleanup_visit_closes [of w1 r] assms(4) sc \<open>Conn (heap w1 r) \<noteq> None\<close> by simp_all
  then show ?thesis using reg assms(4) sc lightD(2,12) [OF borrow_light(1)]
    by (simp add: borrow_heap cleanup_visit_def MarkInUse_def IncrementReuseCount_def)
qed

theorem get_races_cleanup_witness:
  "Conn (heap (borrow_idle 0 (cleanup_visit 0 pool1_received)) 0) = None \<and>
   InUse (heap (borrow_idle 0 (cleanup_visit 0 pool1_received)) 0)"
  using get_races_cleanup [OF pool1_late_reachable pool1_received] by (simp add: pool1_received_values)



section \<open>Reading buffers, accepting, and the life cycle of the managers\<close>

text \<open>
  C35. \<^verbatim>\<open>ClearUDPReadBuffer\<close> reads at most \<^verbatim>\<open>maxPackets\<close> packets (100 when that is not positive),
  reports no error but \<^verbatim>\<open>io.EOF\<close>, and, when reads keep their deadline up to \<open>slack\<close>, ends by its
  timeout (100 ms when that is not positive) and \<open>slack\<close>.
\<close>

theorem clear_buffer_bounded:
  assumes "ClearUDPReadBuffer nc timeout maxPackets t k = (err, t', k')"
  shows "k \<le> k' \<and> int k' \<le> int k + (if maxPackets \<le> 0 then 100 else maxPackets) \<and>
    err \<in> {None, Some IoEOF} \<and>
    (timely nc slack \<longrightarrow>
       t \<le> t' \<and> t' \<le> t + (if timeout \<le> 0 then 100 * Millisecond else timeout) + slack)"
proof (cases "is_UDPConn nc")
  case False
  with assms show ?thesis by (auto simp: ClearUDPReadBuffer_def timely_def Millisecond_def)
next
  case True
  let ?mp = "if maxPackets \<le> 0 then 100 else maxPackets"
  let ?to = "if timeout \<le> 0 then 100 * Millisecond else timeout"
  obtain s n where l: "clear_loop nc (t + ?to) (nat ?mp) t k 0 = (s, t', k', n)"
    and e: "err = (if s = ClearedEOF then Some IoEOF else None)"
    using assms True by (auto simp: ClearUDPReadBuffer_def Let_def split: prod.splits if_splits)
  from clear_loop_reads [OF l] have "k \<le> k'" "int k' \<le> int k + ?mp" by auto
  moreover have "t \<le> t' \<and> t' \<le> t + ?to + slack" if "timely nc slack"
    using clear_loop_time [OF that _ l] that by (auto simp: timely_def Millisecond_def)
  ultimately show ?thesis using e by auto
qed

theorem clear_buffer_bounded_witness:
  "\<exists>err t' k'. ClearUDPReadBuffer udp6 0 0 0 0 = (err, t', k') \<and> k' \<le> 100 \<and> t' \<le> 100000000"
proof -
  obtain err t' k' where c: "ClearUDPReadBuffer udp6 0 0 0 0 = (err, t', k')"
    by (cases "ClearUDPReadBuffer udp6 0 0 0 0")
  have "timely udp6 0" by (simp add: timely_def udp6_def)
  with clear_buffer_bounded [OF c, of 0] c show ?thesis by (auto simp: Millisecond_def)
qed

text \<open>
  C36. \<^verbatim>\<open>defaultAcceptor\<close> returns at the latest 100 ms after its context is done. It delivers a
  connection, or an error and none; but then a connection that \<^verbatim>\<open>Accept\<close> returned too late may
  neither be delivered nor closed: it stays in the channel of results, which nobody reads.
\<close>

theorem acceptor_returns:
  assumes "done_at c = Some d" and "r = defaultAcceptor c t acc sends takes"
  shows "ret_at r \<le> max t d + 100 * Millisecond \<and>
    (ret_fate r = Delivered \<longleftrightarrow> ret_conn r \<noteq> None) \<and>
    (ret_fate r \<in> {Stranded, ClosedByGoroutine} \<longrightarrow>
       dial_conn acc \<noteq> None \<and> ret_conn r = None \<and> ret_err r = Some (ctx_err c)) \<and>
    (dial_conn acc \<noteq> None \<and> max t d < t + int (dial_time acc) \<longrightarrow>
       ret_fate r = (if sends then Stranded else ClosedByGoroutine))"
  using assms
  by (auto simp: defaultAcceptor_def fate_of_def Let_def Millisecond_def split: if_splits)

theorem acceptor_returns_witness:
  "ret_fate (defaultAcceptor (WithTimeout Background 0 10) 0
     \<lparr>dial_conn = Some tcp4, dial_err = None, dial_time = 11\<rparr> True True) = Stranded"
  using acceptor_returns [of "WithTimeout Background 0 10" 10 _ 0
      "\<lparr>dial_conn = Some tcp4, dial_err = None, dial_time = 11\<rparr>" True True, OF _ refl]
  by (simp add: WithTimeout_def Background_def done_at_def)

text \<open>
  C40. Detection: a connection with a TCP or UDP remote address has that protocol, and is counted
  as IPv4 exactly when the address has four bytes or is an IPv4-mapped IPv6 address; so it is the
  same for an address in either of its two forms.
\<close>

theorem detection:
  assumes "RemoteAddr nc = Some addr" and "addr = TCPAddr (Some a) \<or> addr = UDPAddr (Some a)"
  shows "DetectProtocol (Some nc) = (if addr = TCPAddr (Some a) then ProtocolTCP else ProtocolUDP) \<and>
    DetectIPVersion (Some nc) =
      (if length a = 4 \<or> length a = 16 \<and> take 12 a = replicate 10 0 @ [255, 255]
       then IPVersionIPv4 else IPVersionIPv6) \<and>
    (length b = 4 \<longrightarrow>
       DetectIPVersion (Some (nc\<lparr>RemoteAddr := Some (TCPAddr (Some b))\<rparr>)) =
       DetectIPVersion (Some (nc\<lparr>RemoteAddr := Some (TCPAddr (Some (v4_in_6 b)))\<rparr>)))"
proof -
  have "length a = 16 \<Longrightarrow> take 12 a = take 10 a @ [a ! 10, a ! 11]"
    using take_Suc_conv_app_nth [of 10 a] take_Suc_conv_app_nth [of 11 a] by simp
  then have "(To4 a \<noteq> None) = (length a = 4 \<or> length a = 16 \<and> take 12 a = replicate 10 0 @ [255, 255])"
    by (auto simp: To4_def)
  then show ?thesis using assms
    by (auto simp: DetectProtocol_def DetectIPVersion_def version_of_ip_def To4_v4_in_6 To4_def [of b])
qed

theorem detection_witness:
  "DetectProtocol (Some tcp4) = ProtocolTCP \<and> DetectIPVersion (Some tcp4) = IPVersionIPv4"
  using detection [of tcp4 "TCPAddr (Some [10, 0, 0, 1])" "[10, 0, 0, 1]"] by (simp add: tcp4_def)

end
